(* ===== verification/Prelude.thy ===== *)
theory Prelude
  imports Main "HOL-Library.Word"
begin

unbundle bit_operations_syntax

text \<open>
  Shared vocabulary of the development: the machine integer types of the C++ code
  (\<open>std::uint8_t\<close>, \<open>std::uint32_t\<close>, \<open>std::uint64_t\<close>, \<open>std::int64_t\<close>), the
  little-endian byte layout that \<open>std::memcpy\<close> of an integer produces on the
  supported hosts, memory reads that can run out of bounds, and the lemma
  collections the component theories extend.
\<close>

section \<open>Types and collections\<close>

type_synonym byte = "8 word"
type_synonym u32 = "32 word"
type_synonym u64 = "64 word"

text \<open>Signed 64-bit values are the same words, read with \<^const>\<open>sint\<close>.\<close>

type_synonym i64 = "64 word"

named_theorems wal_simps \<open>characteristic equations of the write-ahead log\<close>
named_theorems ring_simps \<open>characteristic equations of the ring buffer\<close>
named_theorems fp_simps \<open>comparison and arithmetic on floating-point values\<close>
named_theorems gw_simps \<open>characteristic equations of the gateway handlers\<close>

section \<open>Lists\<close>

lemma filter_take_drop_id: "filter P xs = filter P (take n xs) @ filter P (drop n xs)"
  by (metis append_take_drop_id filter_append)

lemma take_append_exact [simp]: "length xs = n \<Longrightarrow> take n (xs @ ys) = xs"
  by simp

lemma drop_append_exact [simp]: "length xs = n \<Longrightarrow> drop n (xs @ ys) = ys"
  by simp

lemma dropWhile_sorted_filter:
  "sorted (map f xs) \<Longrightarrow> dropWhile (\<lambda>x. f x \<le> a) xs = filter (\<lambda>x. \<not> f x \<le> a) xs"
proof (induction xs)
  case Nil
  then show ?case by simp
next
  case (Cons x xs)
  show ?case
  proof (cases "f x \<le> a")
    case True
    with Cons show ?thesis by simp
  next
    case False
    with Cons.prems have "\<forall>y\<in>set xs. \<not> f y \<le> a" by fastforce
    then have "filter (\<lambda>x. \<not> f x \<le> a) xs = xs" by simp
    with False show ?thesis by simp
  qed
qed

section \<open>Bytes\<close>

text \<open>
  \<open>le_split n w\<close> is the first \<open>n\<close> bytes of the object representation of \<open>w\<close>;
  \<open>le_join bs\<close> is the integer whose object representation starts with \<open>bs\<close>.
\<close>

primrec le_split :: "nat \<Rightarrow> 'a::len word \<Rightarrow> byte list" where
  "le_split 0 w = []"
| "le_split (Suc n) w = ucast w # le_split n (drop_bit 8 w)"

primrec le_join :: "byte list \<Rightarrow> 'a::len word" where
  "le_join [] = 0"
| "le_join (b # bs) = ucast b OR push_bit 8 (le_join bs)"

lemma length_le_split [simp]: "length (le_split n w) = n"
  by (induction n arbitrary: w) simp_all

lemma ucast_or_push_bit_drop:
  "ucast (ucast (w :: 'a::len word) :: byte) OR push_bit 8 (take_bit m (drop_bit 8 w)) = take_bit (8 + m) w"
  by (rule bit_word_eqI)
    (auto simp: bit_simps not_less dest: bit_imp_le_length)

lemma le_join_split: "le_join (le_split n w) = take_bit (8 * n) (w :: 'a::len word)"
proof (induction n arbitrary: w)
  case 0
  then show ?case by simp
next
  case (Suc n)
  have "le_join (le_split (Suc n) w) = ucast (ucast w :: byte) OR push_bit 8 (take_bit (8 * n) (drop_bit 8 w))"
    by (simp add: Suc)
  also have "\<dots> = take_bit (8 * Suc n) w"
    by (simp add: ucast_or_push_bit_drop)
  finally show ?case .
qed

lemma le_join_split_full [simp]:
  "8 * n = LENGTH('a) \<Longrightarrow> le_join (le_split n w) = (w :: 'a::len word)"
  by (simp add: le_join_split)

lemma bit_le_join_bound:
  "bit (le_join bs :: 'a::len word) i \<Longrightarrow> i < 8 * length bs"
proof (induction bs arbitrary: i)
  case Nil
  then show ?case by simp
next
  case (Cons b bs)
  then show ?case
    by (auto simp: bit_simps dest!: Cons.IH dest: bit_imp_le_length)
qed

lemma drop_bit_le_join_Cons:
  assumes "8 * length (b # bs) \<le> LENGTH('a)"
  shows "drop_bit 8 (le_join (b # bs) :: 'a::len word) = le_join bs"
proof (rule bit_word_eqI)
  fix i
  have "bit (le_join bs :: 'a word) i \<Longrightarrow> 8 + i < LENGTH('a)"
    using bit_le_join_bound[of bs i] assms by fastforce
  then show "bit (drop_bit 8 (le_join (b # bs) :: 'a word)) i = bit (le_join bs :: 'a word) i"
    by (auto simp: bit_simps dest: bit_imp_le_length)
qed

lemma ucast_le_join_Cons:
  assumes "8 * length (b # bs) \<le> LENGTH('a)"
  shows "(ucast (le_join (b # bs) :: 'a::len word) :: byte) = b"
  using assms by (intro bit_word_eqI) (auto simp: bit_simps)

lemma le_split_join:
  "8 * length bs \<le> LENGTH('a) \<Longrightarrow> le_split (length bs) (le_join bs :: 'a::len word) = bs"
proof (induction bs)
  case Nil
  then show ?case by simp
next
  case (Cons b bs)
  then show ?case
    using drop_bit_le_join_Cons[of b bs, where 'a='a] ucast_le_join_Cons[of b bs, where 'a='a]
    by (simp del: le_join.simps)
qed

lemma le_join_inj:
  assumes "(le_join xs :: 'a::len word) = le_join ys" "length xs = length ys" "8 * length xs \<le> LENGTH('a)"
  shows "xs = ys"
  by (metis assms le_split_join)

lemma xor_cancel_right: "(a XOR c = b XOR c) \<longleftrightarrow> a = (b :: 'a::len word)"
  by (metis xor.assoc xor.right_neutral xor_self_eq)

lemma xor_cancel_left: "(c XOR a = c XOR b) \<longleftrightarrow> a = (b :: 'a::len word)"
  by (simp add: xor.commute[of c] xor_cancel_right)

section \<open>Sizes as 64-bit words\<close>

lemma unat_u64_of_nat [simp]: "n < 2 ^ 64 \<Longrightarrow> unat (word_of_nat n :: u64) = n"
  by (simp add: unat_of_nat take_bit_nat_eq_self)

lemma unat_u32_of_nat [simp]: "n < 2 ^ 32 \<Longrightarrow> unat (word_of_nat n :: u32) = n"
  by (simp add: unat_of_nat take_bit_nat_eq_self_iff)

lemma u64_of_nat_less: "m < 2 ^ 64 \<Longrightarrow> n < 2 ^ 64 \<Longrightarrow> (word_of_nat m :: u64) < word_of_nat n \<longleftrightarrow> m < n"
  by (simp add: word_less_nat_alt)

lemma u64_of_nat_le: "m < 2 ^ 64 \<Longrightarrow> n < 2 ^ 64 \<Longrightarrow> (word_of_nat m :: u64) \<le> word_of_nat n \<longleftrightarrow> m \<le> n"
  by (simp add: word_le_nat_alt)

lemma u64_ucast_u32: "(ucast (w :: u32) :: u64) = word_of_nat (unat w)"
  by (rule bit_word_eqI) (simp add: bit_simps)

lemma unat_u64_less: "unat (w :: u64) < 2 ^ 64"
  using unsigned_less[of w] by simp

lemma u32_through_u64: "ucast (ucast w :: u64) = (w :: u32)"
  by (rule bit_word_eqI) (simp add: bit_simps)

lemma unat_u32_less: "unat (w :: u32) < 2 ^ 32"
  using unsigned_less[of w] by simp

lemmas u64_nat_simps = unat_u64_of_nat u64_of_nat_less u64_of_nat_le

section \<open>Memory reads\<close>

text \<open>
  A read of \<open>n\<close> bytes at \<open>off\<close>; outside the buffer the C++ behaviour is undefined,
  which the model makes visible as \<^const>\<open>None\<close>.
\<close>

definition mem_read :: "byte list \<Rightarrow> nat \<Rightarrow> nat \<Rightarrow> byte list option" where
  "mem_read buf off n = (if off + n \<le> length buf then Some (take n (drop off buf)) else None)"

lemma mem_read_Some: "mem_read buf off n = Some bs \<Longrightarrow> length bs = n"
  by (auto simp: mem_read_def split: if_splits)

lemma mem_read_prefix:
  "off + n \<le> length xs \<Longrightarrow> mem_read (xs @ ys) off n = mem_read xs off n"
  by (simp add: mem_read_def)

end
