(* ===== verification/Crc32.thy ===== *)
theory Crc32
  imports Prelude
begin

text \<open>
  The checksum of the write-ahead log, core/include/ridgeline/crc32.h: the table of
  256 entries, the byte-at-a-time update, and the final complement.  The lemmas
  relate the table-driven loop to bit-serial division by the IEEE 802.3 polynomial
  and show which corruptions the checksum cannot miss.
\<close>

section \<open>The code\<close>

definition crc_poly :: u32 where
  "crc_poly = 0xEDB88320"

text \<open>One iteration of the inner \<open>k\<close> loop of the table initialiser.\<close>

definition crc_step :: "u32 \<Rightarrow> u32" where
  "crc_step c = (if c AND 1 \<noteq> 0 then crc_poly XOR drop_bit 1 c else drop_bit 1 c)"

definition crc_table :: "u32 list" where
  "crc_table = map (\<lambda>i. (crc_step ^^ 8) (word_of_nat i)) [0..<256]"

definition crc_update :: "u32 \<Rightarrow> byte \<Rightarrow> u32" where
  "crc_update crc b = crc_table ! unat ((crc XOR ucast b) AND 0xFF) XOR drop_bit 8 crc"

definition Crc32 :: "byte list \<Rightarrow> u32" where
  "Crc32 bs = foldl crc_update 0xFFFFFFFF bs XOR 0xFFFFFFFF"

section \<open>Bit-serial reference\<close>

text \<open>
  The reference shifts one input bit at a time through the register, as the
  definition of a reflected CRC does.
\<close>

definition crc_bits :: "u32 \<Rightarrow> byte \<Rightarrow> u32" where
  "crc_bits crc b = (crc_step ^^ 8) (crc XOR ucast b)"

definition Crc32_ref :: "byte list \<Rightarrow> u32" where
  "Crc32_ref bs = NOT (foldl crc_bits (NOT 0) bs)"

lemma and_1_bit0: "(c :: u32) AND 1 \<noteq> 0 \<longleftrightarrow> bit c 0"
  by (simp add: and_one_eq bit_0 odd_iff_mod_2_eq_one)

lemma crc_step_alt: "crc_step c = (if bit c 0 then crc_poly XOR drop_bit 1 c else drop_bit 1 c)"
  unfolding crc_step_def and_1_bit0 ..

lemma crc_step_xor: "crc_step (a XOR b) = crc_step a XOR crc_step b"
  by (rule bit_word_eqI) (auto simp: crc_step_alt bit_simps)

lemma crc_steps_xor: "(crc_step ^^ n) (a XOR b) = (crc_step ^^ n) a XOR (crc_step ^^ n) b"
  by (induction n) (simp_all add: crc_step_xor)

lemma crc_steps_shift:
  "(\<And>i. i < n \<Longrightarrow> \<not> bit (c :: u32) i) \<Longrightarrow> (crc_step ^^ n) c = drop_bit n c"
proof (induction n arbitrary: c)
  case 0
  then show ?case by simp
next
  case (Suc n)
  have s: "crc_step c = drop_bit 1 c"
    using Suc.prems[of 0] by (simp add: crc_step_alt)
  have "(crc_step ^^ n) (drop_bit 1 c) = drop_bit n (drop_bit 1 c)"
    by (rule Suc.IH) (use Suc.prems in \<open>auto simp: bit_simps\<close>)
  then show ?case
    by (simp add: funpow_Suc_right s add.commute del: funpow.simps)
qed

lemma bit_FF: "bit (0xFF :: u32) i \<longleftrightarrow> i < 8"
proof -
  have "(0xFF :: u32) = mask 8" by (simp add: mask_eq_exp_minus_1)
  then show ?thesis by (simp only: bit_mask_iff) auto
qed

lemma crc_steps_8: "(crc_step ^^ 8) c = (crc_step ^^ 8) (c AND 0xFF) XOR drop_bit 8 c"
proof -
  have lo: "\<not> bit (c AND NOT 0xFF) i" if "i < 8" for i
    using that unfolding bit_and_iff bit_not_iff bit_FF by simp
  have split: "c = (c AND 0xFF) XOR (c AND NOT 0xFF)"
  proof (rule bit_word_eqI)
    fix i :: nat assume "i < LENGTH(32)"
    then show "bit c i = bit ((c AND 0xFF) XOR (c AND NOT 0xFF)) i"
      unfolding bit_xor_iff bit_and_iff bit_not_iff bit_FF by auto
  qed
  have hi: "drop_bit 8 (c AND NOT 0xFF) = drop_bit 8 c"
  proof (rule bit_word_eqI)
    fix i :: nat assume "i < LENGTH(32)"
    then show "bit (drop_bit 8 (c AND NOT 0xFF)) i = bit (drop_bit 8 c) i"
      unfolding bit_drop_bit_eq o_apply bit_and_iff bit_not_iff bit_FF
      by (auto dest: bit_imp_le_length)
  qed
  have "(crc_step ^^ 8) c = (crc_step ^^ 8) (c AND 0xFF) XOR (crc_step ^^ 8) (c AND NOT 0xFF)"
    by (subst split) (rule crc_steps_xor)
  also have "(crc_step ^^ 8) (c AND NOT 0xFF) = drop_bit 8 c"
    using crc_steps_shift[OF lo] hi by simp
  finally show ?thesis .
qed

lemma and_FF_less: "unat ((c :: u32) AND 0xFF) < 256"
proof -
  have "(0xFF :: u32) = mask 8" by (simp add: mask_eq_exp_minus_1)
  then have "c AND 0xFF = take_bit 8 c" by (simp only: take_bit_eq_mask)
  then have "unat (c AND 0xFF) = take_bit 8 (unat c)" by (simp add: unsigned_take_bit_eq)
  then show ?thesis by (simp add: take_bit_eq_mod)
qed

lemma crc_table_nth:
  "crc_table ! unat ((c :: u32) AND 0xFF) = (crc_step ^^ 8) (c AND 0xFF)"
  using and_FF_less[of c] by (simp add: crc_table_def)

lemma crc_update_bits: "crc_update crc b = crc_bits crc b"
proof -
  have "drop_bit 8 (crc XOR ucast b) = drop_bit 8 crc"
    by (rule bit_word_eqI) (auto simp: bit_simps dest: bit_imp_le_length)
  then show ?thesis
    unfolding crc_update_def crc_bits_def crc_table_nth
    by (subst (2) crc_steps_8) simp
qed

lemma crc_update_code:
  "crc_update c b =
     crc_step (crc_step (crc_step (crc_step (crc_step (crc_step (crc_step (crc_step (c XOR ucast b))))))))"
  by (simp add: crc_update_bits crc_bits_def numeral_eq_Suc)

text \<open>Evaluating a checksum on concrete bytes goes through the bit-serial form.\<close>

lemmas crc_eval = Crc32_def crc_update_code crc_step_def crc_poly_def

text \<open>
  C29: the table-driven checksum of crc32.h equals bit-serial polynomial division by the
  reflected IEEE 802.3 polynomial, on every input.
\<close>

theorem Crc32_is_bit_serial: "Crc32 bs = Crc32_ref bs"
proof -
  have ones: "(0xFFFFFFFF :: u32) = NOT 0" by simp
  have "crc_update = crc_bits" by (intro ext) (rule crc_update_bits)
  then show ?thesis
    unfolding Crc32_def Crc32_ref_def ones by (simp add: bit.xor_one_right)
qed

section \<open>Which corruptions are detected\<close>

lemma crc_step_inj: "crc_step a = crc_step b \<Longrightarrow> a = b"
proof -
  have top: "bit crc_poly 31" by (simp add: crc_poly_def)
  assume eq: "crc_step a = crc_step b"
  have "bit (crc_step c) 31 = bit c 0" for c
    using top by (auto simp: crc_step_alt bit_simps dest: bit_imp_le_length)
  with eq have b0: "bit a 0 = bit b 0" by metis
  have "drop_bit 1 a = drop_bit 1 b"
    using eq b0 by (auto simp: crc_step_alt xor_cancel_left split: if_splits)
  then have hi: "bit a (Suc i) = bit b (Suc i)" for i
    by (metis bit_drop_bit_eq o_apply plus_1_eq_Suc)
  show "a = b"
  proof (rule bit_word_eqI)
    fix i show "bit a i = bit b i" using b0 hi by (cases i) auto
  qed
qed

lemma crc_steps_inj: "(crc_step ^^ n) a = (crc_step ^^ n) b \<Longrightarrow> a = b"
  by (induction n) (auto dest: crc_step_inj)

lemma foldl_crc_inj: "foldl crc_update a bs = foldl crc_update b bs \<Longrightarrow> a = b"
proof (induction bs arbitrary: a b)
  case Nil
  then show ?case by simp
next
  case (Cons x bs)
  then have "crc_update a x = crc_update b x" by simp
  then have "a XOR ucast x = b XOR ucast x"
    unfolding crc_update_bits crc_bits_def by (rule crc_steps_inj)
  then show ?case by (simp add: xor_cancel_right)
qed

lemma foldl_crc_join:
  "length bs \<le> 4 \<Longrightarrow> foldl crc_update c bs = (crc_step ^^ (8 * length bs)) (c XOR le_join bs)"
proof (induction bs arbitrary: c)
  case Nil
  then show ?case by simp
next
  case (Cons b bs)
  let ?j = "le_join bs :: u32"
  have len: "8 * length (b # bs) \<le> LENGTH(32)" using Cons.prems by simp
  have shift: "(crc_step ^^ 8) (push_bit 8 ?j) = ?j"
  proof -
    have "(crc_step ^^ 8) (push_bit 8 ?j) = drop_bit 8 (push_bit 8 ?j)"
      by (rule crc_steps_shift) (simp add: bit_simps)
    also have "\<dots> = ?j"
    proof (rule bit_word_eqI)
      fix i
      have "bit ?j i \<Longrightarrow> i + 8 < 32"
        using bit_le_join_bound[of bs i] len by fastforce
      then show "bit (drop_bit 8 (push_bit 8 ?j)) i = bit ?j i"
        by (auto simp: bit_simps)
    qed
    finally show ?thesis .
  qed
  have or_xor: "(ucast b :: u32) OR push_bit 8 ?j = ucast b XOR push_bit 8 ?j"
    by (rule bit_word_eqI) (auto simp: bit_simps dest: bit_imp_le_length)
  have "foldl crc_update c (b # bs)
      = (crc_step ^^ (8 * length bs)) ((crc_step ^^ 8) (c XOR ucast b) XOR ?j)"
    using Cons.IH[of "crc_update c b"] Cons.prems
    by (simp add: crc_update_bits[of c b] crc_bits_def)
  also have "(crc_step ^^ 8) (c XOR ucast b) XOR ?j = (crc_step ^^ 8) (c XOR le_join (b # bs))"
    unfolding le_join.simps or_xor xor.assoc[symmetric] crc_steps_xor[of 8 "c XOR ucast b"] shift ..
  finally show ?case
    using funpow_add[of "8 * length bs" 8 crc_step] by (simp add: add.commute del: le_join.simps)
qed

lemma Crc32_burst:
  assumes "length xs = length ys" "length xs \<le> 4" "xs \<noteq> ys"
  shows "Crc32 (pre @ xs @ post) \<noteq> Crc32 (pre @ ys @ post)"
proof
  let ?c = "foldl crc_update 0xFFFFFFFF pre"
  assume "Crc32 (pre @ xs @ post) = Crc32 (pre @ ys @ post)"
  then have "foldl crc_update (foldl crc_update ?c xs) post = foldl crc_update (foldl crc_update ?c ys) post"
    by (simp add: Crc32_def xor_cancel_right)
  then have "foldl crc_update ?c xs = foldl crc_update ?c ys" by (rule foldl_crc_inj)
  then have "?c XOR le_join xs = ?c XOR le_join ys"
    using assms by (simp add: foldl_crc_join crc_steps_inj)
  then have "(le_join xs :: u32) = le_join ys"
    by (simp add: xor_cancel_left)
  then have "xs = ys"
    using assms by (auto intro: le_join_inj)
  with assms show False by simp
qed

text \<open>
  Two byte strings of the same length that differ only inside a window of four
  consecutive bytes never have the same checksum.
\<close>

lemma Crc32_detects_burst:
  assumes "length xs = length ys" "length xs \<le> 4" "xs \<noteq> ys"
  shows "Crc32 (pre @ xs @ post) \<noteq> Crc32 (pre @ ys @ post)"
  by (rule Crc32_burst[OF assms])

lemma Crc32_detects_burst_example: "Crc32 ([1] @ [2, 3] @ [4]) \<noteq> Crc32 ([1] @ [2, 7] @ [4])"
  by (rule Crc32_detects_burst) simp_all

end
