(* ===== verification/WalCodec.thy ===== *)
theory WalCodec
  imports Crc32
begin

text \<open>
  The record framing of the write-ahead log,
  core/include/ridgeline/wal_record_codec.h.  A record is
  \<open>seq (8) | length (4) | crc32 (4) | payload\<close>, integers little-endian.
  \<open>DecodeRecord\<close> works on a 64-bit offset with the wrap-around of \<open>std::size_t\<close>; a
  read outside the buffer is the outcome \<open>DecodeFault\<close>.
\<close>

section \<open>The code\<close>

definition kWalRecordHeaderBytes :: u64 where
  "kWalRecordHeaderBytes = 16"

definition kWalMaxPayloadBytes :: u32 where
  "kWalMaxPayloadBytes = 16 * 1024 * 1024"

definition EncodeRecord :: "u64 \<Rightarrow> byte list \<Rightarrow> byte list" where
  "EncodeRecord seq payload =
     (let len = (word_of_nat (length payload) :: u32);
          crc = Crc32 payload
      in le_split 8 seq @ le_split 4 len @ le_split 4 crc @ payload)"

datatype decode_result =
    DecodeFault
  | DecodeFail
  | Decoded (rec_seq: u64) (rec_payload: "byte list") (next_offset: u64)

definition DecodeRecord :: "byte list \<Rightarrow> u64 \<Rightarrow> decode_result" where
  "DecodeRecord buf offset =
     (let size = word_of_nat (length buf) in
      if offset + kWalRecordHeaderBytes > size then DecodeFail
      else case (mem_read buf (unat offset) 8, mem_read buf (unat offset + 8) 4,
                 mem_read buf (unat offset + 12) 4) of
        (Some s, Some l, Some c) \<Rightarrow>
          (let record_seq = le_join s; len = (le_join l :: u32); stored_crc = (le_join c :: u32) in
           if len > kWalMaxPayloadBytes then DecodeFail
           else
             (let record_end = offset + kWalRecordHeaderBytes + ucast len in
              if record_end > size \<or> record_end < offset then DecodeFail
              else case mem_read buf (unat offset + 16) (unat len) of
                None \<Rightarrow> DecodeFault
              | Some payload \<Rightarrow>
                  if Crc32 payload \<noteq> stored_crc then DecodeFail
                  else Decoded record_seq payload record_end))
      | _ \<Rightarrow> DecodeFault)"

section \<open>Decoding in terms of positions\<close>

definition max_payload :: nat where
  "max_payload = 16777216"

lemma unat_kWalMaxPayloadBytes: "unat kWalMaxPayloadBytes = max_payload"
  unfolding kWalMaxPayloadBytes_def max_payload_def by simp

lemma max_payload_less: "max_payload < 2 ^ 32"
  unfolding max_payload_def by simp

text \<open>
  For an offset inside a buffer that fits in memory, the word arithmetic of the code
  is plain arithmetic on positions.
\<close>

definition decode_at :: "byte list \<Rightarrow> nat \<Rightarrow> (u64 \<times> byte list) option" where
  "decode_at buf off =
     (let len = unat (le_join (take 4 (drop (off + 8) buf)) :: u32);
          p = take len (drop (off + 16) buf)
      in if off + 16 \<le> length buf \<and> len \<le> max_payload \<and> off + 16 + len \<le> length buf \<and>
            Crc32 p = le_join (take 4 (drop (off + 12) buf))
         then Some (le_join (take 8 (drop off buf)), p) else None)"

lemma DecodeRecord_at:
  assumes "length buf < 2 ^ 63" "off \<le> length buf"
  shows "DecodeRecord buf (word_of_nat off) =
    (case decode_at buf off of None \<Rightarrow> DecodeFail
     | Some (s, p) \<Rightarrow> Decoded s p (word_of_nat (off + 16 + length p)))"
proof -
  define len where "len = (le_join (take 4 (drop (off + 8) buf)) :: u32)"
  have lt: "unat len < 2 ^ 32" by (rule unat_u32_less)
  let ?size = "word_of_nat (length buf) :: u64"
  let ?fin = "word_of_nat off + kWalRecordHeaderBytes + ucast len :: u64"
  have u: "unat (word_of_nat off :: u64) = off"
    using assms by simp
  have hdr: "word_of_nat off + kWalRecordHeaderBytes = (word_of_nat (off + 16) :: u64)"
    by (simp add: kWalRecordHeaderBytes_def)
  have endw: "?fin = word_of_nat (off + 16 + unat len)"
    unfolding hdr by simp
  have c1: "(word_of_nat off + kWalRecordHeaderBytes > ?size) = (off + 16 > length buf)"
    unfolding hdr using assms by (simp add: u64_of_nat_less del: of_nat_add)
  have c2: "(?fin > ?size \<or> ?fin < word_of_nat off) = (off + 16 + unat len > length buf)"
    unfolding endw using assms lt by (simp add: u64_of_nat_less del: of_nat_add)
  have cap: "(len > kWalMaxPayloadBytes) = (unat len > max_payload)"
    unfolding word_less_nat_alt unat_kWalMaxPayloadBytes ..
  show ?thesis
  proof (cases "off + 16 \<le> length buf")
    case False
    then show ?thesis
      unfolding DecodeRecord_def decode_at_def Let_def c1 by simp
  next
    case True
    have r: "mem_read buf off 8 = Some (take 8 (drop off buf))"
      "mem_read buf (off + 8) 4 = Some (take 4 (drop (off + 8) buf))"
      "mem_read buf (off + 12) 4 = Some (take 4 (drop (off + 12) buf))"
      using True by (simp_all add: mem_read_def)
    show ?thesis
      using True
      unfolding DecodeRecord_def decode_at_def Let_def u c1 r option.case prod.case len_def[symmetric] cap c2
      by (auto simp: mem_read_def endw)
  qed
qed

lemma decode_at_bounds:
  assumes "decode_at buf off = Some (s, p)"
  shows "length p \<le> max_payload" "off + 16 + length p \<le> length buf"
  using assms by (auto simp: decode_at_def Let_def split: if_splits)

text \<open>Encoding and decoding are inverse, in both directions.\<close>

lemma length_EncodeRecord [simp]: "length (EncodeRecord seq p) = 16 + length p"
  by (simp add: EncodeRecord_def)

lemma payload_len_word:
  "length p \<le> max_payload \<Longrightarrow> unat (word_of_nat (length p) :: u32) = length p"
  using max_payload_less by (simp add: unat_of_nat take_bit_nat_eq_self)

lemma decode_at_encode:
  assumes "length p \<le> max_payload"
  shows "decode_at (pre @ EncodeRecord seq p @ post) (length pre) = Some (seq, p)"
  using assms payload_len_word[OF assms]
  by (simp add: decode_at_def EncodeRecord_def Let_def)

lemma decode_at_inverse:
  assumes "decode_at buf off = Some (s, p)"
  shows "take (16 + length p) (drop off buf) = EncodeRecord s p"
proof -
  let ?d = "drop off buf"
  have len: "length p = unat (le_join (take 4 (drop 8 ?d)) :: u32)" "16 + length p \<le> length ?d"
    and p: "p = take (length p) (drop 16 ?d)" and s: "s = le_join (take 8 ?d)"
    and c: "Crc32 p = le_join (take 4 (drop 12 ?d))"
    using assms by (auto simp: decode_at_def Let_def drop_drop add.commute split: if_splits)
  have l4: "le_split 4 (word_of_nat (length p) :: u32) = take 4 (drop 8 ?d)"
    using len le_split_join[of "take 4 (drop 8 ?d)", where 'a=32] by simp
  have c4: "le_split 4 (Crc32 p) = take 4 (drop 12 ?d)"
    using len c le_split_join[of "take 4 (drop 12 ?d)", where 'a=32] by simp
  have s8: "le_split 8 s = take 8 ?d"
    using len s le_split_join[of "take 8 ?d", where 'a=64] by simp
  have "take (16 + length p) ?d = take 8 ?d @ take 4 (drop 8 ?d) @ take 4 (drop 12 ?d) @ take (length p) (drop 16 ?d)"
    using take_add[of 8 "4 + (4 + length p)" ?d] take_add[of 4 "4 + length p" "drop 8 ?d"]
      take_add[of 4 "length p" "drop 12 ?d"]
    by (simp add: add.commute)
  then show ?thesis
    using p by (simp add: EncodeRecord_def l4 c4 s8)
qed

text \<open>Progress, for every buffer and offset: no wrap-around can make a record end before it starts.\<close>

lemma DecodeRecord_progress:
  assumes "DecodeRecord buf off = Decoded s p off'"
  shows "off < off'"
proof -
  obtain len :: u32 where off': "off' = off + 16 + ucast len" "\<not> off' < off" "\<not> len > kWalMaxPayloadBytes"
    using assms unfolding DecodeRecord_def Let_def kWalRecordHeaderBytes_def prod.case
    by (simp split: if_split_asm option.split_asm) blast
  have "unat len \<le> max_payload"
    using off'(3) unfolding not_less word_le_nat_alt unat_kWalMaxPayloadBytes .
  then have "(16 + ucast len :: u64) \<noteq> 0"
  proof -
    have "(16 + ucast len :: u64) = word_of_nat (16 + unat len)" by simp
    moreover have "unat (word_of_nat (16 + unat len) :: u64) = 16 + unat len"
      using unat_u32_less[of len] by (simp del: of_nat_add)
    ultimately have "unat (16 + ucast len :: u64) \<noteq> 0" by simp
    then show ?thesis by (simp only: unat_eq_zero not_False_eq_True)
  qed
  then have "off' \<noteq> off"
    unfolding off'(1) add.assoc by simp
  with off'(2) show ?thesis by (simp add: order_less_le)
qed

lemma DecodeRecord_measure:
  assumes "DecodeRecord buf off = Decoded s p off'"
  shows "2 ^ 64 - unat off' < 2 ^ 64 - unat off"
proof -
  have "unat off < unat off'"
    using DecodeRecord_progress[OF assms] by (simp add: word_less_nat_alt)
  moreover have "unat off' < 2 ^ 64"
    using unsigned_less[of off'] by simp
  ultimately show ?thesis by (intro diff_less_mono2) auto
qed

section \<open>Sequences of records\<close>

type_synonym wal_records = "(u64 \<times> byte list) list"

definition encode_log :: "wal_records \<Rightarrow> byte list" where
  "encode_log rs = concat (map (\<lambda>(s, p). EncodeRecord s p) rs)"

definition records_ok :: "wal_records \<Rightarrow> bool" where
  "records_ok rs = list_all (\<lambda>(s, p). length p \<le> max_payload) rs"

lemma encode_log_simps [simp]:
  "encode_log [] = []"
  "encode_log ((s, p) # rs) = EncodeRecord s p @ encode_log rs"
  "encode_log (rs @ rs') = encode_log rs @ encode_log rs'"
  by (simp_all add: encode_log_def)

lemma records_ok_simps [simp]:
  "records_ok []"
  "records_ok ((s, p) # rs) \<longleftrightarrow> length p \<le> max_payload \<and> records_ok rs"
  "records_ok (rs @ rs') \<longleftrightarrow> records_ok rs \<and> records_ok rs'"
  by (simp_all add: records_ok_def)

lemma records_ok_filter: "records_ok rs \<Longrightarrow> records_ok (filter P rs)"
  by (auto simp: records_ok_def list_all_iff)

function records_from :: "byte list \<Rightarrow> nat \<Rightarrow> wal_records" where
  "records_from buf off =
     (case decode_at buf off of None \<Rightarrow> []
      | Some (s, p) \<Rightarrow> (s, p) # records_from buf (off + 16 + length p))"
  by pat_completeness auto
termination
  by (relation "measure (\<lambda>(buf, off). length buf - off)")
    (auto dest: decode_at_bounds)

declare records_from.simps [simp del]

abbreviation log_records :: "byte list \<Rightarrow> wal_records" where
  "log_records buf \<equiv> records_from buf 0"

lemma records_from_None: "decode_at buf off = None \<Longrightarrow> records_from buf off = []"
  by (simp add: records_from.simps)

lemma records_from_ok: "records_ok (records_from buf off)"
proof (induction buf off rule: records_from.induct)
  case (1 buf off)
  then show ?case
    by (subst records_from.simps) (auto split: option.splits dest: decode_at_bounds)
qed

lemma records_from_encode_log:
  "records_ok rs \<Longrightarrow>
   records_from (pre @ encode_log rs @ tail) (length pre) =
   rs @ records_from (pre @ encode_log rs @ tail) (length pre + length (encode_log rs))"
proof (induction rs arbitrary: pre)
  case Nil
  then show ?case by simp
next
  case (Cons r rs)
  obtain s p where r: "r = (s, p)" by (cases r)
  have d: "decode_at (pre @ EncodeRecord s p @ encode_log rs @ tail) (length pre) = Some (s, p)"
    using Cons.prems r by (intro decode_at_encode) simp
  show ?case
    using Cons.IH[of "pre @ EncodeRecord s p"] Cons.prems d r
    by (subst records_from.simps) (simp add: add.assoc)
qed

text \<open>A proper prefix of a record is not a record, whatever its checksum field holds.\<close>

lemma decode_at_torn:
  assumes "k < 16 + length p" "length p \<le> max_payload"
  shows "decode_at (pre @ take k (EncodeRecord seq p)) (length pre) = None"
proof (cases "k < 16")
  case True
  then show ?thesis by (simp add: decode_at_def Let_def)
next
  case False
  then have "take 4 (drop 8 (take k (EncodeRecord seq p))) = le_split 4 (word_of_nat (length p) :: u32)"
    by (simp add: EncodeRecord_def Let_def)
  then show ?thesis
    using assms payload_len_word[OF assms(2)] by (simp add: decode_at_def Let_def)
qed

lemma log_records_torn:
  assumes "records_ok rs" "k < 16 + length p" "length p \<le> max_payload"
  shows "log_records (encode_log rs @ take k (EncodeRecord seq p)) = rs"
  using records_from_encode_log[OF assms(1), of "[]" "take k (EncodeRecord seq p)"]
    decode_at_torn[OF assms(2,3), of "encode_log rs" seq]
  by (simp add: records_from_None)

lemma log_records_encode: "records_ok rs \<Longrightarrow> log_records (encode_log rs) = rs"
  using log_records_torn[of rs 0 "[]"] by simp

lemma log_records_split:
  assumes "records_ok rs"
  shows "log_records (encode_log rs @ tail) =
    rs @ records_from (encode_log rs @ tail) (length (encode_log rs))"
  using records_from_encode_log[OF assms, of "[]" tail] by simp

text \<open>Every buffer is the encoding of its records followed by bytes that do not decode.\<close>

lemma records_from_prefix:
  "\<exists>tail. drop off buf = encode_log (records_from buf off) @ tail"
proof (induction buf off rule: records_from.induct)
  case (1 buf off)
  show ?case
  proof (cases "decode_at buf off")
    case None
    then show ?thesis by (simp add: records_from_None)
  next
    case (Some r)
    obtain s p where sp: "decode_at buf off = Some (s, p)" using Some by (cases r) auto
    obtain tail where "drop (off + 16 + length p) buf = encode_log (records_from buf (off + 16 + length p)) @ tail"
      using 1 sp by blast
    then have "drop off buf = EncodeRecord s p @ encode_log (records_from buf (off + 16 + length p)) @ tail"
      using decode_at_inverse[OF sp]
      by (metis (no_types, lifting) add.assoc add.commute append_take_drop_id drop_drop)
    with sp show ?thesis by (subst records_from.simps) auto
  qed
qed

lemma records_ok_file_size: "length (encode_log rs) \<le> length buf \<Longrightarrow> 16 * length rs \<le> length buf"
proof -
  have "16 * length rs \<le> length (encode_log rs)"
    by (induction rs) (auto simp: encode_log_def)
  then show "length (encode_log rs) \<le> length buf \<Longrightarrow> ?thesis" by simp
qed

section \<open>Properties of the codec\<close>

text \<open>
  C24: decoding an encoded record, at any position of a buffer, returns exactly the sequence
  number and payload that were encoded and the offset just past the record.
\<close>

theorem DecodeRecord_EncodeRecord:
  assumes "length payload \<le> unat kWalMaxPayloadBytes"
    and "length (pre @ EncodeRecord seq payload @ post) < 2 ^ 63"
  shows "DecodeRecord (pre @ EncodeRecord seq payload @ post) (word_of_nat (length pre)) =
    Decoded seq payload (word_of_nat (length (pre @ EncodeRecord seq payload)))"
  using DecodeRecord_at[OF assms(2), of "length pre"] assms(1)
  by (simp add: decode_at_encode unat_kWalMaxPayloadBytes add.commute add.left_commute)

theorem DecodeRecord_EncodeRecord_witness:
  "DecodeRecord ([7] @ EncodeRecord 5 [1, 2] @ [9]) (word_of_nat (length [7 :: byte])) =
    Decoded 5 [1, 2] (word_of_nat (length ([7] @ EncodeRecord 5 [1, 2])))"
  by (rule DecodeRecord_EncodeRecord) (simp_all add: unat_kWalMaxPayloadBytes max_payload_def)

text \<open>
  C15: whatever bytes the file holds, \<open>DecodeRecord\<close> at an offset inside the buffer never
  reads outside it; when it succeeds it moves strictly forward, stays inside the buffer, and
  the bytes it consumed are the encoding of what it returned.
\<close>

theorem DecodeRecord_safe:
  assumes "length buf < 2 ^ 63" "unat offset \<le> length buf"
  shows "DecodeRecord buf offset = DecodeFail \<or>
    (\<exists>seq payload next. DecodeRecord buf offset = Decoded seq payload next \<and>
       unat offset < unat next \<and> unat next \<le> length buf \<and>
       take (unat next - unat offset) (drop (unat offset) buf) = EncodeRecord seq payload)"
proof (cases "decode_at buf (unat offset)")
  case None
  then show ?thesis using DecodeRecord_at[OF assms] by simp
next
  case (Some r)
  obtain s p where sp: "decode_at buf (unat offset) = Some (s, p)" using Some by (cases r) auto
  let ?e = "unat offset + 16 + length p"
  have b: "?e \<le> length buf" by (rule decode_at_bounds[OF sp])
  then have "unat (word_of_nat ?e :: u64) = ?e"
    using assms(1) by (simp del: of_nat_add)
  then show ?thesis
    using DecodeRecord_at[OF assms] sp b decode_at_inverse[OF sp] by (auto simp del: of_nat_add)
qed

theorem DecodeRecord_safe_witness:
  "DecodeRecord [1, 2, 3] 1 = DecodeFail \<or>
    (\<exists>seq payload next. DecodeRecord [1, 2, 3] 1 = Decoded seq payload next \<and>
       unat (1 :: u64) < unat next \<and> unat next \<le> length [1, 2, 3 :: byte] \<and>
       take (unat next - unat (1 :: u64)) (drop (unat (1 :: u64)) [1, 2, 3]) = EncodeRecord seq payload)"
  by (rule DecodeRecord_safe) simp_all

text \<open>
  A record whose payload was damaged in at most four consecutive bytes is rejected,
  never returned with wrong contents.
\<close>

lemma DecodeRecord_rejects_burst:
  assumes "length xs = length ys" "length xs \<le> 4" "xs \<noteq> ys"
    and "length (p1 @ xs @ p2) \<le> unat kWalMaxPayloadBytes"
    and "record = EncodeRecord seq (p1 @ xs @ p2)"
    and "damaged = take (16 + length p1) record @ ys @ drop (16 + length p1 + length xs) record"
    and "length (pre @ damaged @ post) < 2 ^ 63"
  shows "DecodeRecord (pre @ damaged @ post) (word_of_nat (length pre)) = DecodeFail"
proof -
  let ?p = "p1 @ xs @ p2" and ?q = "p1 @ ys @ p2"
  let ?hdr = "le_split 8 seq @ le_split 4 (word_of_nat (length ?p) :: u32) @ le_split 4 (Crc32 ?p)"
  have dmg: "damaged = ?hdr @ ?q"
    using assms(1,5,6) by (simp add: EncodeRecord_def Let_def)
  have len: "unat (word_of_nat (length ?p) :: u32) = length ?q"
    using payload_len_word[of ?p] assms(1,4) by (simp add: unat_kWalMaxPayloadBytes)
  have "Crc32 ?q \<noteq> Crc32 ?p"
    using Crc32_burst[of ys xs p1 p2] assms(1-3) by auto
  then have "decode_at (pre @ damaged @ post) (length pre) = None"
    unfolding dmg using len by (simp add: decode_at_def Let_def)
  then show ?thesis
    using DecodeRecord_at[OF assms(7), of "length pre"] by simp
qed

lemma DecodeRecord_rejects_burst_example:
  "DecodeRecord ([] @ (take (16 + length [1 :: byte]) (EncodeRecord 9 ([1] @ [2] @ [3])) @ [4] @
     drop (16 + length [1 :: byte] + length [2 :: byte]) (EncodeRecord 9 ([1] @ [2] @ [3]))) @ [])
     (word_of_nat (length ([] :: byte list))) = DecodeFail"
  by (rule DecodeRecord_rejects_burst[where xs = "[2]" and ys = "[4]" and ?p1.0 = "[1]" and ?p2.0 = "[3]", OF _ _ _ _ refl refl])
    (simp_all add: unat_kWalMaxPayloadBytes max_payload_def)

end
