(* ===== verification/Wal.thy ===== *)
theory Wal
  imports WalCodec
begin

text \<open>
  The agent's write-ahead log, core/src/wal.cc, on an explicit file system.  Every
  system call consumes one answer of a script: \<open>SysOk n\<close> is success (with \<open>n\<close> the
  byte count the kernel chose for a read or write), \<open>SysErr\<close> is a failure other
  than a missing file, and an exhausted script means that the process is killed at
  that call.  A theorem about every script is therefore a theorem about every short
  write, every I/O error and every crash point.
\<close>

section \<open>System calls\<close>

type_synonym path = string
type_synonym fsys = "path \<rightharpoonup> byte list"

datatype sysres = SysOk nat | SysErr

type_synonym script = "sysres list"

datatype 'a result = Ret 'a | Throw | Killed | Undefined

type_synonym 'a io = "fsys \<times> script \<Rightarrow> 'a result \<times> fsys \<times> script"

definition io_bind :: "'a io \<Rightarrow> ('a \<Rightarrow> 'b io) \<Rightarrow> 'b io" where
  "io_bind m f st =
     (case m st of
        (Ret a, st') \<Rightarrow> f a st'
      | (Throw, st') \<Rightarrow> (Throw, st')
      | (Killed, st') \<Rightarrow> (Killed, st')
      | (Undefined, st') \<Rightarrow> (Undefined, st'))"

definition io_ret :: "'a \<Rightarrow> 'a io" where
  "io_ret a st = (Ret a, st)"

text \<open>A system call whose success has the effect \<open>f\<close> on the file system; \<open>None\<close> is a call that fails.\<close>

fun sys_call :: "(fsys \<Rightarrow> fsys option) \<Rightarrow> unit io" where
  "sys_call f (fs, []) = (Killed, fs, [])"
| "sys_call f (fs, SysErr # sc) = (Throw, fs, sc)"
| "sys_call f (fs, SysOk n # sc) = (case f fs of None \<Rightarrow> (Throw, fs, sc) | Some fs' \<Rightarrow> (Ret (), fs', sc))"

definition open_existing :: "path \<Rightarrow> unit io" where
  "open_existing p = sys_call (\<lambda>fs. if fs p = None then None else Some fs)"

definition open_create :: "path \<Rightarrow> unit io" where
  "open_create p = sys_call (\<lambda>fs. Some (if fs p = None then fs(p \<mapsto> []) else fs))"

definition open_trunc :: "path \<Rightarrow> unit io" where
  "open_trunc p = sys_call (\<lambda>fs. Some (fs(p \<mapsto> [])))"

definition sys_fsync :: "unit io" where
  "sys_fsync = sys_call Some"

definition sys_rename :: "path \<Rightarrow> path \<Rightarrow> unit io" where
  "sys_rename src dst = sys_call (\<lambda>fs. if fs src = None then None else Some (fs(dst := fs src, src := None)))"

text \<open>
  \<open>while (written < size) \{ n = write(...); if (n < 0) throw; written += n; \}\<close>;
  a kernel never writes more than it was given.
\<close>

fun write_loop :: "path \<Rightarrow> byte list \<Rightarrow> fsys \<Rightarrow> script \<Rightarrow> unit result \<times> fsys \<times> script" where
  "write_loop p [] fs sc = (Ret (), fs, sc)"
| "write_loop p rest fs [] = (Killed, fs, [])"
| "write_loop p rest fs (SysErr # sc) = (Throw, fs, sc)"
| "write_loop p rest fs (SysOk n # sc) =
     (let k = min n (length rest)
      in write_loop p (drop k rest) (fs(p \<mapsto> the (fs p) @ take k rest)) sc)"

text \<open>\<open>read\<close> returns 0 exactly at end of file, and at most 65536 bytes otherwise.\<close>

fun read_loop :: "byte list \<Rightarrow> byte list \<Rightarrow> fsys \<Rightarrow> script \<Rightarrow> byte list result \<times> fsys \<times> script" where
  "read_loop rest data fs [] = (Killed, fs, [])"
| "read_loop rest data fs (SysErr # sc) = (Throw, fs, sc)"
| "read_loop rest data fs (SysOk n # sc) =
     (if rest = [] then (Ret data, fs, sc)
      else (let k = min (max 1 n) 65536
            in read_loop (drop k rest) (data @ take k rest) fs sc))"

fun ReadWholeFile :: "path \<Rightarrow> byte list io" where
  "ReadWholeFile p (fs, []) = (Killed, fs, [])"
| "ReadWholeFile p (fs, SysErr # sc) = (Throw, fs, sc)"
| "ReadWholeFile p (fs, SysOk n # sc) =
     (case fs p of None \<Rightarrow> (Ret [], fs, sc) | Some content \<Rightarrow> read_loop content [] fs sc)"

definition AtomicWriteFile :: "path \<Rightarrow> byte list \<Rightarrow> unit io" where
  "AtomicWriteFile p contents =
     (let tmp = p @ ''.tmp'' in
      io_bind (open_trunc tmp) (\<lambda>_.
      io_bind (\<lambda>(fs, sc). write_loop tmp contents fs sc) (\<lambda>_.
      io_bind sys_fsync (\<lambda>_.
      sys_rename tmp p))))"

section \<open>The Wal class\<close>

record wal =
  wal_path :: path
  checkpoint_path :: path
  last_acked_seq :: u64

definition LoadCheckpoint :: "wal \<Rightarrow> wal io" where
  "LoadCheckpoint w =
     io_bind (ReadWholeFile (checkpoint_path w)) (\<lambda>data.
     io_ret (if length data = 8 then w\<lparr>last_acked_seq := le_join data\<rparr>
             else w\<lparr>last_acked_seq := 0\<rparr>))"

definition Wal :: "path \<Rightarrow> path \<Rightarrow> wal io" where
  "Wal wp cp =
     io_bind (open_create wp) (\<lambda>_.
     LoadCheckpoint \<lparr>wal_path = wp, checkpoint_path = cp, last_acked_seq = 0\<rparr>)"

definition Append :: "wal \<Rightarrow> u64 \<Rightarrow> byte list \<Rightarrow> unit io" where
  "Append w seq payload =
     (let record = EncodeRecord seq payload in
      io_bind (open_existing (wal_path w)) (\<lambda>_.
      io_bind (\<lambda>(fs, sc). write_loop (wal_path w) record fs sc) (\<lambda>_.
      sys_fsync)))"

definition Acknowledge :: "wal \<Rightarrow> u64 \<Rightarrow> wal io" where
  "Acknowledge w up_to_seq =
     (if up_to_seq \<le> last_acked_seq w then io_ret w
      else io_bind (AtomicWriteFile (checkpoint_path w) (le_split 8 up_to_seq)) (\<lambda>_.
           io_ret (w\<lparr>last_acked_seq := up_to_seq\<rparr>)))"

text \<open>
  The loop of \<open>ReplayUnacked\<close>: the calls of \<open>on_record\<close>, in order; \<open>None\<close> is an
  out-of-bounds read.
\<close>

function replay_loop :: "u64 \<Rightarrow> byte list \<Rightarrow> u64 \<Rightarrow> wal_records \<Rightarrow> wal_records option" where
  "replay_loop last_acked data offset replayed =
     (case DecodeRecord data offset of
        DecodeFault \<Rightarrow> None
      | DecodeFail \<Rightarrow> Some replayed
      | Decoded seq payload offset' \<Rightarrow>
          replay_loop last_acked data offset'
            (if seq > last_acked then replayed @ [(seq, payload)] else replayed))"
  by pat_completeness auto
termination
  by (relation "measure (\<lambda>(a, data, off, r). 2 ^ 64 - unat off)")
    (auto dest!: DecodeRecord_measure)

definition ReplayUnacked :: "wal \<Rightarrow> wal_records io" where
  "ReplayUnacked w =
     io_bind (ReadWholeFile (wal_path w)) (\<lambda>data st.
       case replay_loop (last_acked_seq w) data 0 [] of
         None \<Rightarrow> (Undefined, st) | Some rs \<Rightarrow> (Ret rs, st))"

function compact_loop :: "u64 \<Rightarrow> byte list \<Rightarrow> u64 \<Rightarrow> byte list \<Rightarrow> byte list option" where
  "compact_loop last_acked data offset kept =
     (case DecodeRecord data offset of
        DecodeFault \<Rightarrow> None
      | DecodeFail \<Rightarrow> Some kept
      | Decoded seq payload offset' \<Rightarrow>
          compact_loop last_acked data offset'
            (if seq > last_acked then kept @ EncodeRecord seq payload else kept))"
  by pat_completeness auto
termination
  by (relation "measure (\<lambda>(a, data, off, r). 2 ^ 64 - unat off)")
    (auto dest!: DecodeRecord_measure)

text \<open>\<open>Compact\<close> in its two phases, the read and the replacement of the file.\<close>

definition compact_read :: "wal \<Rightarrow> byte list io" where
  "compact_read w =
     io_bind (ReadWholeFile (wal_path w)) (\<lambda>data st.
       case compact_loop (last_acked_seq w) data 0 [] of
         None \<Rightarrow> (Undefined, st) | Some kept \<Rightarrow> (Ret kept, st))"

definition Compact :: "wal \<Rightarrow> unit io" where
  "Compact w = io_bind (compact_read w) (AtomicWriteFile (wal_path w))"

definition FileSizeBytes :: "wal \<Rightarrow> nat io" where
  "FileSizeBytes w = io_bind (ReadWholeFile (wal_path w)) (\<lambda>data. io_ret (length data))"

declare replay_loop.simps [simp del] compact_loop.simps [simp del]

section \<open>Equations of the operations\<close>

lemma io_bind_ret [wal_simps]: "io_bind (io_ret a) f = f a"
  by (simp add: fun_eq_iff io_bind_def io_ret_def)

lemma io_bind_Ret:
  "io_bind m f st = (Ret b, st'') \<longleftrightarrow> (\<exists>a st'. m st = (Ret a, st') \<and> f a st' = (Ret b, st''))"
  by (auto simp: io_bind_def split: prod.splits result.splits)

text \<open>What a computation leaves behind, however it ends.\<close>

definition io_post :: "'a io \<Rightarrow> fsys \<times> script \<Rightarrow> ('a result \<Rightarrow> fsys \<Rightarrow> bool) \<Rightarrow> bool" where
  "io_post m st Q = (case m st of (r, fs, sc) \<Rightarrow> Q r fs)"

lemma io_postI: "(\<And>r fs sc. m st = (r, fs, sc) \<Longrightarrow> Q r fs) \<Longrightarrow> io_post m st Q"
  by (auto simp: io_post_def)

lemma io_postD: "io_post m st Q \<Longrightarrow> m st = (r, fs, sc) \<Longrightarrow> Q r fs"
  by (simp add: io_post_def)

lemma io_post_weaken: "io_post m st Q \<Longrightarrow> (\<And>r fs. Q r fs \<Longrightarrow> Q' r fs) \<Longrightarrow> io_post m st Q'"
  by (auto simp: io_post_def)

lemma io_post_bind:
  assumes "io_post m (fs, sc) (\<lambda>r fs'. case r of Ret a \<Rightarrow> (\<forall>sc'. io_post (f a) (fs', sc') Q)
      | Throw \<Rightarrow> Q Throw fs' | Killed \<Rightarrow> Q Killed fs' | Undefined \<Rightarrow> Q Undefined fs')"
  shows "io_post (io_bind m f) (fs, sc) Q"
  using assms by (auto simp: io_post_def io_bind_def split: prod.splits result.splits)

lemma io_post_ret: "io_post (io_ret a) (fs, sc) Q \<longleftrightarrow> Q (Ret a) fs"
  by (simp add: io_post_def io_ret_def)

lemma io_post_sys_call:
  assumes "Q Killed fs" "Q Throw fs" "\<And>fs'. f fs = Some fs' \<Longrightarrow> Q (Ret ()) fs'"
  shows "io_post (sys_call f) (fs, sc) Q"
  using assms by (cases "(f, fs, sc)" rule: sys_call.cases) (auto simp: io_post_def split: option.splits)

lemma write_loop_post:
  assumes "fs p = Some old"
  shows "io_post (\<lambda>(fs, sc). write_loop p rest fs sc) (fs, sc)
    (\<lambda>r fs'. \<exists>k \<le> length rest. fs' = fs(p \<mapsto> old @ take k rest) \<and>
       (r = Ret () \<and> k = length rest \<or> (r = Throw \<or> r = Killed) \<and> k < length rest))"
  using assms
proof (induction p rest fs sc arbitrary: old rule: write_loop.induct)
  case (1 p fs sc)
  then show ?case by (auto simp: io_post_def fun_upd_idem)
next
  case (2 p v va fs)
  then show ?case by (auto simp: io_post_def fun_upd_idem intro!: exI[of _ 0])
next
  case (3 p v va fs sc)
  then show ?case by (auto simp: io_post_def fun_upd_idem intro!: exI[of _ 0])
next
  case (4 p v va fs n sc)
  let ?rest = "v # va"
  define k where "k = min n (length ?rest)"
  define fs1 where "fs1 = fs(p \<mapsto> old @ take k ?rest)"
  have "io_post (\<lambda>(fs, sc). write_loop p (drop k ?rest) fs sc) (fs1, sc)
    (\<lambda>r fs'. \<exists>j \<le> length (drop k ?rest). fs' = fs1(p \<mapsto> (old @ take k ?rest) @ take j (drop k ?rest)) \<and>
       (r = Ret () \<and> j = length (drop k ?rest) \<or> (r = Throw \<or> r = Killed) \<and> j < length (drop k ?rest)))"
  proof -
    have fs1: "fs1 = fs(p \<mapsto> the (fs p) @ take k ?rest)" "fs1 p = Some (old @ take k ?rest)"
      using "4.prems" by (simp_all add: fs1_def)
    show ?thesis
      using "4.IH"[OF k_def, folded fs1(1), OF fs1(2)] .
  qed
  then obtain r fs' sc' j where w: "write_loop p (drop k ?rest) fs1 sc = (r, fs', sc')"
    and j: "j \<le> length (drop k ?rest)" "fs' = fs1(p \<mapsto> (old @ take k ?rest) @ take j (drop k ?rest))"
      "r = Ret () \<and> j = length (drop k ?rest) \<or> (r = Throw \<or> r = Killed) \<and> j < length (drop k ?rest)"
    by (auto simp: io_post_def split: prod.splits)
  have fs': "fs' = fs(p \<mapsto> old @ take (k + j) ?rest)"
    unfolding j(2) fs1_def take_add by simp
  have "write_loop p ?rest fs (SysOk n # sc) = (r, fs', sc')"
    using w 4(2) by (simp add: k_def fs1_def Let_def)
  moreover have "k \<le> length ?rest" by (simp add: k_def)
  ultimately show ?case
    using j fs' unfolding io_post_def by (auto intro!: exI[of _ "k + j"])
qed

text \<open>Replacing a file through a temporary: at every crash point the target is old or new.\<close>

lemma AtomicWriteFile_post:
  assumes "p @ ''.tmp'' \<noteq> p"
  shows "io_post (AtomicWriteFile p contents) (fs, sc)
    (\<lambda>r fs'. (\<forall>q. q \<noteq> p \<longrightarrow> q \<noteq> p @ ''.tmp'' \<longrightarrow> fs' q = fs q) \<and>
       (r = Ret () \<and> fs' p = Some contents \<or> (r = Throw \<or> r = Killed) \<and> fs' p = fs p))"
proof -
  let ?tmp = "p @ ''.tmp''"
  show ?thesis
    unfolding AtomicWriteFile_def Let_def open_trunc_def sys_fsync_def sys_rename_def
    apply (rule io_post_bind, rule io_post_sys_call)
      apply simp_all
    apply (rule allI, rule io_post_bind, rule io_post_weaken[OF write_loop_post[where old = "[]"]])
     apply simp
    apply (elim exE conjE disjE)
      apply simp_all
    apply (rule allI, rule io_post_bind, rule io_post_sys_call)
      apply simp_all
    apply (rule allI, rule io_post_sys_call)
      apply (use assms in \<open>auto split: if_splits\<close>)
    done
qed

lemma io_post_AtomicWriteFile:
  assumes "p @ ''.tmp'' \<noteq> p"
    and "\<And>fs'. (\<And>q. q \<noteq> p \<Longrightarrow> q \<noteq> p @ ''.tmp'' \<Longrightarrow> fs' q = fs q) \<Longrightarrow> fs' p = Some contents \<Longrightarrow> Q (Ret ()) fs'"
    and "\<And>fs'. (\<And>q. q \<noteq> p @ ''.tmp'' \<Longrightarrow> fs' q = fs q) \<Longrightarrow> Q Throw fs' \<and> Q Killed fs'"
  shows "io_post (AtomicWriteFile p contents) (fs, sc) Q"
proof (rule io_post_weaken[OF AtomicWriteFile_post[OF assms(1)]])
  fix r fs'
  assume *: "(\<forall>q. q \<noteq> p \<longrightarrow> q \<noteq> p @ ''.tmp'' \<longrightarrow> fs' q = fs q) \<and>
       (r = Ret () \<and> fs' p = Some contents \<or> (r = Throw \<or> r = Killed) \<and> fs' p = fs p)"
  show "Q r fs'"
  proof (cases "r = Ret ()")
    case True
    with * assms(2) show ?thesis by simp
  next
    case False
    with * have "fs' q = fs q" if "q \<noteq> p @ ''.tmp''" for q
      using that by (cases "q = p") simp_all
    with assms(3) False * show ?thesis by blast
  qed
qed

lemma read_loop_post:
  "io_post (\<lambda>(fs, sc). read_loop rest data fs sc) (fs, sc)
    (\<lambda>r fs'. fs' = fs \<and> (r = Ret (data @ rest) \<or> r = Throw \<or> r = Killed))"
proof (induction rest data fs sc rule: read_loop.induct)
  case (3 rest data fs n sc)
  then show ?case
    by (cases "rest = []") (auto simp: io_post_def Let_def split: prod.splits)
qed (auto simp: io_post_def)

lemma ReadWholeFile_post:
  "io_post (ReadWholeFile p) (fs, sc)
    (\<lambda>r fs'. fs' = fs \<and> (r = Ret (case fs p of None \<Rightarrow> [] | Some d \<Rightarrow> d) \<or> r = Throw \<or> r = Killed))"
proof (cases "(p, fs, sc)" rule: ReadWholeFile.cases)
  case (3 p' fs' n sc')
  then show ?thesis
    using read_loop_post[of "the (fs p)" "[]" fs sc']
    by (auto simp: io_post_def split: option.splits)
qed (auto simp: io_post_def)

lemma read_loop_returns:
  "length rest < length sc \<Longrightarrow> SysErr \<notin> set sc \<Longrightarrow>
   \<exists>sc'. read_loop rest data fs sc = (Ret (data @ rest), fs, sc') \<and>
     length sc \<le> length sc' + length rest + 1 \<and> SysErr \<notin> set sc'"
proof (induction rest data fs sc rule: read_loop.induct)
  case (3 rest data fs n sc)
  show ?case
  proof (cases "rest = []")
    case False
    let ?k = "min (max 1 n) 65536 :: nat"
    have k: "1 \<le> ?k" by simp
    then have "length (drop ?k rest) < length sc"
      using 3 False by (cases rest) auto
    then obtain sc' where "read_loop (drop ?k rest) (data @ take ?k rest) fs sc
        = (Ret ((data @ take ?k rest) @ drop ?k rest), fs, sc')"
      "length sc \<le> length sc' + length (drop ?k rest) + 1" "SysErr \<notin> set sc'"
      using 3 False by auto
    then show ?thesis using False k by (cases rest) (auto simp: Let_def)
  qed (use 3 in auto)
qed auto

lemma ReadWholeFile_returns:
  assumes "length (case fs p of None \<Rightarrow> [] | Some d \<Rightarrow> d) + 1 < length sc" "SysErr \<notin> set sc"
  shows "\<exists>sc'. ReadWholeFile p (fs, sc) = (Ret (case fs p of None \<Rightarrow> [] | Some d \<Rightarrow> d), fs, sc') \<and>
    length sc \<le> length sc' + length (case fs p of None \<Rightarrow> [] | Some d \<Rightarrow> d) + 2 \<and> SysErr \<notin> set sc'"
proof (cases sc)
  case Nil
  then show ?thesis using assms by simp
next
  case (Cons a sc1)
  then obtain n where "a = SysOk n" using assms by (cases a) auto
  then show ?thesis
    using assms Cons read_loop_returns[of "the (fs p)" sc1 "[]" fs]
    by (auto split: option.splits)
qed

section \<open>What is durable\<close>

text \<open>
  The abstract log: the last acknowledged sequence number and the records above it,
  in append order.  \<open>disk_log\<close> reads it off the files, which is all that survives a
  crash.
\<close>

type_synonym log_spec = "u64 \<times> wal_records"

definition unacked :: "u64 \<Rightarrow> wal_records \<Rightarrow> wal_records" where
  "unacked a rs = filter (\<lambda>(s, p). s > a) rs"

definition ckpt_value :: "byte list option \<Rightarrow> u64" where
  "ckpt_value c = (case c of None \<Rightarrow> 0 | Some d \<Rightarrow> if length d = 8 then le_join d else 0)"

definition file_bytes :: "fsys \<Rightarrow> path \<Rightarrow> byte list" where
  "file_bytes fs p = (case fs p of None \<Rightarrow> [] | Some d \<Rightarrow> d)"

definition disk_log :: "wal \<Rightarrow> fsys \<Rightarrow> log_spec" where
  "disk_log w fs =
     (let a = ckpt_value (fs (checkpoint_path w))
      in (a, unacked a (log_records (file_bytes fs (wal_path w)))))"

definition wal_paths_ok :: "wal \<Rightarrow> bool" where
  "wal_paths_ok w =
     distinct [wal_path w, wal_path w @ ''.tmp'', checkpoint_path w, checkpoint_path w @ ''.tmp'']"

text \<open>A log without a torn tail, and an object that agrees with the checkpoint on disk.\<close>

definition wal_clean :: "wal \<Rightarrow> fsys \<Rightarrow> bool" where
  "wal_clean w fs \<longleftrightarrow>
     wal_paths_ok w \<and> fs (wal_path w) = Some (encode_log (log_records (file_bytes fs (wal_path w)))) \<and>
     last_acked_seq w = ckpt_value (fs (checkpoint_path w))"

datatype wal_op = OpAppend u64 "byte list" | OpAck u64 | OpCompact

fun run_op :: "wal_op \<Rightarrow> wal \<Rightarrow> wal io" where
  "run_op (OpAppend seq p) w = io_bind (Append w seq p) (\<lambda>_. io_ret w)"
| "run_op (OpAck u) w = Acknowledge w u"
| "run_op OpCompact w = io_bind (Compact w) (\<lambda>_. io_ret w)"

fun spec_op :: "wal_op \<Rightarrow> log_spec \<Rightarrow> log_spec" where
  "spec_op (OpAppend seq p) (a, rs) = (a, rs @ unacked a [(seq, p)])"
| "spec_op (OpAck u) (a, rs) = (if u \<le> a then (a, rs) else (u, unacked u rs))"
| "spec_op OpCompact (a, rs) = (a, rs)"

fun op_bytes :: "wal_op \<Rightarrow> nat" where
  "op_bytes (OpAppend seq p) = 16 + length p"
| "op_bytes (OpAck u) = 0"
| "op_bytes OpCompact = 0"

fun op_fits :: "wal_op \<Rightarrow> bool" where
  "op_fits (OpAppend seq p) = (length p \<le> max_payload)"
| "op_fits (OpAck u) = True"
| "op_fits OpCompact = True"

lemma unacked_simps [simp]:
  "unacked a [] = []"
  "unacked a (rs @ rs') = unacked a rs @ unacked a rs'"
  "unacked a (unacked b rs) = unacked (max a b) rs"
  by (auto simp: unacked_def max_def intro!: filter_cong)

lemma unacked_Cons: "unacked a ((s, p) # rs) = (if s > a then (s, p) # unacked a rs else unacked a rs)"
  by (simp add: unacked_def)

lemma records_ok_unacked: "records_ok rs \<Longrightarrow> records_ok (unacked a rs)"
  by (auto simp: unacked_def intro: records_ok_filter)

lemma encode_log_unacked_length: "length (encode_log (unacked a rs)) \<le> length (encode_log rs)"
  by (induction rs) (auto simp: unacked_def encode_log_def)

lemma ckpt_value_le_split [simp]: "ckpt_value (Some (le_split 8 u)) = u"
  by (simp add: ckpt_value_def)

lemma replay_loop_eq:
  assumes "length data < 2 ^ 63" "off \<le> length data"
  shows "replay_loop a data (word_of_nat off) acc = Some (acc @ unacked a (records_from data off))"
  using assms
proof (induction data off arbitrary: acc rule: records_from.induct)
  case (1 data off)
  show ?case
  proof (cases "decode_at data off")
    case None
    then show ?thesis
      using 1 by (simp add: replay_loop.simps[of _ _ "word_of_nat off"] DecodeRecord_at records_from_None)
  next
    case (Some r)
    obtain s p where sp: "decode_at data off = Some (s, p)" using Some by (cases r) auto
    then have "off + 16 + length p \<le> length data" by (rule decode_at_bounds)
    then show ?thesis
      using 1 sp by (simp add: replay_loop.simps[of _ _ "word_of_nat off"] DecodeRecord_at
          records_from.simps[of data off] unacked_Cons del: of_nat_add)
  qed
qed

lemma compact_loop_eq:
  assumes "length data < 2 ^ 63" "off \<le> length data"
  shows "compact_loop a data (word_of_nat off) acc = Some (acc @ encode_log (unacked a (records_from data off)))"
  using assms
proof (induction data off arbitrary: acc rule: records_from.induct)
  case (1 data off)
  show ?case
  proof (cases "decode_at data off")
    case None
    then show ?thesis
      using 1 by (simp add: compact_loop.simps[of _ _ "word_of_nat off"] DecodeRecord_at records_from_None)
  next
    case (Some r)
    obtain s p where sp: "decode_at data off = Some (s, p)" using Some by (cases r) auto
    then have "off + 16 + length p \<le> length data" by (rule decode_at_bounds)
    then show ?thesis
      using 1 sp by (simp add: compact_loop.simps[of _ _ "word_of_nat off"] DecodeRecord_at
          records_from.simps[of data off] unacked_Cons del: of_nat_add)
  qed
qed

section \<open>Crash atomicity of each operation\<close>

lemma wal_cleanD:
  assumes "wal_clean w fs"
  shows "wal_paths_ok w" "last_acked_seq w = ckpt_value (fs (checkpoint_path w))"
    "\<exists>rs. records_ok rs \<and> fs (wal_path w) = Some (encode_log rs) \<and> log_records (encode_log rs) = rs"
  using assms records_from_ok[of "file_bytes fs (wal_path w)" 0]
  by (auto simp: wal_clean_def log_records_encode)

lemma wal_cleanI:
  assumes "wal_paths_ok w" "last_acked_seq w = ckpt_value (fs (checkpoint_path w))"
    "fs (wal_path w) = Some (encode_log rs)" "records_ok rs"
  shows "wal_clean w fs"
  using assms by (simp add: wal_clean_def file_bytes_def log_records_encode)

lemma disk_log_eq:
  "fs (wal_path w) = Some d \<Longrightarrow>
   disk_log w fs = (ckpt_value (fs (checkpoint_path w)), unacked (ckpt_value (fs (checkpoint_path w))) (log_records d))"
  by (simp add: disk_log_def Let_def file_bytes_def)

text \<open>
  The outcome of an operation on a clean log: it returns and did what the abstract log
  says, or it dies and the disk is as before or as after.
\<close>

definition op_outcome :: "wal_op \<Rightarrow> wal \<Rightarrow> fsys \<Rightarrow> wal result \<Rightarrow> fsys \<Rightarrow> bool" where
  "op_outcome op w fs r fs' \<longleftrightarrow>
     (case r of
        Ret w' \<Rightarrow> wal_clean w' fs' \<and> wal_path w' = wal_path w \<and> checkpoint_path w' = checkpoint_path w \<and>
          disk_log w' fs' = spec_op op (disk_log w fs) \<and>
          length (file_bytes fs' (wal_path w)) \<le> length (file_bytes fs (wal_path w)) + op_bytes op
      | Undefined \<Rightarrow> False
      | _ \<Rightarrow> disk_log w fs' = disk_log w fs \<or> disk_log w fs' = spec_op op (disk_log w fs))"

lemma op_outcome_dead:
  "disk_log w fs' = disk_log w fs \<Longrightarrow> op_outcome op w fs Throw fs' \<and> op_outcome op w fs Killed fs'"
  by (simp add: op_outcome_def)

lemma wal_clean_append:
  fixes seq :: u64
  assumes "wal_paths_ok w" "last_acked_seq w = ckpt_value (fs (checkpoint_path w))"
    "fs (wal_path w) = Some (encode_log rs)" "records_ok rs" "length p \<le> max_payload"
  defines "fs' \<equiv> fs(wal_path w \<mapsto> encode_log rs @ EncodeRecord seq p)"
  shows "wal_clean w fs'" "disk_log w fs' = spec_op (OpAppend seq p) (disk_log w fs)"
proof -
  have ne: "wal_path w \<noteq> checkpoint_path w" using assms(1) by (simp add: wal_paths_ok_def)
  have ok: "records_ok (rs @ [(seq, p)])" using assms by simp
  have f: "fs' (wal_path w) = Some (encode_log (rs @ [(seq, p)]))" by (simp add: fs'_def)
  have c: "fs' (checkpoint_path w) = fs (checkpoint_path w)" using ne by (simp add: fs'_def)
  show "wal_clean w fs'"
    using assms(1,2) ok c f by (intro wal_cleanI[where rs = "rs @ [(seq, p)]"]) simp_all
  show "disk_log w fs' = spec_op (OpAppend seq p) (disk_log w fs)"
    using log_records_encode[OF ok] log_records_encode[OF assms(4)]
    unfolding disk_log_eq[where fs = fs', OF f] disk_log_eq[where fs = fs, OF assms(3)] c by simp
qed

lemma Append_outcome:
  assumes clean: "wal_clean w fs" and fits: "length p \<le> max_payload"
  shows "io_post (run_op (OpAppend seq p) w) (fs, sc) (op_outcome (OpAppend seq p) w fs)"
proof -
  obtain rs where rs: "records_ok rs" "fs (wal_path w) = Some (encode_log rs)"
    using wal_cleanD(3)[OF clean] by blast
  let ?fsk = "\<lambda>k. fs(wal_path w \<mapsto> encode_log rs @ take k (EncodeRecord seq p))"
  have ne: "wal_path w \<noteq> checkpoint_path w" using wal_cleanD(1)[OF clean] by (simp add: wal_paths_ok_def)
  note whole = wal_clean_append[OF wal_cleanD(1,2)[OF clean] rs(2,1) fits, of seq]
  have full: "op_outcome (OpAppend seq p) w fs r (?fsk (16 + length p))" if "r = Ret w \<or> r = Throw \<or> r = Killed" for r
    using that whole rs by (auto simp: op_outcome_def file_bytes_def)
  have torn: "op_outcome (OpAppend seq p) w fs r (?fsk k)"
    if "k < 16 + length p" "r = Throw \<or> r = Killed" for r k
    using that ne rs(2) log_records_torn[OF rs(1) that(1) fits] log_records_encode[OF rs(1)]
    by (auto simp: op_outcome_def disk_log_def file_bytes_def Let_def)
  have wr: "io_post (\<lambda>(fs, sc). write_loop (wal_path w) (EncodeRecord seq p) fs sc) (fs, sc')
      (\<lambda>r fs'. case r of Ret _ \<Rightarrow> fs' = ?fsk (16 + length p)
         | Undefined \<Rightarrow> False | _ \<Rightarrow> \<exists>k < 16 + length p. fs' = ?fsk k)" for sc'
    by (rule io_post_weaken[OF write_loop_post[where fs = fs, OF rs(2)]]) auto
  have sync: "io_post (io_bind sys_fsync (\<lambda>_. io_ret w)) (?fsk (16 + length p), sc')
      (op_outcome (OpAppend seq p) w fs)" for sc'
    unfolding sys_fsync_def
    by (rule io_post_bind, rule io_post_sys_call) (use full in \<open>auto simp: io_post_ret\<close>)
  have assoc: "run_op (OpAppend seq p) w =
      io_bind (open_existing (wal_path w)) (\<lambda>_.
      io_bind (\<lambda>(fs, sc). write_loop (wal_path w) (EncodeRecord seq p) fs sc) (\<lambda>_.
      io_bind sys_fsync (\<lambda>_. io_ret w)))"
    by (auto simp: fun_eq_iff Append_def io_bind_def split: prod.splits result.splits)
  have rest: "io_post (io_bind (\<lambda>(fs, sc). write_loop (wal_path w) (EncodeRecord seq p) fs sc)
          (\<lambda>_. io_bind sys_fsync (\<lambda>_. io_ret w))) (fs, sc') (op_outcome (OpAppend seq p) w fs)" for sc'
    by (rule io_post_bind, rule io_post_weaken[OF wr])
      (use sync torn in \<open>auto split: result.splits\<close>)
  show ?thesis
    unfolding assoc open_existing_def
  proof (rule io_post_bind, rule io_post_sys_call)
    fix fs' assume "(if fs (wal_path w) = None then None else Some fs) = Some fs'"
    then have "fs' = fs" using rs by simp
    then show "case Ret () of Ret a \<Rightarrow> \<forall>sc'. io_post
        (io_bind (\<lambda>(fs, sc). write_loop (wal_path w) (EncodeRecord seq p) fs sc)
          (\<lambda>_. io_bind sys_fsync (\<lambda>_. io_ret w))) (fs', sc') (op_outcome (OpAppend seq p) w fs)
      | Throw \<Rightarrow> op_outcome (OpAppend seq p) w fs Throw fs'
      | Killed \<Rightarrow> op_outcome (OpAppend seq p) w fs Killed fs'
      | Undefined \<Rightarrow> op_outcome (OpAppend seq p) w fs Undefined fs'"
      using rest by simp
  qed (use torn[of 0] rs in \<open>simp_all add: fun_upd_idem\<close>)
qed

lemma Acknowledge_outcome:
  assumes clean: "wal_clean w fs"
  shows "io_post (run_op (OpAck u) w) (fs, sc) (op_outcome (OpAck u) w fs)"
proof (cases "u \<le> last_acked_seq w")
  case True
  then show ?thesis
    using clean by (auto simp: Acknowledge_def io_post_ret op_outcome_def disk_log_def Let_def wal_clean_def)
next
  case False
  let ?w = "w\<lparr>last_acked_seq := u\<rparr>"
  obtain rs where rs: "records_ok rs" "fs (wal_path w) = Some (encode_log rs)"
    using wal_cleanD(3)[OF clean] by blast
  have d: "wal_path w \<noteq> checkpoint_path w" "wal_path w \<noteq> checkpoint_path w @ ''.tmp''"
    "checkpoint_path w @ ''.tmp'' \<noteq> checkpoint_path w"
    using wal_cleanD(1)[OF clean] by (auto simp: wal_paths_ok_def)
  have new: "op_outcome (OpAck u) w fs (Ret ?w) fs'"
    if "fs' (wal_path w) = fs (wal_path w)" "fs' (checkpoint_path w) = Some (le_split 8 u)" for fs'
  proof -
    have "u > ckpt_value (fs (checkpoint_path w))" using False wal_cleanD(2)[OF clean] by simp
    moreover have "wal_clean ?w fs'"
      using wal_cleanD(1)[OF clean] that rs by (intro wal_cleanI[where rs = rs]) (auto simp: wal_paths_ok_def)
    ultimately show ?thesis
      using that by (auto simp: op_outcome_def disk_log_def file_bytes_def Let_def max_def)
  qed
  have old: "disk_log w fs' = disk_log w fs"
    if "fs' (wal_path w) = fs (wal_path w)" "fs' (checkpoint_path w) = fs (checkpoint_path w)" for fs'
    using that by (simp add: disk_log_def file_bytes_def)
  have "run_op (OpAck u) w =
      io_bind (AtomicWriteFile (checkpoint_path w) (le_split 8 u)) (\<lambda>_. io_ret ?w)"
    using False by (simp add: Acknowledge_def)
  moreover have "io_post (io_bind (AtomicWriteFile (checkpoint_path w) (le_split 8 u)) (\<lambda>_. io_ret ?w))
      (fs, sc) (op_outcome (OpAck u) w fs)"
    by (rule io_post_bind, rule io_post_AtomicWriteFile[OF d(3)])
      (simp_all add: io_post_ret new d d(1)[symmetric] op_outcome_dead[OF old])
  ultimately show ?thesis by simp
qed

lemma compact_read_post:
  assumes "length (file_bytes fs (wal_path w)) < 2 ^ 63"
  shows "io_post (compact_read w) (fs, sc)
    (\<lambda>r fs'. fs' = fs \<and>
      (r = Ret (encode_log (unacked (last_acked_seq w) (log_records (file_bytes fs (wal_path w))))) \<or>
       r = Throw \<or> r = Killed))"
  unfolding compact_read_def
  by (rule io_post_bind, rule io_post_weaken[OF ReadWholeFile_post])
    (use compact_loop_eq[OF assms, of 0] in \<open>auto simp: io_post_def file_bytes_def\<close>)

lemma Compact_outcome:
  assumes clean: "wal_clean w fs" and size: "length (file_bytes fs (wal_path w)) < 2 ^ 63"
  shows "io_post (run_op OpCompact w) (fs, sc) (op_outcome OpCompact w fs)"
proof -
  let ?a = "last_acked_seq w"
  let ?rs = "log_records (file_bytes fs (wal_path w))"
  let ?kept = "encode_log (unacked ?a ?rs)"
  have d: "wal_path w \<noteq> checkpoint_path w" "checkpoint_path w \<noteq> wal_path w @ ''.tmp''"
    "wal_path w @ ''.tmp'' \<noteq> wal_path w"
    using wal_cleanD(1)[OF clean] by (auto simp: wal_paths_ok_def)
  have ok: "records_ok (unacked ?a ?rs)"
    by (intro records_ok_unacked records_from_ok)
  have a: "?a = ckpt_value (fs (checkpoint_path w))" by (rule wal_cleanD(2)[OF clean])
  have fb: "file_bytes fs (wal_path w) = encode_log ?rs"
    using wal_cleanD(3)[OF clean] by (auto simp: file_bytes_def)
  have new: "op_outcome OpCompact w fs (Ret w) fs'"
    if "fs' (wal_path w) = Some ?kept" "fs' (checkpoint_path w) = fs (checkpoint_path w)" for fs'
  proof -
    have "wal_clean w fs'"
      using wal_cleanD(1)[OF clean] that a ok by (intro wal_cleanI[where rs = "unacked ?a ?rs"]) auto
    moreover have "length ?kept \<le> length (file_bytes fs (wal_path w))"
      by (subst (2) fb) (rule encode_log_unacked_length)
    ultimately show ?thesis
      using that a log_records_encode[OF ok] by (auto simp: op_outcome_def disk_log_def file_bytes_def Let_def)
  qed
  have old: "disk_log w fs' = disk_log w fs"
    if "fs' (wal_path w) = fs (wal_path w)" "fs' (checkpoint_path w) = fs (checkpoint_path w)" for fs'
    using that by (simp add: disk_log_def file_bytes_def)
  have replace: "io_post (io_bind (AtomicWriteFile (wal_path w) ?kept) (\<lambda>_. io_ret w)) (fs, sc')
      (op_outcome OpCompact w fs)" for sc'
    by (rule io_post_bind, rule io_post_AtomicWriteFile[OF d(3)])
      (simp_all add: io_post_ret new d d(1)[symmetric] op_outcome_dead[OF old])
  have "run_op OpCompact w =
      io_bind (compact_read w) (\<lambda>kept. io_bind (AtomicWriteFile (wal_path w) kept) (\<lambda>_. io_ret w))"
    by (auto simp: fun_eq_iff Compact_def io_bind_def split: prod.splits result.splits)
  moreover have "io_post (io_bind (compact_read w)
      (\<lambda>kept. io_bind (AtomicWriteFile (wal_path w) kept) (\<lambda>_. io_ret w))) (fs, sc) (op_outcome OpCompact w fs)"
    by (rule io_post_bind, rule io_post_weaken[OF compact_read_post[OF size]])
      (use replace in \<open>auto simp: op_outcome_dead[OF refl] split: result.splits\<close>)
  ultimately show ?thesis by simp
qed

lemma run_op_outcome:
  assumes "wal_clean w fs" "op_fits op" "length (file_bytes fs (wal_path w)) < 2 ^ 63"
  shows "io_post (run_op op w) (fs, sc) (op_outcome op w fs)"
  using assms by (cases op) (auto intro: Append_outcome Acknowledge_outcome Compact_outcome simp del: run_op.simps)

section \<open>Crash atomicity of sequences of operations\<close>

text \<open>
  \<open>run_seq exec ops st d\<close> executes operations until one dies (\<^const>\<open>None\<close>) and counts those
  that returned.
\<close>

fun run_seq :: "('op \<Rightarrow> 'st \<Rightarrow> 'd \<Rightarrow> 'st option \<times> 'd) \<Rightarrow> 'op list \<Rightarrow> 'st \<Rightarrow> 'd \<Rightarrow> nat \<times> 'st option \<times> 'd" where
  "run_seq exec [] st d = (0, Some st, d)"
| "run_seq exec (op # ops) st d =
     (case exec op st d of
        (None, d') \<Rightarrow> (0, None, d')
      | (Some st', d') \<Rightarrow> (case run_seq exec ops st' d' of (n, r) \<Rightarrow> (Suc n, r)))"

text \<open>Every operation of a sequence is admissible at the value it finds.\<close>

primrec seq_fits :: "('op \<Rightarrow> 'v \<Rightarrow> 'v) \<Rightarrow> ('op \<Rightarrow> 'v \<Rightarrow> bool) \<Rightarrow> 'op list \<Rightarrow> 'v \<Rightarrow> bool" where
  "seq_fits spec fits [] v = True"
| "seq_fits spec fits (op # ops) v = (fits op v \<and> seq_fits spec fits ops (spec op v))"

lemma seq_fits_list_all: "seq_fits spec (\<lambda>op v. f op) ops v = list_all f ops"
  by (induction ops arbitrary: v) auto

lemma seq_fits_take: "seq_fits spec fits ops v \<Longrightarrow> seq_fits spec fits (take m ops) v"
  by (induction ops arbitrary: v m) (auto simp: take_Cons split: nat.split)

text \<open>
  The contract of a store whose operations are atomic with respect to crashes: \<open>good n\<close>
  says that the state is sound and has room for \<open>n\<close> more bytes, \<open>fits\<close> that an operation is
  admissible at the durable value.
\<close>

locale crash_atomic =
  fixes exec :: "'op \<Rightarrow> 'st \<Rightarrow> 'd \<Rightarrow> 'st option \<times> 'd"
    and good :: "nat \<Rightarrow> 'st \<Rightarrow> 'd \<Rightarrow> bool"
    and durable :: "'st \<Rightarrow> 'd \<Rightarrow> 'v"
    and spec :: "'op \<Rightarrow> 'v \<Rightarrow> 'v"
    and fits :: "'op \<Rightarrow> 'v \<Rightarrow> bool"
    and cost :: "'op \<Rightarrow> nat"
  assumes exec_returns:
    "good (cost op + n) st d \<Longrightarrow> fits op (durable st d) \<Longrightarrow> exec op st d = (Some st', d') \<Longrightarrow>
       good n st' d' \<and> durable st' d' = spec op (durable st d) \<and> (\<forall>d. durable st' d = durable st d)"
    and exec_dies:
    "good (cost op + n) st d \<Longrightarrow> fits op (durable st d) \<Longrightarrow> exec op st d = (None, d') \<Longrightarrow>
       durable st d' = durable st d \<or> durable st d' = spec op (durable st d)"
begin

lemma run_seq_atomic:
  assumes "good (sum_list (map cost ops)) st d" "seq_fits spec fits ops (durable st d)"
    "run_seq exec ops st d = (n, r, d')"
  shows "(\<exists>st'. r = Some st') \<and> n = length ops \<and> durable st d' = fold spec ops (durable st d) \<or>
    r = None \<and> n < length ops \<and>
    (durable st d' = fold spec (take n ops) (durable st d) \<or>
     durable st d' = fold spec (take (Suc n) ops) (durable st d))"
  using assms
proof (induction ops arbitrary: st d n)
  case Nil
  then show ?case by auto
next
  case (Cons op ops)
  have g: "good (cost op + sum_list (map cost ops)) st d" and f: "fits op (durable st d)" using Cons.prems by simp_all
  show ?case
  proof (cases "exec op st d")
    case (Pair r1 d1)
    show ?thesis
    proof (cases r1)
      case None
      then show ?thesis using exec_dies[OF g f] Cons.prems Pair by auto
    next
      case (Some st1)
      obtain m where m: "n = Suc m" "run_seq exec ops st1 d1 = (m, r, d')"
        using Cons.prems(3) Pair Some by (auto split: prod.splits)
      have one: "good (sum_list (map cost ops)) st1 d1" "durable st1 d1 = spec op (durable st d)"
        "durable st1 d' = durable st d'"
        using exec_returns[OF g f] Pair Some by blast+
      from Cons.IH[OF one(1) _ m(2)] Cons.prems(2) show ?thesis
        using one m(1) by simp
    qed
  qed
qed

end

definition wal_exec :: "wal_op \<Rightarrow> wal \<Rightarrow> fsys \<times> script \<Rightarrow> wal option \<times> fsys \<times> script" where
  "wal_exec op w d = (case run_op op w d of (Ret w', d') \<Rightarrow> (Some w', d') | (_, d') \<Rightarrow> (None, d'))"

definition wal_good :: "nat \<Rightarrow> wal \<Rightarrow> fsys \<times> script \<Rightarrow> bool" where
  "wal_good n w d \<longleftrightarrow> wal_clean w (fst d) \<and> length (file_bytes (fst d) (wal_path w)) + n < 2 ^ 63"

definition wal_durable :: "wal \<Rightarrow> fsys \<times> script \<Rightarrow> log_spec" where
  "wal_durable w d = disk_log w (fst d)"

lemma disk_log_paths:
  "wal_path w' = wal_path w \<Longrightarrow> checkpoint_path w' = checkpoint_path w \<Longrightarrow> disk_log w' fs = disk_log w fs"
  by (simp add: disk_log_def)

interpretation walog: crash_atomic wal_exec wal_good wal_durable spec_op "\<lambda>op v. op_fits op" op_bytes
proof
  fix op n w d w' d'
  assume g: "wal_good (op_bytes op + n) w d" and f: "op_fits op" and e: "wal_exec op w d = (Some w', d')"
  obtain fs sc where d: "d = (fs, sc)" by (cases d)
  obtain fs' sc' where d': "d' = (fs', sc')" by (cases d')
  have r: "run_op op w (fs, sc) = (Ret w', fs', sc')"
    using e d d' by (auto simp: wal_exec_def split: prod.splits result.splits)
  have "op_outcome op w fs (Ret w') fs'"
    using g d f by (intro io_postD[OF run_op_outcome r]) (auto simp: wal_good_def)
  then show "wal_good n w' d' \<and> wal_durable w' d' = spec_op op (wal_durable w d) \<and>
      (\<forall>d. wal_durable w' d = wal_durable w d)"
    using g d d' by (auto simp: op_outcome_def wal_good_def wal_durable_def intro: disk_log_paths)
next
  fix op n w d d'
  assume g: "wal_good (op_bytes op + n) w d" and f: "op_fits op" and e: "wal_exec op w d = (None, d')"
  obtain fs sc where d: "d = (fs, sc)" by (cases d)
  obtain r fs' sc' where r: "run_op op w (fs, sc) = (r, fs', sc')" "d' = (fs', sc')" "\<forall>w'. r \<noteq> Ret w'"
    using e d by (auto simp: wal_exec_def split: prod.splits result.splits)
  have "op_outcome op w fs r fs'"
    using g d f by (intro io_postD[OF run_op_outcome r(1)]) (auto simp: wal_good_def)
  then show "wal_durable w d' = wal_durable w d \<or> wal_durable w d' = spec_op op (wal_durable w d)"
    using r d by (auto simp: op_outcome_def wal_durable_def split: result.splits)
qed

section \<open>Recovery\<close>

text \<open>What a starting agent does with the log: open it and replay.\<close>

definition wal_recover :: "path \<Rightarrow> path \<Rightarrow> (wal \<times> wal_records) io" where
  "wal_recover wp cp =
     io_bind (Wal wp cp) (\<lambda>w. io_bind (ReplayUnacked w) (\<lambda>rs. io_ret (w, rs)))"

lemma LoadCheckpoint_post:
  "io_post (LoadCheckpoint w) (fs, sc)
    (\<lambda>r fs'. fs' = fs \<and> (r = Ret (w\<lparr>last_acked_seq := ckpt_value (fs (checkpoint_path w))\<rparr>) \<or> r = Throw \<or> r = Killed))"
  unfolding LoadCheckpoint_def
  by (rule io_post_bind, rule io_post_weaken[OF ReadWholeFile_post])
    (auto simp: io_post_ret ckpt_value_def split: option.splits)

lemma ReplayUnacked_post:
  assumes "length (file_bytes fs (wal_path w)) < 2 ^ 63"
  shows "io_post (ReplayUnacked w) (fs, sc)
    (\<lambda>r fs'. fs' = fs \<and>
      (r = Ret (unacked (last_acked_seq w) (log_records (file_bytes fs (wal_path w)))) \<or> r = Throw \<or> r = Killed))"
  unfolding ReplayUnacked_def
  by (rule io_post_bind, rule io_post_weaken[OF ReadWholeFile_post])
    (use replay_loop_eq[OF assms, of 0] in \<open>auto simp: io_post_def file_bytes_def\<close>)

lemma wal_recover_post:
  assumes "wp \<noteq> cp" "length (file_bytes fs wp) < 2 ^ 63"
  shows "io_post (wal_recover wp cp) (fs, sc)
    (\<lambda>r fs'. case r of
        Ret (w, rs) \<Rightarrow> wal_path w = wp \<and> checkpoint_path w = cp \<and> (last_acked_seq w, rs) = disk_log w fs \<and>
          fs' = (if fs wp = None then fs(wp \<mapsto> []) else fs)
      | Undefined \<Rightarrow> False | _ \<Rightarrow> True)"
proof -
  let ?fs = "if fs wp = None then fs(wp \<mapsto> []) else fs"
  let ?w = "\<lparr>wal_path = wp, checkpoint_path = cp, last_acked_seq = ckpt_value (fs cp)\<rparr>"
  have same: "file_bytes ?fs wp = file_bytes fs wp" "?fs cp = fs cp"
    using assms(1) by (auto simp: file_bytes_def)
  have open_post: "io_post (open_create wp) (fs, sc)
      (\<lambda>r fs'. r = Ret () \<and> fs' = ?fs \<or> r = Throw \<or> r = Killed)"
    unfolding open_create_def by (rule io_post_sys_call) auto
  have wal_post: "io_post (Wal wp cp) (fs, sc)
      (\<lambda>r fs'. r = Ret ?w \<and> fs' = ?fs \<or> r = Throw \<or> r = Killed)"
    unfolding Wal_def
    by (rule io_post_bind, rule io_post_weaken[OF open_post])
      (use assms(1) in \<open>auto intro!: io_post_weaken[OF LoadCheckpoint_post] split: if_splits\<close>)
  have replay: "io_post (io_bind (ReplayUnacked ?w) (\<lambda>rs. io_ret (?w, rs))) (?fs, sc')
      (\<lambda>r fs'. r = Ret (?w, unacked (ckpt_value (fs cp)) (log_records (file_bytes fs wp))) \<and> fs' = ?fs \<or>
        r = Throw \<or> r = Killed)" for sc'
    by (rule io_post_bind, rule io_post_weaken[OF ReplayUnacked_post])
      (use assms(2) same(1) in \<open>auto simp: io_post_ret\<close>)
  have "io_post (wal_recover wp cp) (fs, sc)
      (\<lambda>r fs'. r = Ret (?w, unacked (ckpt_value (fs cp)) (log_records (file_bytes fs wp))) \<and> fs' = ?fs \<or>
        r = Throw \<or> r = Killed)"
    unfolding wal_recover_def
    by (rule io_post_bind, rule io_post_weaken[OF wal_post])
      (use replay in \<open>auto split: if_splits\<close>)
  then show ?thesis
    by (rule io_post_weaken) (auto simp: disk_log_def Let_def)
qed

lemma replay_loop_0:
  "length data < 2 ^ 63 \<Longrightarrow> replay_loop a data 0 [] = Some (unacked a (log_records data))"
  using replay_loop_eq[of data 0 a "[]"] by simp

lemma wal_recover_returns:
  assumes "wp \<noteq> cp" "length (file_bytes fs wp) < 2 ^ 63" "SysErr \<notin> set sc"
    and "length (file_bytes fs wp) + length (file_bytes fs cp) + 5 < length sc"
  shows "\<exists>w rs fs' sc'. wal_recover wp cp (fs, sc) = (Ret (w, rs), fs', sc')"
proof -
  obtain n sc1 where sc: "sc = SysOk n # sc1" using assms(3,4) by (cases sc rule: list.exhaust; cases "hd sc") auto
  define fs1 where "fs1 = (if fs wp = None then fs(wp \<mapsto> []) else fs)"
  have same: "file_bytes fs1 wp = file_bytes fs wp" "file_bytes fs1 cp = file_bytes fs cp"
    using assms(1) by (auto simp: file_bytes_def fs1_def)
  have op: "open_create wp (fs, sc) = (Ret (), fs1, sc1)"
    by (simp add: open_create_def sc fs1_def)
  obtain sc2 where r1: "ReadWholeFile cp (fs1, sc1) = (Ret (file_bytes fs1 cp), fs1, sc2)"
    "length sc1 \<le> length sc2 + length (file_bytes fs cp) + 2" "SysErr \<notin> set sc2"
    using ReadWholeFile_returns[of fs1 cp sc1] assms(3,4) sc same(2) unfolding file_bytes_def by auto
  obtain sc3 where r2: "ReadWholeFile wp (fs1, sc2) = (Ret (file_bytes fs wp), fs1, sc3)"
    using ReadWholeFile_returns[of fs1 wp sc2] r1(2,3) assms(4) sc same(1) unfolding file_bytes_def by auto
  define w where "w = \<lparr>wal_path = wp, checkpoint_path = cp, last_acked_seq =
    (if length (file_bytes fs1 cp) = 8 then le_join (file_bytes fs1 cp) else 0)\<rparr>"
  have "Wal wp cp (fs, sc) = (Ret w, fs1, sc2)"
    by (simp add: Wal_def io_bind_def op LoadCheckpoint_def r1(1) io_ret_def w_def)
  moreover have "ReplayUnacked w (fs1, sc2) = (Ret (unacked (last_acked_seq w) (log_records (file_bytes fs wp))), fs1, sc3)"
    using replay_loop_0[OF assms(2)] by (simp add: ReplayUnacked_def io_bind_def r2 w_def)
  ultimately show ?thesis
    by (simp add: wal_recover_def io_bind_def io_ret_def)
qed

lemma spec_op_monotone: "fst (spec_op op st) \<ge> fst st"
  by (cases "(op, st)" rule: spec_op.cases) auto

lemma fold_spec_op_monotone: "fst (fold spec_op ops st) \<ge> fst st"
proof (induction ops arbitrary: st)
  case (Cons op ops)
  then show ?case using order_trans[OF spec_op_monotone Cons.IH] by simp
qed simp

lemma fold_spec_op_keeps:
  "(seq, p) \<in> set (snd st) \<Longrightarrow> seq > fst (fold spec_op ops st) \<Longrightarrow> (seq, p) \<in> set (snd (fold spec_op ops st))"
proof (induction ops arbitrary: st)
  case (Cons op ops)
  have "seq > fst (spec_op op st)"
    using Cons.prems(2) fold_spec_op_monotone[of "spec_op op st" ops] by simp
  then have "(seq, p) \<in> set (snd (spec_op op st))"
    using Cons.prems(1) by (cases "(op, st)" rule: spec_op.cases) (auto simp: unacked_def)
  then show ?case using Cons by simp
qed simp

lemma fold_spec_op_appended:
  assumes "OpAppend seq p \<in> set ops" "seq > fst (fold spec_op ops st)"
  shows "(seq, p) \<in> set (snd (fold spec_op ops st))"
proof -
  obtain a b where ops: "ops = a @ OpAppend seq p # b" using assms(1) by (auto dest: split_list)
  let ?st = "spec_op (OpAppend seq p) (fold spec_op a st)"
  have "seq > fst ?st" using assms(2) ops fold_spec_op_monotone[of ?st b] by simp
  then have "(seq, p) \<in> set (snd ?st)"
    by (cases "fold spec_op a st") (auto simp: unacked_def)
  then show ?thesis using fold_spec_op_keeps[of seq p ?st b] assms(2) ops by simp
qed

lemma le_split_numeral: "le_split (numeral k) w = ucast w # le_split (pred_numeral k) (drop_bit 8 w)"
  by (simp add: numeral_eq_Suc)

lemma write_loop_SysOk:
  "n \<ge> length rest \<Longrightarrow> rest \<noteq> [] \<Longrightarrow> write_loop p rest fs (SysOk n # sc) = (Ret (), fs(p \<mapsto> the (fs p) @ rest), sc)"
  "n < length rest \<Longrightarrow>
   write_loop p rest fs (SysOk n # sc) = write_loop p (drop n rest) (fs(p \<mapsto> the (fs p) @ take n rest)) sc"
  by (cases rest; simp add: min_def)+

lemma write_loop_Killed: "rest \<noteq> [] \<Longrightarrow> write_loop p rest fs [] = (Killed, fs, [])"
  by (cases rest) simp_all

lemma EncodeRecord_nonempty [simp]: "EncodeRecord seq p \<noteq> []"
  using length_EncodeRecord[of seq p] by (metis add_is_0 list.size(3) zero_neq_numeral)

lemmas wal_run_eval = write_loop_SysOk write_loop_Killed wal_exec_def Append_def Acknowledge_def Compact_def compact_read_def io_bind_def io_ret_def
  open_existing_def open_create_def open_trunc_def sys_fsync_def sys_rename_def AtomicWriteFile_def Let_def

lemma Append_checkpoint:
  "io_post (Append w seq p) (fs, sc) (\<lambda>r fs'. \<forall>q. q \<noteq> wal_path w \<longrightarrow> fs' q = fs q)"
proof -
  have wr: "io_post (\<lambda>(fs, sc). write_loop (wal_path w) b fs sc) (fs, sc')
      (\<lambda>r fs'. \<forall>q. q \<noteq> wal_path w \<longrightarrow> fs' q = fs q)" if "fs (wal_path w) = Some old" for b old sc'
    by (rule io_post_weaken[OF write_loop_post[where fs = fs, OF that]]) auto
  have sync: "io_post sys_fsync (fs', sc') (\<lambda>r fs'. \<forall>q. q \<noteq> wal_path w \<longrightarrow> fs' q = fs q)"
    if "\<forall>q. q \<noteq> wal_path w \<longrightarrow> fs' q = fs q" for fs' sc'
    unfolding sys_fsync_def by (rule io_post_sys_call) (use that in auto)
  show ?thesis
    unfolding Append_def Let_def open_existing_def
    by (rule io_post_bind, rule io_post_sys_call)
      (auto split: if_splits result.splits intro!: io_post_bind io_post_weaken[OF wr] sync)
qed

text \<open>What recovery finds is the effect of a prefix of the operations.\<close>

lemma wal_crash_cut:
  assumes "wal_good (sum_list (map op_bytes ops)) w (fs, sc)" "list_all op_fits ops"
    and "run_seq wal_exec ops w (fs, sc) = (n, alive, fs', sc')"
    and "length (file_bytes fs' (wal_path w)) < 2 ^ 63"
    and "wal_recover (wal_path w) (checkpoint_path w) (fs', script') = (Ret (w', rs), fs'', script'')"
  shows "\<exists>m. n \<le> m \<and> m \<le> length ops \<and> (last_acked_seq w', rs) = fold spec_op (take m ops) (disk_log w fs) \<and>
    (if alive = None then n < length ops \<and> m \<le> Suc n else n = length ops)"
proof -
  have ne: "wal_path w \<noteq> checkpoint_path w"
    using assms(1) by (simp add: wal_good_def wal_clean_def wal_paths_ok_def)
  have "wal_path w' = wal_path w \<and> checkpoint_path w' = checkpoint_path w \<and> (last_acked_seq w', rs) = disk_log w' fs'"
    using io_postD[OF wal_recover_post[OF ne assms(4)] assms(5)] by simp
  then have eq: "(last_acked_seq w', rs) = disk_log w fs'"
    using disk_log_paths by metis
  have view: "wal_durable w (fs', sc') = (last_acked_seq w', rs)" "wal_durable w (fs, sc) = disk_log w fs"
    using eq by (simp_all add: wal_durable_def)
  from walog.run_seq_atomic[OF assms(1) _ assms(3), unfolded seq_fits_list_all view, OF assms(2)] show ?thesis
    by (elim disjE conjE exE) (auto intro: exI[of _ n] exI[of _ "Suc n"])
qed

text \<open>A concrete run: the second of two appends is killed after five bytes.\<close>

definition demo_wal :: wal where
  "demo_wal = \<lparr>wal_path = ''w'', checkpoint_path = ''c'', last_acked_seq = 0\<rparr>"

definition demo_fs :: fsys where
  "demo_fs = [''w'' \<mapsto> []]"

definition demo_ops :: "wal_op list" where
  "demo_ops = [OpAppend 1 [7], OpAppend 2 [8]]"

definition demo_script :: script where
  "demo_script = [SysOk 0, SysOk 20, SysOk 0, SysOk 0, SysOk 5]"

definition demo_fs1 :: fsys where
  "demo_fs1 = [''w'' \<mapsto> EncodeRecord 1 [7] @ take 5 (EncodeRecord 2 [8])]"

lemma demo_paths [simp]: "wal_path demo_wal = ''w''" "checkpoint_path demo_wal = ''c''" "last_acked_seq demo_wal = 0"
  by (simp_all add: demo_wal_def)

lemma demo_clean: "wal_clean demo_wal demo_fs"
  by (simp add: wal_clean_def wal_paths_ok_def demo_fs_def ckpt_value_def file_bytes_def
      encode_log_def records_from.simps decode_at_def)

lemma demo_good: "wal_good (sum_list (map op_bytes demo_ops)) demo_wal (demo_fs, demo_script)"
  using demo_clean by (simp add: wal_good_def demo_ops_def file_bytes_def demo_fs_def)

lemma demo_fits: "list_all op_fits demo_ops"
  by (simp add: demo_ops_def max_payload_def)

lemma demo_run: "run_seq wal_exec demo_ops demo_wal (demo_fs, demo_script) = (1, None, demo_fs1, [])"
  by (simp add: demo_ops_def demo_wal_def demo_fs_def demo_script_def demo_fs1_def wal_run_eval)

lemma demo_size: "length (file_bytes demo_fs1 ''w'') = 22" "length (file_bytes demo_fs1 ''c'') = 0"
  by (simp_all add: file_bytes_def demo_fs1_def)

lemma demo_recovers:
  "\<exists>w' rs fs'' sc''. wal_recover ''w'' ''c'' (demo_fs1, replicate 40 (SysOk 1)) = (Ret (w', rs), fs'', sc'')"
  using wal_recover_returns[of "''w''" "''c''" demo_fs1 "replicate 40 (SysOk 1)"] demo_size by auto

lemma recover_checkpoint:
  assumes "wal_recover ''w'' ''c'' (fs, sc) = (Ret (w', rs), fs', sc')" "fs ''c'' = None"
    "length (file_bytes fs ''w'') < 2 ^ 63"
  shows "last_acked_seq w' = 0" "wal_path w' = ''w''" "checkpoint_path w' = ''c''"
    "rs = unacked 0 (log_records (file_bytes fs ''w''))"
  using io_postD[OF wal_recover_post[OF _ assms(3)] assms(1)] assms(2)
  by (auto simp: disk_log_def Let_def ckpt_value_def)

section \<open>Properties of the log\<close>

text \<open>
  C2: crash recovery.  Run any sequence of appends, acknowledgements and compactions on a log
  without a torn tail, with any system-call outcomes, until all have returned or the
  process dies in one of them, and restart: recovery that returns yields exactly the
  acknowledged sequence number and the unacknowledged records, in order, of the
  operations that returned, possibly with the interrupted operation in full; nothing
  else is possible.
\<close>

theorem wal_crash_recovery:
  assumes "wal_good (sum_list (map op_bytes ops)) w (fs, sc)" "list_all op_fits ops"
    and "run_seq wal_exec ops w (fs, sc) = (n, alive, fs', sc')"
    and "length (file_bytes fs' (wal_path w)) < 2 ^ 63"
    and "wal_recover (wal_path w) (checkpoint_path w) (fs', script') = (Ret (w', rs), fs'', script'')"
  shows "alive \<noteq> None \<and> n = length ops \<and> (last_acked_seq w', rs) = fold spec_op ops (disk_log w fs) \<or>
    alive = None \<and> n < length ops \<and>
      ((last_acked_seq w', rs) = fold spec_op (take n ops) (disk_log w fs) \<or>
       (last_acked_seq w', rs) = fold spec_op (take (Suc n) ops) (disk_log w fs))"
proof -
  obtain m where "n \<le> m" "m \<le> length ops" "(last_acked_seq w', rs) = fold spec_op (take m ops) (disk_log w fs)"
    "if alive = None then n < length ops \<and> m \<le> Suc n else n = length ops"
    using wal_crash_cut[OF assms] by blast
  then show ?thesis
    by (cases "m = n") (auto split: if_splits simp: le_Suc_eq)
qed

theorem wal_crash_recovery_witness:
  "\<exists>w' rs fs'' sc''. wal_recover ''w'' ''c'' (demo_fs1, replicate 40 (SysOk 1)) = (Ret (w', rs), fs'', sc'') \<and>
    ((last_acked_seq w', rs) = fold spec_op (take 1 demo_ops) (disk_log demo_wal demo_fs) \<or>
     (last_acked_seq w', rs) = fold spec_op (take 2 demo_ops) (disk_log demo_wal demo_fs))"
proof -
  obtain w' rs fs'' sc'' where rec: "wal_recover ''w'' ''c'' (demo_fs1, replicate 40 (SysOk 1)) = (Ret (w', rs), fs'', sc'')"
    using demo_recovers by blast
  then show ?thesis
    using wal_crash_recovery[OF demo_good demo_fits demo_run, of "replicate 40 (SysOk 1)" w' rs fs'' sc'']
    by (simp add: demo_size demo_paths Suc_1 del: One_nat_def)
qed



text \<open>
  C23: with every system call succeeding, opening and replaying a log returns, however the
  kernel splits the reads, whatever bytes the files hold.
\<close>

theorem wal_recover_total:
  assumes "wp \<noteq> cp" "length (file_bytes fs wp) < 2 ^ 63" "SysErr \<notin> set sc"
    and "length (file_bytes fs wp) + length (file_bytes fs cp) + 5 < length sc"
  shows "\<exists>w rs fs' sc'. wal_recover wp cp (fs, sc) = (Ret (w, rs), fs', sc') \<and>
    rs = unacked (last_acked_seq w) (log_records (file_bytes fs wp))"
proof -
  obtain w rs fs' sc' where r: "wal_recover wp cp (fs, sc) = (Ret (w, rs), fs', sc')"
    using wal_recover_returns[OF assms] by blast
  then show ?thesis
    using io_postD[OF wal_recover_post[OF assms(1,2)] r] by (auto simp: disk_log_def Let_def)
qed

theorem wal_recover_total_witness:
  "\<exists>w rs fs' sc'. wal_recover ''w'' ''c'' (Map.empty, replicate 6 (SysOk 1)) = (Ret (w, rs), fs', sc') \<and>
    rs = unacked (last_acked_seq w) (log_records (file_bytes Map.empty ''w''))"
  by (rule wal_recover_total) (simp_all add: file_bytes_def)

section \<open>Limits of the log\<close>

text \<open>
  C31: compaction is not safe against a concurrent append.  If an append lands between the
  read and the rename of \<open>Compact\<close>, and both return, the appended record is gone from
  the log although it was never acknowledged.
\<close>

theorem compact_append_race:
  assumes "wal_clean w fs" "length (file_bytes fs (wal_path w)) < 2 ^ 63"
    and "compact_read w (fs, sc) = (Ret kept, fs1, sc1)"
    and "Append w seq p (fs1, sc1) = (Ret (), fs2, sc2)"
    and "AtomicWriteFile (wal_path w) kept (fs2, sc2) = (Ret (), fs3, sc3)"
  shows "disk_log w fs3 = disk_log w fs"
proof -
  have d: "wal_path w @ ''.tmp'' \<noteq> wal_path w" "checkpoint_path w \<noteq> wal_path w" "checkpoint_path w \<noteq> wal_path w @ ''.tmp''"
    using wal_cleanD(1)[OF assms(1)] by (auto simp: wal_paths_ok_def)
  let ?rs = "unacked (last_acked_seq w) (log_records (file_bytes fs (wal_path w)))"
  have 1: "fs1 = fs" "kept = encode_log ?rs"
    using io_postD[OF compact_read_post[OF assms(2)] assms(3)] by simp_all
  have 2: "fs2 (checkpoint_path w) = fs (checkpoint_path w)"
    using io_postD[OF Append_checkpoint assms(4)] d(2) 1(1) by simp
  have 3: "fs3 (wal_path w) = Some kept" "fs3 (checkpoint_path w) = fs2 (checkpoint_path w)"
    using io_postD[OF AtomicWriteFile_post[OF d(1)] assms(5)] d by auto
  have "log_records (encode_log ?rs) = ?rs"
    by (intro log_records_encode records_ok_unacked records_from_ok)
  then show ?thesis
    using 1 2 3 wal_cleanD(2)[OF assms(1)] by (simp add: disk_log_def file_bytes_def Let_def)
qed

theorem compact_append_race_witness:
  "\<exists>fs1 fs2 fs3 sc1 sc2 sc3. compact_read demo_wal (demo_fs, [SysOk 1, SysOk 1, SysOk 1, SysOk 99, SysOk 1, SysOk 1, SysOk 1, SysOk 1]) = (Ret [], fs1, sc1) \<and>
    Append demo_wal 1 [7] (fs1, sc1) = (Ret (), fs2, sc2) \<and>
    AtomicWriteFile ''w'' [] (fs2, sc2) = (Ret (), fs3, sc3) \<and>
    disk_log demo_wal fs3 = disk_log demo_wal demo_fs"
proof -
  let ?sc = "[SysOk 1, SysOk 99, SysOk 1, SysOk 1, SysOk 1, SysOk 1]"
  let ?fs2 = "demo_fs(''w'' \<mapsto> EncodeRecord 1 [7])"
  have loop: "compact_loop 0 [] 0 [] = Some []"
    using compact_loop_eq[of "[]" 0 0 "[]"] by (simp add: encode_log_def records_from.simps decode_at_def)
  have r: "compact_read demo_wal (demo_fs, [SysOk 1, SysOk 1] @ ?sc) = (Ret [], demo_fs, ?sc)"
    by (simp add: compact_read_def io_bind_def demo_fs_def loop)
  have a: "Append demo_wal 1 [7] (demo_fs, ?sc) = (Ret (), ?fs2, drop 3 ?sc)"
    by (simp add: demo_fs_def wal_run_eval)
  obtain fs3 sc3 where c: "AtomicWriteFile ''w'' [] (?fs2, drop 3 ?sc) = (Ret (), fs3, sc3)"
    by (simp add: demo_fs_def wal_run_eval)
  have "disk_log demo_wal fs3 = disk_log demo_wal demo_fs"
    by (rule compact_append_race[OF demo_clean _ r a]) (use c in \<open>simp_all add: demo_fs_def file_bytes_def\<close>)
  then show ?thesis using r a c by auto
qed

text \<open>
  C30: a torn tail is never cut off on restart.  Kill an append after eight bytes, restart,
  append again: the second append returns, but neither replay after another restart nor
  compaction ever sees its record.
\<close>

theorem torn_tail_hides_append:
  "\<exists>fs1 w1 fs2 w2 fs3 sc1 sc2.
     Append demo_wal 1 [7] (demo_fs, [SysOk 1, SysOk 8]) = (Killed, fs1, []) \<and>
     wal_recover ''w'' ''c'' (fs1, replicate 20 (SysOk 8)) = (Ret (w1, []), fs1, sc1) \<and>
     Append w1 2 [8] (fs1, [SysOk 1, SysOk 99, SysOk 1]) = (Ret (), fs2, []) \<and>
     wal_recover ''w'' ''c'' (fs2, replicate 40 (SysOk 8)) = (Ret (w2, []), fs3, sc2)"
proof -
  let ?t = "take 8 (EncodeRecord 1 [7])"
  let ?f1 = "[''w'' \<mapsto> ?t]" and ?f2 = "[''w'' \<mapsto> ?t @ EncodeRecord 2 [8]]"
  have k: "Append demo_wal 1 [7] (demo_fs, [SysOk 1, SysOk 8]) = (Killed, ?f1, [])"
    by (simp add: demo_fs_def wal_run_eval)
  have n1: "decode_at ?t 0 = None" by (simp add: decode_at_def)
  have bytes: "?t @ EncodeRecord 2 [8] = [1,0,0,0,0,0,0,0, 2,0,0,0, 0,0,0,0] @ [1,0] @ [0,0] @ le_split 4 (Crc32 [8]) @ [8]"
    by (simp add: EncodeRecord_def Let_def le_split_numeral)
  have "Crc32 [1, 0] \<noteq> 0" by (simp add: crc_eval)
  then have n2: "decode_at (?t @ EncodeRecord 2 [8]) 0 = None"
    unfolding bytes by (simp add: decode_at_def)
  obtain w1 rs1 fs1 sc1 where r1: "wal_recover ''w'' ''c'' (?f1, replicate 20 (SysOk 8)) = (Ret (w1, rs1), fs1, sc1)"
    using wal_recover_returns[of "''w''" "''c''" ?f1 "replicate 20 (SysOk 8)"] by (auto simp: file_bytes_def)
  obtain w2 rs2 fs3 sc2 where r2: "wal_recover ''w'' ''c'' (?f2, replicate 40 (SysOk 8)) = (Ret (w2, rs2), fs3, sc2)"
    using wal_recover_returns[of "''w''" "''c''" ?f2 "replicate 40 (SysOk 8)"] by (auto simp: file_bytes_def)
  have "fs1 = ?f1" using io_postD[OF wal_recover_post r1] by (auto simp: file_bytes_def)
  moreover have "rs1 = []" "rs2 = []" "wal_path w1 = ''w''"
    using recover_checkpoint[OF r1] recover_checkpoint[OF r2] n1 n2
    by (simp_all add: file_bytes_def records_from_None)
  moreover from this have "Append w1 2 [8] (?f1, [SysOk 1, SysOk 99, SysOk 1]) = (Ret (), ?f2, [])"
    by (simp add: wal_run_eval)
  ultimately show ?thesis using k r1 r2 by blast
qed

end
