(* ===== verification/RingBuffer.thy ===== *)
theory RingBuffer
  imports Prelude
begin

text \<open>
  The single-producer single-consumer ring buffer of core/include/ridgeline/ring_buffer.h.
  The first part is the sequential meaning of its operations and their refinement of a
  bounded queue.  The second part runs \<open>TryPush\<close> and \<open>TryPop\<close> as two threads, one
  memory access per step, where an acquire load may return any value that is not older
  than what the thread has already seen.
\<close>

section \<open>The operations\<close>

record 'a ring =
  slots :: "'a list"
  rb_head :: u64
  rb_tail :: u64

definition Capacity :: "'a ring \<Rightarrow> nat" where
  "Capacity rb = length (slots rb)"

definition kMask :: "nat \<Rightarrow> u64" where
  "kMask cap = word_of_nat cap - 1"

definition new_ring :: "'a list \<Rightarrow> 'a ring" where
  "new_ring init = \<lparr>slots = init, rb_head = 0, rb_tail = 0\<rparr>"

definition TryPush :: "'a \<Rightarrow> 'a ring \<Rightarrow> bool \<times> 'a ring" where
  "TryPush item rb =
     (let tail = rb_tail rb;
          next_tail = (tail + 1) AND kMask (Capacity rb);
          head = rb_head rb
      in if next_tail = head then (False, rb)
         else (True, rb\<lparr>slots := (slots rb)[unat tail := item], rb_tail := next_tail\<rparr>))"

text \<open>\<open>moved v\<close> is what a move-assignment leaves behind in a slot that held \<open>v\<close>.\<close>

definition TryPop :: "('a \<Rightarrow> 'a) \<Rightarrow> 'a ring \<Rightarrow> 'a option \<times> 'a ring" where
  "TryPop moved rb =
     (let head = rb_head rb;
          tail = rb_tail rb
      in if head = tail then (None, rb)
         else (let out = slots rb ! unat head;
                   next_head = (head + 1) AND kMask (Capacity rb)
               in (Some out, rb\<lparr>slots := (slots rb)[unat head := moved out], rb_head := next_head\<rparr>)))"

text \<open>The callbacks of the in-place interface work on the slot and may leave anything in it.\<close>

definition TryPushWith :: "('a \<Rightarrow> 'a \<times> bool) \<Rightarrow> 'a ring \<Rightarrow> bool \<times> 'a ring" where
  "TryPushWith fill rb =
     (let tail = rb_tail rb;
          next_tail = (tail + 1) AND kMask (Capacity rb);
          head = rb_head rb
      in if next_tail = head then (False, rb)
         else (case fill (slots rb ! unat tail) of
                 (v, published) \<Rightarrow>
                   (let rb' = rb\<lparr>slots := (slots rb)[unat tail := v]\<rparr>
                    in if \<not> published then (False, rb') else (True, rb'\<lparr>rb_tail := next_tail\<rparr>))))"

definition TryPopWith :: "('a \<Rightarrow> 'a \<times> 'b) \<Rightarrow> 'a ring \<Rightarrow> 'b option \<times> 'a ring" where
  "TryPopWith consume rb =
     (let head = rb_head rb;
          tail = rb_tail rb
      in if head = tail then (None, rb)
         else (case consume (slots rb ! unat head) of
                 (v, r) \<Rightarrow> (Some r, rb\<lparr>slots := (slots rb)[unat head := v],
                                       rb_head := (head + 1) AND kMask (Capacity rb)\<rparr>)))"

definition SizeApprox :: "'a ring \<Rightarrow> u64" where
  "SizeApprox rb = (rb_tail rb - rb_head rb) AND kMask (Capacity rb)"

definition capacity :: "'a ring \<Rightarrow> nat" where
  "capacity rb = Capacity rb - 1"

section \<open>Index arithmetic\<close>

text \<open>The static assertions on the template parameter.\<close>

definition cap_ok :: "nat \<Rightarrow> bool" where
  "cap_ok n \<longleftrightarrow> (\<exists>k. 1 \<le> k \<and> k \<le> 63 \<and> n = 2 ^ k)"

lemma cap_okD:
  assumes "cap_ok n" shows "2 \<le> n" "0 < n" "n < 2 ^ 64"
proof -
  obtain k where k: "1 \<le> k" "k \<le> 63" "n = 2 ^ k" using assms by (auto simp: cap_ok_def)
  have "(2::nat) ^ 1 \<le> 2 ^ k" by (rule power_increasing) (use k in auto)
  then show "2 \<le> n" using k by simp
  then show "0 < n" by simp
  show "n < 2 ^ 64" unfolding k(3) by (rule power_strict_increasing) (use k in auto)
qed

lemma and_kMask:
  assumes "cap_ok n" shows "unat (w AND kMask n) = unat w mod n"
proof -
  obtain k where k: "1 \<le> k" "k \<le> 63" "n = 2 ^ k" using assms by (auto simp: cap_ok_def)
  have "kMask n = mask k" by (simp add: kMask_def k(3) mask_eq_exp_minus_1)
  then have "w AND kMask n = take_bit k w" by (simp add: take_bit_eq_mask)
  then have "unat (w AND kMask n) = take_bit k (unat w)" by (simp add: unsigned_take_bit_eq)
  then show ?thesis by (simp add: take_bit_eq_mod k(3))
qed

lemma unat_index: "cap_ok n \<Longrightarrow> unat (word_of_nat (i mod n) :: u64) = i mod n"
  using cap_okD[of n] by (intro unat_u64_of_nat less_trans[OF mod_less_divisor]) auto

lemma next_index:
  assumes "cap_ok n"
  shows "(word_of_nat (i mod n) + 1) AND kMask n = (word_of_nat (Suc i mod n) :: u64)"
proof (rule word_unat_eq_iff[THEN iffD2])
  obtain k where k: "1 \<le> k" "k \<le> 63" "n = 2 ^ k" using assms by (auto simp: cap_ok_def)
  have "i mod n < n" using cap_okD[OF assms] by simp
  moreover have "n \<le> 2 ^ 63" unfolding k(3) by (rule power_increasing) (use k in auto)
  ultimately have "unat (word_of_nat (i mod n) + 1 :: u64) = Suc (i mod n)"
    using unat_u64_of_nat[of "Suc (i mod n)"] by (simp add: add.commute)
  then show "unat ((word_of_nat (i mod n) + 1) AND kMask n :: u64) = unat (word_of_nat (Suc i mod n) :: u64)"
    by (simp add: and_kMask[OF assms] unat_index[OF assms] mod_Suc_eq)
qed

lemma index_eq_iff:
  assumes "cap_ok n"
  shows "(word_of_nat (i mod n) :: u64) = word_of_nat (j mod n) \<longleftrightarrow> i mod n = j mod n"
  using unat_index[OF assms] by metis

lemma mod_eq_close: "i \<le> j \<Longrightarrow> j < i + n \<Longrightarrow> i mod n = j mod n \<Longrightarrow> i = j" for i j n :: nat
  by (auto elim!: mod_eq_nat1E[where n = i, OF sym])

text \<open>The wrapping subtraction of \<open>SizeApprox\<close>: \<open>2 ^ 64\<close> is a multiple of the capacity.\<close>

lemma unat_sub_mod:
  assumes "cap_ok n" "unat b < n"
  shows "unat ((a - b) AND kMask n :: u64) = (unat a + n - unat b) mod n"
proof -
  obtain k where k: "1 \<le> k" "k \<le> 63" "n = 2 ^ k" using assms(1) by (auto simp: cap_ok_def)
  have "n dvd 2 ^ 64" unfolding k(3) by (rule le_imp_power_dvd) (use k in simp)
  then obtain q where q: "(2 :: nat) ^ 64 = n * q" by (elim dvdE)
  show ?thesis
  proof (cases "unat b \<le> unat a")
    case True
    then have "unat (a - b) = unat a - unat b" by (simp add: unat_sub word_le_nat_alt)
    moreover have "unat a + n - unat b = (unat a - unat b) + n" using True by simp
    ultimately show ?thesis by (simp add: and_kMask[OF assms(1)])
  next
    case False
    then have "unat (a - b) = unat a + n * q - unat b"
      using q unat_sub_if_size[of a b] by (simp add: word_size)
    also have "\<dots> = (unat a + n - unat b) + n * (q - 1)"
      using q assms(2) by (cases q) auto
    finally show ?thesis by (simp add: and_kMask[OF assms(1)])
  qed
qed

section \<open>Refinement of a bounded queue\<close>

definition ring_inv :: "'a ring \<Rightarrow> bool" where
  "ring_inv rb \<longleftrightarrow> cap_ok (Capacity rb) \<and> unat (rb_head rb) < Capacity rb \<and> unat (rb_tail rb) < Capacity rb"

definition ring_size :: "'a ring \<Rightarrow> nat" where
  "ring_size rb = (unat (rb_tail rb) + Capacity rb - unat (rb_head rb)) mod Capacity rb"

text \<open>The queued items, oldest first.\<close>

definition contents :: "'a ring \<Rightarrow> 'a list" where
  "contents rb = map (\<lambda>i. slots rb ! ((unat (rb_head rb) + i) mod Capacity rb)) [0..<ring_size rb]"

lemma length_contents [simp]: "length (contents rb) = ring_size rb"
  by (simp add: contents_def)

lemma nat_mod_wrap: "x < 2 * n \<Longrightarrow> x mod n = (if x < n then x else x - n)" for x n :: nat
  by (auto simp: mod_if le_mod_geq)

lemma ring_size_eq:
  assumes "ring_inv rb"
  shows "ring_size rb = (if unat (rb_head rb) \<le> unat (rb_tail rb) then unat (rb_tail rb) - unat (rb_head rb)
    else unat (rb_tail rb) + Capacity rb - unat (rb_head rb))"
  using assms unfolding ring_size_def ring_inv_def by (subst nat_mod_wrap) auto

lemma unat_next:
  assumes "cap_ok n" "unat w < n"
  shows "unat ((w + 1) AND kMask n) = (if unat w + 1 = n then 0 else unat w + 1)"
proof -
  have "unat (w + 1) = Suc (unat w)"
    using unat_u64_of_nat[of "Suc (unat w)"] assms(2) cap_okD(3)[OF assms(1)] by (simp add: add.commute)
  then show ?thesis using assms by (simp add: and_kMask mod_Suc)
qed

lemma ring_full_iff:
  assumes "ring_inv rb"
  shows "(rb_tail rb + 1) AND kMask (Capacity rb) = rb_head rb \<longleftrightarrow> ring_size rb = capacity rb"
  using assms cap_okD[of "Capacity rb"] unfolding word_unat_eq_iff ring_size_eq[OF assms] capacity_def
  by (auto simp: ring_inv_def unat_next split: if_splits)

lemma ring_empty_iff: "ring_inv rb \<Longrightarrow> rb_head rb = rb_tail rb \<longleftrightarrow> ring_size rb = 0"
  unfolding word_unat_eq_iff by (auto simp: ring_size_eq ring_inv_def split: if_splits)

lemma ring_size_bound: "ring_inv rb \<Longrightarrow> ring_size rb \<le> capacity rb"
  by (auto simp: ring_size_eq ring_inv_def capacity_def split: if_splits)

text \<open>A write behind the last item does not touch the queue, and publishing it extends the queue.\<close>

lemma contents_write_tail:
  fixes rb :: "'a ring" and v :: 'a
  assumes "ring_inv rb" "ring_size rb < capacity rb"
  defines "rb1 \<equiv> rb\<lparr>slots := (slots rb)[unat (rb_tail rb) := v]\<rparr>"
  defines "rb2 \<equiv> rb1\<lparr>rb_tail := (rb_tail rb + 1) AND kMask (Capacity rb)\<rparr>"
  shows "ring_inv rb1" "contents rb1 = contents rb" "ring_inv rb2" "contents rb2 = contents rb @ [v]"
proof -
  let ?n = "Capacity rb" and ?h = "unat (rb_head rb)" and ?t = "unat (rb_tail rb)"
  have cap: "cap_ok ?n" "?h < ?n" "?t < ?n" using assms(1) by (auto simp: ring_inv_def)
  have same: "Capacity rb1 = ?n" "Capacity rb2 = ?n" by (simp_all add: rb1_def rb2_def Capacity_def)
  show inv1: "ring_inv rb1" using assms(1) same by (simp add: ring_inv_def rb1_def)
  show inv2: "ring_inv rb2" using cap same by (simp add: ring_inv_def rb1_def rb2_def and_kMask)
  have s1: "ring_size rb1 = ring_size rb" using same by (simp add: ring_size_def rb1_def)
  have s2: "ring_size rb2 = Suc (ring_size rb)"
    using assms(2) cap same unfolding ring_size_eq[OF inv2] ring_size_eq[OF assms(1)] capacity_def
    by (auto simp: rb2_def rb1_def unat_next split: if_splits)
  have away: "?t \<noteq> (?h + i) mod ?n" if "i < ring_size rb" for i
    using that assms(2) cap unfolding ring_size_eq[OF assms(1)] capacity_def
    by (subst nat_mod_wrap) (auto split: if_splits)
  have at: "(?h + ring_size rb) mod ?n = ?t"
    using cap unfolding ring_size_eq[OF assms(1)] by (subst nat_mod_wrap) auto
  show "contents rb1 = contents rb"
    unfolding contents_def s1 same using away by (auto simp: rb1_def)
  show "contents rb2 = contents rb @ [v]"
    unfolding contents_def s2 same using away at cap(3) by (auto simp: rb2_def rb1_def Capacity_def)
qed

lemma contents_drop_head:
  fixes rb :: "'a ring" and v :: 'a
  assumes "ring_inv rb" "0 < ring_size rb"
  defines "rb' \<equiv> rb\<lparr>slots := (slots rb)[unat (rb_head rb) := v], rb_head := (rb_head rb + 1) AND kMask (Capacity rb)\<rparr>"
  shows "ring_inv rb'" "contents rb = slots rb ! unat (rb_head rb) # contents rb'"
proof -
  let ?n = "Capacity rb" and ?h = "unat (rb_head rb)" and ?t = "unat (rb_tail rb)"
  have cap: "cap_ok ?n" "?h < ?n" "?t < ?n" using assms(1) by (auto simp: ring_inv_def)
  have same: "Capacity rb' = ?n" by (simp add: rb'_def Capacity_def)
  show inv: "ring_inv rb'" using cap same by (simp add: ring_inv_def rb'_def and_kMask)
  have s: "ring_size rb = Suc (ring_size rb')"
    using assms(2) cap same unfolding ring_size_eq[OF inv] ring_size_eq[OF assms(1)]
    by (auto simp: rb'_def unat_next split: if_splits)
  have idx: "(unat (rb_head rb') + i) mod ?n = (?h + Suc i) mod ?n" for i
    using mod_add_left_eq[of "Suc ?h" ?n i] cap by (simp add: rb'_def unat_next mod_Suc split: if_splits)
  have away: "?h \<noteq> (?h + Suc i) mod ?n" if "i < ring_size rb'" for i
    using that s cap unfolding ring_size_eq[OF assms(1)] by (subst nat_mod_wrap) (auto split: if_splits)
  show "contents rb = slots rb ! ?h # contents rb'"
    unfolding contents_def s map_upt_Suc same using idx away cap by (auto simp: rb'_def)
qed

lemma TryPush_With: "TryPush item = TryPushWith (\<lambda>_. (item, True))"
  by (simp add: fun_eq_iff TryPush_def TryPushWith_def Let_def)

lemma TryPop_With: "TryPop moved = TryPopWith (\<lambda>v. (moved v, v))"
  by (simp add: fun_eq_iff TryPop_def TryPopWith_def Let_def)

lemma TryPushWith_spec:
  assumes "ring_inv rb" "TryPushWith fill rb = (b, rb')"
  shows "ring_inv rb' \<and> capacity rb' = capacity rb \<and>
    (if length (contents rb) = capacity rb then \<not> b \<and> rb' = rb
     else (case fill (slots rb ! unat (rb_tail rb)) of (v, p) \<Rightarrow>
       b = p \<and> contents rb' = (if p then contents rb @ [v] else contents rb)))"
proof (cases "ring_size rb = capacity rb")
  case True
  then show ?thesis using assms ring_full_iff[OF assms(1)] by (auto simp: TryPushWith_def Let_def)
next
  case False
  then have lt: "ring_size rb < capacity rb" using ring_size_bound[OF assms(1)] by simp
  show ?thesis
    using assms(2) False ring_full_iff[OF assms(1)] contents_write_tail[OF assms(1) lt]
    by (auto simp: TryPushWith_def Let_def capacity_def Capacity_def split: prod.splits if_splits)
qed

lemma TryPopWith_spec:
  assumes "ring_inv rb" "TryPopWith consume rb = (r, rb')"
  shows "ring_inv rb' \<and> capacity rb' = capacity rb \<and>
    (case contents rb of [] \<Rightarrow> r = None \<and> rb' = rb
     | x # xs \<Rightarrow> r = Some (snd (consume x)) \<and> contents rb' = xs)"
proof (cases "ring_size rb = 0")
  case True
  then have "contents rb = []" by (simp add: contents_def)
  then show ?thesis using True assms ring_empty_iff[OF assms(1)] by (auto simp: TryPopWith_def Let_def)
next
  case False
  then show ?thesis
    using assms(2) ring_empty_iff[OF assms(1)]
      contents_drop_head[OF assms(1), of "fst (consume (slots rb ! unat (rb_head rb)))"]
    by (auto simp: TryPopWith_def Let_def capacity_def Capacity_def split: prod.splits)
qed

text \<open>
  A client's view of a bounded queue, over any sequence of attempts to push and to pop:
  the items accepted, the items delivered, and the final state.
\<close>

datatype 'a fifo_op = Push 'a | Pop

fun run_fifo :: "('a \<Rightarrow> 's \<Rightarrow> bool \<times> 's) \<Rightarrow> ('s \<Rightarrow> 'a option \<times> 's) \<Rightarrow> 'a fifo_op list \<Rightarrow> 's \<Rightarrow>
    'a list \<times> 'a list \<times> 's" where
  "run_fifo push pop [] s = ([], [], s)"
| "run_fifo push pop (Push x # ops) s =
     (case push x s of (b, s1) \<Rightarrow>
        (case run_fifo push pop ops s1 of (acc, out, s2) \<Rightarrow> (if b then x # acc else acc, out, s2)))"
| "run_fifo push pop (Pop # ops) s =
     (case pop s of (r, s1) \<Rightarrow>
        (case run_fifo push pop ops s1 of (acc, out, s2) \<Rightarrow>
           (acc, (case r of None \<Rightarrow> out | Some x \<Rightarrow> x # out), s2)))"

locale bounded_fifo =
  fixes inv :: "'s \<Rightarrow> bool"
    and items :: "'s \<Rightarrow> 'a list"
    and room :: "'s \<Rightarrow> nat"
    and push :: "'a \<Rightarrow> 's \<Rightarrow> bool \<times> 's"
    and pop :: "'s \<Rightarrow> 'a option \<times> 's"
  assumes push_law: "inv s \<Longrightarrow> push x s = (b, s') \<Longrightarrow>
      inv s' \<and> room s' = room s \<and> b = (length (items s) \<noteq> room s) \<and>
      items s' = (if b then items s @ [x] else items s)"
    and pop_law: "inv s \<Longrightarrow> pop s = (r, s') \<Longrightarrow>
      inv s' \<and> room s' = room s \<and>
      (case items s of [] \<Rightarrow> r = None \<and> items s' = [] | x # xs \<Rightarrow> r = Some x \<and> items s' = xs)"
    and bound_law: "inv s \<Longrightarrow> length (items s) \<le> room s"
begin

lemma run_fifo_order:
  assumes "inv s" "run_fifo push pop ops s = (acc, out, s')"
  shows "inv s' \<and> room s' = room s \<and> items s @ acc = out @ items s' \<and> length (items s') \<le> room s"
  using assms
proof (induction ops arbitrary: s acc out)
  case Nil
  then show ?case using bound_law by simp
next
  case (Cons op ops)
  show ?case
  proof (cases op)
    case (Push x)
    obtain b s1 acc1 where 1: "push x s = (b, s1)" "run_fifo push pop ops s1 = (acc1, out, s')"
      "acc = (if b then x # acc1 else acc1)"
      using Cons.prems(2) Push by (auto split: prod.splits)
    show ?thesis
      using Cons.IH[OF _ 1(2)] push_law[OF Cons.prems(1) 1(1)] 1(3) by (auto split: if_splits)
  next
    case Pop
    obtain r s1 out1 where 1: "pop s = (r, s1)" "run_fifo push pop ops s1 = (acc, out1, s')"
      "out = (case r of None \<Rightarrow> out1 | Some x \<Rightarrow> x # out1)"
      using Cons.prems(2) Pop by (auto split: prod.splits)
    show ?thesis
      using Cons.IH[OF _ 1(2)] pop_law[OF Cons.prems(1) 1(1)] 1(3) by (auto split: list.splits)
  qed
qed

end

interpretation spsc: bounded_fifo ring_inv contents capacity TryPush "TryPop moved" for moved
proof
  fix rb rb' :: "'a ring" and x b
  assume "ring_inv rb" "TryPush x rb = (b, rb')"
  then show "ring_inv rb' \<and> capacity rb' = capacity rb \<and> b = (length (contents rb) \<noteq> capacity rb) \<and>
      contents rb' = (if b then contents rb @ [x] else contents rb)"
    using TryPushWith_spec[of rb "\<lambda>_. (x, True)" b rb'] by (auto simp: TryPush_With split: if_splits)
next
  fix rb rb' :: "'a ring" and r
  assume "ring_inv rb" "TryPop moved rb = (r, rb')"
  then show "ring_inv rb' \<and> capacity rb' = capacity rb \<and>
      (case contents rb of [] \<Rightarrow> r = None \<and> contents rb' = [] | x # xs \<Rightarrow> r = Some x \<and> contents rb' = xs)"
    using TryPopWith_spec[of rb "\<lambda>v. (moved v, v)" r rb'] by (auto simp: TryPop_With split: list.splits)
next
  fix rb :: "'a ring"
  assume "ring_inv rb"
  then show "length (contents rb) \<le> capacity rb" by (simp add: ring_size_bound)
qed

lemma new_ring_inv: "cap_ok (length init) \<Longrightarrow> ring_inv (new_ring init) \<and> contents (new_ring init) = []"
  using cap_okD[of "length init"] by (simp add: ring_inv_def new_ring_def Capacity_def contents_def ring_size_def)

lemma cap_ok_4: "cap_ok (Suc (Suc (Suc (Suc 0))))"
  unfolding cap_ok_def by (rule exI[of _ 2]) simp

text \<open>
  Used one call at a time, the ring buffer is a bounded first-in first-out queue: over any
  sequence of pushes and pops on a fresh buffer, the items accepted are exactly the items
  delivered, in order, followed by those still queued, whose number is what
  \<open>SizeApprox\<close> reports and never exceeds \<open>capacity()\<close>.
\<close>

lemma ring_is_fifo:
  assumes "cap_ok (length init)" "run_fifo TryPush (TryPop moved) ops (new_ring init) = (acc, out, rb)"
  shows "acc = out @ contents rb \<and> unat (SizeApprox rb) = length (contents rb) \<and>
    length (contents rb) \<le> length init - 1"
proof -
  have r: "ring_inv rb \<and> capacity rb = capacity (new_ring init) \<and> contents (new_ring init) @ acc = out @ contents rb \<and>
      length (contents rb) \<le> capacity (new_ring init)"
    using spsc.run_fifo_order[OF _ assms(2)] new_ring_inv[OF assms(1)] by blast
  have "unat (SizeApprox rb) = ring_size rb"
    using r unat_sub_mod[of "Capacity rb" "rb_head rb" "rb_tail rb"]
    by (simp add: SizeApprox_def ring_inv_def ring_size_def)
  then show ?thesis
    using r new_ring_inv[OF assms(1)] by (simp add: capacity_def new_ring_def Capacity_def)
qed

lemma ring_is_fifo_example:
  "case run_fifo TryPush (TryPop id) [Push 5, Push 6, Pop, Push 7, Push 8, Push 9] (new_ring [0, 0, 0, 0 :: nat]) of
    (acc, out, rb) \<Rightarrow> acc = out @ contents rb \<and> unat (SizeApprox rb) = length (contents rb) \<and>
      length (contents rb) \<le> length [0, 0, 0, 0 :: nat] - 1"
  by (intro prod.case_eq_if[THEN iffD2] ring_is_fifo[where moved = id]) (simp_all add: cap_ok_4 del: run_fifo.simps)

section \<open>Two threads\<close>

text \<open>
  The two threads in steps of one memory access each.  An atomic has one writer, so its
  modification order is the list of the values stored so far; a thread that has seen
  position \<open>v\<close> of it may load any position from \<open>v\<close> on.  \<open>prod_view\<close> and \<open>cons_view\<close> are the
  positions an acquire load has synchronised with: everything the other thread did before
  that store happens before what follows the load.  \<open>pushed\<close> and \<open>popped\<close> record the items
  published and delivered.
\<close>

datatype 'a producer = PIdle | PLoad 'a u64 u64 | PWrite 'a u64 u64 | PPublish 'a u64

datatype 'a consumer = CIdle | CLoad u64 | CRead u64 | CFree 'a u64

record 'a spsc_state =
  mem :: "'a list"
  head_mo :: "u64 list"
  tail_mo :: "u64 list"
  prod_view :: nat
  cons_view :: nat
  prod :: "'a producer"
  cons :: "'a consumer"
  pushed :: "'a list"
  popped :: "'a list"

definition spsc_init :: "'a list \<Rightarrow> 'a spsc_state" where
  "spsc_init init = \<lparr>mem = init, head_mo = [0], tail_mo = [0], prod_view = 0, cons_view = 0,
     prod = PIdle, cons = CIdle, pushed = [], popped = []\<rparr>"

inductive push_step :: "'a spsc_state \<Rightarrow> 'a spsc_state \<Rightarrow> bool" where
  push_start: "prod s = PIdle \<Longrightarrow> tail = last (tail_mo s) \<Longrightarrow>
    push_step s (s\<lparr>prod := PLoad item tail ((tail + 1) AND kMask (length (mem s)))\<rparr>)"
| push_full: "prod s = PLoad item tail next_tail \<Longrightarrow> prod_view s \<le> i \<Longrightarrow> i < length (head_mo s) \<Longrightarrow>
    next_tail = head_mo s ! i \<Longrightarrow> push_step s (s\<lparr>prod_view := i, prod := PIdle\<rparr>)"
| push_room: "prod s = PLoad item tail next_tail \<Longrightarrow> prod_view s \<le> i \<Longrightarrow> i < length (head_mo s) \<Longrightarrow>
    next_tail \<noteq> head_mo s ! i \<Longrightarrow> push_step s (s\<lparr>prod_view := i, prod := PWrite item tail next_tail\<rparr>)"
| push_write: "prod s = PWrite item tail next_tail \<Longrightarrow>
    push_step s (s\<lparr>mem := (mem s)[unat tail := item], prod := PPublish item next_tail\<rparr>)"
| push_publish: "prod s = PPublish item next_tail \<Longrightarrow>
    push_step s (s\<lparr>tail_mo := tail_mo s @ [next_tail], pushed := pushed s @ [item], prod := PIdle\<rparr>)"

inductive pop_step :: "('a \<Rightarrow> 'a) \<Rightarrow> 'a spsc_state \<Rightarrow> 'a spsc_state \<Rightarrow> bool" for moved where
  pop_start: "cons s = CIdle \<Longrightarrow> head = last (head_mo s) \<Longrightarrow> pop_step moved s (s\<lparr>cons := CLoad head\<rparr>)"
| pop_empty: "cons s = CLoad head \<Longrightarrow> cons_view s \<le> i \<Longrightarrow> i < length (tail_mo s) \<Longrightarrow>
    head = tail_mo s ! i \<Longrightarrow> pop_step moved s (s\<lparr>cons_view := i, cons := CIdle\<rparr>)"
| pop_some: "cons s = CLoad head \<Longrightarrow> cons_view s \<le> i \<Longrightarrow> i < length (tail_mo s) \<Longrightarrow>
    head \<noteq> tail_mo s ! i \<Longrightarrow> pop_step moved s (s\<lparr>cons_view := i, cons := CRead head\<rparr>)"
| pop_read: "cons s = CRead head \<Longrightarrow> out = mem s ! unat head \<Longrightarrow>
    pop_step moved s (s\<lparr>mem := (mem s)[unat head := moved out], cons := CFree out head\<rparr>)"
| pop_free: "cons s = CFree out head \<Longrightarrow>
    pop_step moved s (s\<lparr>head_mo := head_mo s @ [(head + 1) AND kMask (length (mem s))],
      popped := popped s @ [out], cons := CIdle\<rparr>)"

inductive spsc_reach :: "('a \<Rightarrow> 'a) \<Rightarrow> 'a list \<Rightarrow> 'a spsc_state \<Rightarrow> bool" for moved init where
  reach_init: "spsc_reach moved init (spsc_init init)"
| reach_push: "spsc_reach moved init s \<Longrightarrow> push_step s s' \<Longrightarrow> spsc_reach moved init s'"
| reach_pop: "spsc_reach moved init s \<Longrightarrow> pop_step moved s s' \<Longrightarrow> spsc_reach moved init s'"

text \<open>Numbers of completed pushes and pops, and of slots already read.\<close>

abbreviation n_pushed :: "'a spsc_state \<Rightarrow> nat" where "n_pushed s \<equiv> length (pushed s)"
abbreviation n_popped :: "'a spsc_state \<Rightarrow> nat" where "n_popped s \<equiv> length (popped s)"

abbreviation idx :: "nat \<Rightarrow> nat \<Rightarrow> u64" where "idx n i \<equiv> word_of_nat (i mod n)"

fun prod_ok :: "nat \<Rightarrow> nat \<Rightarrow> nat \<Rightarrow> 'a list \<Rightarrow> 'a producer \<Rightarrow> bool" where
  "prod_ok n t v m PIdle \<longleftrightarrow> t < v + n"
| "prod_ok n t v m (PLoad item w nw) \<longleftrightarrow> t < v + n \<and> w = idx n t \<and> nw = idx n (Suc t)"
| "prod_ok n t v m (PWrite item w nw) \<longleftrightarrow> Suc t < v + n \<and> w = idx n t \<and> nw = idx n (Suc t)"
| "prod_ok n t v m (PPublish item nw) \<longleftrightarrow> Suc t < v + n \<and> nw = idx n (Suc t) \<and> m ! (t mod n) = item"

fun cons_ok :: "nat \<Rightarrow> nat \<Rightarrow> nat \<Rightarrow> 'a list \<Rightarrow> 'a consumer \<Rightarrow> bool" where
  "cons_ok n h v ps CIdle \<longleftrightarrow> h \<le> v"
| "cons_ok n h v ps (CLoad w) \<longleftrightarrow> h \<le> v \<and> w = idx n h"
| "cons_ok n h v ps (CRead w) \<longleftrightarrow> h < v \<and> w = idx n h"
| "cons_ok n h v ps (CFree out w) \<longleftrightarrow> h < v \<and> w = idx n h \<and> out = ps ! h"

fun live_from :: "nat \<Rightarrow> 'a consumer \<Rightarrow> nat" where
  "live_from h (CFree out w) = Suc h"
| "live_from h c = h"

definition first_live :: "'a spsc_state \<Rightarrow> nat" where
  "first_live s = live_from (n_popped s) (cons s)"

definition spsc_inv :: "nat \<Rightarrow> 'a spsc_state \<Rightarrow> bool" where
  "spsc_inv n s \<longleftrightarrow>
     length (mem s) = n \<and>
     head_mo s = map (idx n) [0..<Suc (n_popped s)] \<and> tail_mo s = map (idx n) [0..<Suc (n_pushed s)] \<and>
     prod_view s \<le> n_popped s \<and> cons_view s \<le> n_pushed s \<and>
     prod_ok n (n_pushed s) (prod_view s) (mem s) (prod s) \<and>
     cons_ok n (n_popped s) (cons_view s) (pushed s) (cons s) \<and>
     (\<forall>j. first_live s \<le> j \<and> j < n_pushed s \<longrightarrow> mem s ! (j mod n) = pushed s ! j) \<and>
     popped s = take (n_popped s) (pushed s)"

lemma cons_okD: "cons_ok n h v ps c \<Longrightarrow> h \<le> v"
  by (cases c) auto

lemma prod_okD: "prod_ok n t v m p \<Longrightarrow> t < v + n"
  by (cases p) auto

lemma cons_ok_append: "cons_ok n h v ps c \<Longrightarrow> v \<le> length ps \<Longrightarrow> cons_ok n h v (ps @ qs) c"
  by (cases c) (auto simp: nth_append)

lemma n_popped_le_first_live: "n_popped s \<le> first_live s"
  by (cases "cons s") (simp_all add: first_live_def)

lemma last_idx: "last (map f [0..<Suc k]) = f k"
  by simp

lemma push_step_inv:
  assumes "cap_ok n" "spsc_inv n s" "push_step s s'"
  shows "spsc_inv n s'"
  using assms(3)
proof cases
  case (push_start tail item)
  have "tail = idx n (n_pushed s)" using assms(2) push_start(3) by (simp add: spsc_inv_def)
  then show ?thesis
    using assms(2) push_start(1,2) next_index[OF assms(1)] by (simp add: spsc_inv_def first_live_def)
next
  case (push_full item tail nw i)
  then show ?thesis using assms(2) by (simp add: spsc_inv_def first_live_def)
next
  case (push_room item tail nw i)
  have nw: "nw = idx n (Suc (n_pushed s))" "n_pushed s < prod_view s + n" "i \<le> n_popped s"
    using assms(2) push_room by (auto simp: spsc_inv_def)
  have "head_mo s ! i = idx n i" using assms(2) nw(3) by (auto simp: spsc_inv_def nth_append)
  then have "Suc (n_pushed s) mod n \<noteq> (i + n) mod n"
    using push_room(5) nw(1) index_eq_iff[OF assms(1)] by simp
  then have "Suc (n_pushed s) \<noteq> i + n" by metis
  then have "Suc (n_pushed s) < i + n" using nw(2) push_room(3) by simp
  then show ?thesis using assms(2) push_room nw(3) by (simp add: spsc_inv_def first_live_def)
next
  case (push_write item tail nw)
  have t: "unat tail = n_pushed s mod n" "Suc (n_pushed s) < prod_view s + n" "prod_view s \<le> n_popped s"
    using assms(2) push_write unat_index[OF assms(1)] by (auto simp: spsc_inv_def)
  have "n_pushed s mod n \<noteq> j mod n" if "first_live s \<le> j" "j < n_pushed s" for j
    using mod_eq_close[of j "n_pushed s" n] that t n_popped_le_first_live[of s] by auto
  moreover have "n_pushed s mod n < n" using cap_okD[OF assms(1)] by simp
  ultimately show ?thesis
    using assms(2) push_write t(1) by (auto simp: spsc_inv_def first_live_def)
next
  case (push_publish item nw)
  have c: "n_popped s \<le> n_pushed s" using assms(2) cons_okD by (force simp: spsc_inv_def)
  have "mem s ! (j mod n) = (pushed s @ [item]) ! j" if "first_live s \<le> j" "j < Suc (n_pushed s)" for j
    using that assms(2) push_publish by (cases "j = n_pushed s") (auto simp: spsc_inv_def nth_append)
  then show ?thesis
    using assms(2) push_publish c by (auto simp: spsc_inv_def first_live_def intro: cons_ok_append)
qed

lemma pop_step_inv:
  assumes "cap_ok n" "spsc_inv n s" "pop_step moved s s'"
  shows "spsc_inv n s'"
  using assms(3)
proof cases
  case (pop_start head)
  have "head = idx n (n_popped s)" using assms(2) pop_start(3) by (simp add: spsc_inv_def)
  then show ?thesis using assms(2) pop_start(1,2) by (simp add: spsc_inv_def first_live_def)
next
  case (pop_empty head i)
  then show ?thesis using assms(2) by (simp add: spsc_inv_def first_live_def)
next
  case (pop_some head i)
  have h: "head = idx n (n_popped s)" "n_popped s \<le> i" "i \<le> n_pushed s"
    using assms(2) pop_some by (auto simp: spsc_inv_def)
  have "tail_mo s ! i = idx n i" using assms(2) h(3) by (auto simp: spsc_inv_def nth_append)
  then have "n_popped s < i" using h pop_some(5) by (cases "i = n_popped s") auto
  then show ?thesis using assms(2) pop_some h by (simp add: spsc_inv_def first_live_def)
next
  case (pop_read head out)
  have h: "unat head = n_popped s mod n" "n_popped s < cons_view s" "cons_view s \<le> n_pushed s"
    "n_pushed s < n_popped s + n"
    using assms(2) pop_read unat_index[OF assms(1)] prod_okD[of n "n_pushed s" "prod_view s" "mem s" "prod s"]
    by (auto simp: spsc_inv_def)
  have away: "n_popped s mod n \<noteq> j mod n" if "n_popped s < j" "j \<le> n_pushed s" for j
    using mod_eq_close[of "n_popped s" j n] that h by auto
  have "out = pushed s ! n_popped s"
    using assms(2) pop_read h by (auto simp: spsc_inv_def first_live_def)
  moreover have "prod_ok n (n_pushed s) (prod_view s) ((mem s)[unat head := v]) (prod s)" for v
    using assms(2) h away[of "n_pushed s"] by (cases "prod s") (auto simp: spsc_inv_def)
  ultimately show ?thesis
    using assms(2) pop_read h away by (auto simp: spsc_inv_def first_live_def)
next
  case (pop_free out head)
  have h: "head = idx n (n_popped s)" "n_popped s < n_pushed s" "out = pushed s ! n_popped s"
    using assms(2) pop_free by (auto simp: spsc_inv_def)
  then have "popped s @ [out] = take (Suc (n_popped s)) (pushed s)"
    using assms(2) by (simp add: spsc_inv_def take_Suc_conv_app_nth)
  then show ?thesis
    using assms(2) pop_free h next_index[OF assms(1)] by (simp add: spsc_inv_def first_live_def)
qed

lemma spsc_counts:
  assumes "spsc_inv n s"
  shows "n_popped s \<le> n_pushed s" "n_pushed s < n_popped s + n"
proof -
  have "cons_ok n (n_popped s) (cons_view s) (pushed s) (cons s)" "cons_view s \<le> n_pushed s"
    "prod_ok n (n_pushed s) (prod_view s) (mem s) (prod s)" "prod_view s \<le> n_popped s"
    using assms unfolding spsc_inv_def by blast+
  then show "n_popped s \<le> n_pushed s" "n_pushed s < n_popped s + n"
    using cons_okD prod_okD by fastforce+
qed

lemma spsc_reach_inv:
  assumes "cap_ok (length init)" "spsc_reach moved init s"
  shows "spsc_inv (length init) s"
  using assms(2)
proof induction
  case reach_init
  then show ?case
    using cap_okD[OF assms(1)] by (simp add: spsc_inv_def spsc_init_def first_live_def)
qed (use assms(1) push_step_inv pop_step_inv in blast)+

lemmas spsc_steps = push_start push_full push_room push_write push_publish pop_start pop_empty pop_some pop_read pop_free

text \<open>A run: push 7, then push 8 up to its slot write while the consumer is about to read 7.\<close>

lemma spsc_run_push:
  "spsc_reach moved [a, b, c, d] \<lparr>mem = [7, b, c, d], head_mo = [0], tail_mo = [0, 1], prod_view = 0, cons_view = 0,
     prod = PIdle, cons = CIdle, pushed = [7], popped = []\<rparr>"
proof -
  have mask: "(1 AND kMask (Suc (Suc (Suc (Suc 0)))) :: u64) = 1" by (simp add: kMask_def)
  let ?s0 = "spsc_init [a, b, c, d]"
  let ?s1 = "?s0\<lparr>prod := PLoad 7 0 1\<rparr>" and ?s2 = "?s0\<lparr>prod := PWrite 7 0 1\<rparr>"
  let ?s3 = "?s0\<lparr>mem := [7, b, c, d], prod := PPublish 7 1\<rparr>"
  have 1: "push_step ?s0 ?s1" using push_start[of ?s0 0 7] by (simp add: spsc_init_def mask)
  have 2: "push_step ?s1 ?s2" using push_room[of ?s1 7 0 1 0] by (simp add: spsc_init_def)
  have 3: "push_step ?s2 ?s3" using push_write[of ?s2 7 0 1] by (simp add: spsc_init_def)
  have 4: "push_step ?s3 \<lparr>mem = [7, b, c, d], head_mo = [0], tail_mo = [0, 1], prod_view = 0, cons_view = 0,
     prod = PIdle, cons = CIdle, pushed = [7], popped = []\<rparr>"
    using push_publish[of ?s3 7 1] by (simp add: spsc_init_def)
  show ?thesis by (intro reach_push[OF _ 4] reach_push[OF _ 3] reach_push[OF _ 2] reach_push[OF _ 1] reach_init)
qed

lemma spsc_run_both:
  "spsc_reach moved [a, b, c, d] \<lparr>mem = [7, b, c, d], head_mo = [0], tail_mo = [0, 1], prod_view = 0, cons_view = 1,
     prod = PWrite 8 1 2, cons = CRead 0, pushed = [7], popped = []\<rparr>"
proof -
  have mask: "(2 AND kMask (Suc (Suc (Suc (Suc 0)))) :: u64) = 2" by (simp add: kMask_def)
  let ?s0 = "\<lparr>mem = [7, b, c, d], head_mo = [0], tail_mo = [0, 1], prod_view = 0, cons_view = 0,
     prod = PIdle, cons = CIdle, pushed = [7], popped = []\<rparr>"
  let ?s1 = "?s0\<lparr>prod := PLoad 8 1 2\<rparr>" and ?s2 = "?s0\<lparr>prod := PWrite 8 1 2\<rparr>"
  let ?s3 = "?s0\<lparr>prod := PWrite 8 1 2, cons := CLoad 0\<rparr>"
  have 1: "push_step ?s0 ?s1" using push_start[of ?s0 1 8] by (simp add: mask)
  have 2: "push_step ?s1 ?s2" using push_room[of ?s1 8 1 2 0] by simp
  have 3: "pop_step moved ?s2 ?s3" using pop_start[of ?s2 0] by simp
  have 4: "pop_step moved ?s3 (?s3\<lparr>cons_view := 1, cons := CRead 0\<rparr>)" using pop_some[of ?s3 0 1] by simp
  then show ?thesis
    using reach_pop[OF reach_pop[OF reach_push[OF reach_push[OF spsc_run_push 1] 2] 3] 4] by simp
qed

text \<open>
  C5: with the producer and the consumer running concurrently under acquire/release ordering,
  in every reachable state the items delivered are exactly the first ones published, in
  order, without loss or duplication, and at most \<open>Capacity - 1\<close> items are in flight.
\<close>

theorem spsc_fifo:
  assumes "cap_ok (length init)" "spsc_reach moved init s"
  shows "popped s = take (length (popped s)) (pushed s) \<and> length (popped s) \<le> length (pushed s) \<and>
    length (pushed s) \<le> length (popped s) + (length init - 1)"
proof -
  have inv: "spsc_inv (length init) s" by (rule spsc_reach_inv[OF assms])
  then have "popped s = take (n_popped s) (pushed s)" by (simp only: spsc_inv_def)
  then show ?thesis using spsc_counts[OF inv] by auto
qed

theorem spsc_fifo_witness:
  "let s = \<lparr>mem = [7, 0, 0, 0 :: nat], head_mo = [0], tail_mo = [0, 1], prod_view = 0, cons_view = 1,
     prod = PWrite 8 1 2, cons = CRead 0, pushed = [7], popped = []\<rparr>
   in popped s = take (length (popped s)) (pushed s) \<and> length (popped s) \<le> length (pushed s) \<and>
    length (pushed s) \<le> length (popped s) + (length [0, 0, 0, 0 :: nat] - 1)"
  unfolding Let_def by (rule spsc_fifo[OF _ spsc_run_both[where moved = id]]) (simp add: cap_ok_4)

text \<open>
  C25: no data race.  Whenever the producer is about to write a slot, the slot is inside the
  array and every earlier read of it happens before the write (the pop of the item that
  lay there is among those the producer synchronised with); whenever the consumer is about
  to read a slot, the slot is inside the array and the write of the item happens before the
  read; and the two never address the same slot.
\<close>

theorem spsc_race_free:
  assumes "cap_ok (length init)" "spsc_reach moved init s"
  shows "(\<forall>item t nw. prod s = PWrite item t nw \<longrightarrow>
      unat t = length (pushed s) mod length init \<and> length (pushed s) < prod_view s + length init \<and>
      prod_view s \<le> length (popped s)) \<and>
    (\<forall>h. cons s = CRead h \<longrightarrow> unat h = length (popped s) mod length init \<and>
      length (popped s) < cons_view s \<and> cons_view s \<le> length (pushed s)) \<and>
    (\<forall>item t nw h. prod s = PWrite item t nw \<longrightarrow> cons s = CRead h \<longrightarrow> t \<noteq> h)"
proof -
  let ?n = "length init"
  have inv: "spsc_inv ?n s" by (rule spsc_reach_inv[OF assms])
  have p: "unat t = n_pushed s mod ?n \<and> n_pushed s < prod_view s + ?n \<and> prod_view s \<le> n_popped s"
    if "prod s = PWrite item t nw" for item t nw
    using inv that unat_index[OF assms(1)] by (auto simp: spsc_inv_def)
  have c: "unat h = n_popped s mod ?n \<and> n_popped s < cons_view s \<and> cons_view s \<le> n_pushed s"
    if "cons s = CRead h" for h
    using inv that unat_index[OF assms(1)] by (auto simp: spsc_inv_def)
  have "t \<noteq> h" if "prod s = PWrite item t nw" "cons s = CRead h" for item t nw h
    using p[OF that(1)] c[OF that(2)] mod_eq_close[of "n_popped s" "n_pushed s" ?n] by auto
  then show ?thesis using p c by blast
qed

theorem spsc_race_free_witness:
  "\<exists>s t h nw. spsc_reach id [0, 0, 0, 0 :: nat] s \<and> prod s = PWrite 8 t nw \<and> cons s = CRead h \<and> t \<noteq> h"
proof -
  let ?s = "\<lparr>mem = [7, 0, 0, 0 :: nat], head_mo = [0], tail_mo = [0, 1], prod_view = 0, cons_view = 1,
     prod = PWrite 8 1 2, cons = CRead 0, pushed = [7], popped = []\<rparr>"
  have "cap_ok (length [0, 0, 0, 0 :: nat])" by (simp add: cap_ok_4)
  from spsc_race_free[OF this spsc_run_both[where moved = id]]
  have "(1 :: u64) \<noteq> 0" by (elim conjE allE[of _ 8] allE[of _ 1] allE[of _ 2] allE[of _ 0]) simp
  then show ?thesis
    using spsc_run_both[of id 0 0 0 0] by (intro exI[of _ ?s] exI[of _ 1] exI[of _ 0] exI[of _ 2]) simp
qed

text \<open>
  A push or pop that loads the current counter of the other side is refused exactly when
  the buffer is full, respectively empty.
\<close>

lemma spsc_no_spurious_refusal:
  assumes "cap_ok (length init)" "spsc_reach moved init s"
  shows "(\<forall>item t nw. prod s = PLoad item t nw \<longrightarrow>
      (nw = last (head_mo s) \<longleftrightarrow> length (pushed s) = length (popped s) + (length init - 1))) \<and>
    (\<forall>h. cons s = CLoad h \<longrightarrow> (h = last (tail_mo s) \<longleftrightarrow> pushed s = popped s))"
proof -
  let ?n = "length init"
  have inv: "spsc_inv ?n s" by (rule spsc_reach_inv[OF assms])
  have n: "2 \<le> ?n" using cap_okD[OF assms(1)] by simp
  have le: "n_popped s \<le> n_pushed s" "n_pushed s < n_popped s + ?n"
    by (rule spsc_counts[OF inv])+
  have 1: "nw = last (head_mo s) \<longleftrightarrow> n_pushed s = n_popped s + (?n - 1)" if "prod s = PLoad item t nw" for item t nw
  proof -
    have "nw = last (head_mo s) \<longleftrightarrow> Suc (n_pushed s) mod ?n = n_popped s mod ?n"
      using inv that index_eq_iff[OF assms(1)] by (simp add: spsc_inv_def)
    also have "\<dots> \<longleftrightarrow> Suc (n_pushed s) mod ?n = (n_popped s + ?n) mod ?n" by simp
    also have "\<dots> \<longleftrightarrow> Suc (n_pushed s) = n_popped s + ?n"
      using mod_eq_close[of "Suc (n_pushed s)" "n_popped s + ?n" ?n] le by auto
    finally show ?thesis using n by linarith
  qed
  have 2: "h = last (tail_mo s) \<longleftrightarrow> pushed s = popped s" if "cons s = CLoad h" for h
  proof -
    have "h = last (tail_mo s) \<longleftrightarrow> n_popped s mod ?n = n_pushed s mod ?n"
      using inv that index_eq_iff[OF assms(1)] by (simp add: spsc_inv_def)
    also have "\<dots> \<longleftrightarrow> n_popped s = n_pushed s"
      using mod_eq_close[of "n_popped s" "n_pushed s" ?n] le by auto
    also have "\<dots> \<longleftrightarrow> pushed s = popped s"
      using inv[unfolded spsc_inv_def] by (metis order_refl take_all)
    finally show ?thesis .
  qed
  show ?thesis using 1 2 by blast
qed

lemma spsc_no_spurious_refusal_witness:
  "\<exists>s :: nat spsc_state. spsc_reach id [0, 0, 0, 0] s \<and> pushed s \<noteq> popped s \<and> length (head_mo s) = 1 \<and>
    (\<forall>h. cons s = CLoad h \<longrightarrow> (h = last (tail_mo s) \<longleftrightarrow> pushed s = popped s))"
proof -
  have "cap_ok (length [0, 0, 0, 0 :: nat])" by (simp add: cap_ok_4)
  from spsc_no_spurious_refusal[OF this spsc_run_push[where moved = id]] show ?thesis
    using spsc_run_push[of id 0 0 0 0] by (intro exI conjI) (assumption, simp_all)
qed

end
