(* ===== verification/Ieee.thy ===== *)
theory Ieee
  imports Prelude "HOL-Library.Log_Nat" Complex_Main
begin

text \<open>
  The floating-point arithmetic of the program: IEEE 754 binary32 (\<open>float\<close>) and binary64
  (\<open>double\<close>) on rational numbers, rounding to nearest with ties to even, with subnormals,
  overflow to infinity and NaN.  The sign of zero is not represented; no operation of the
  program observes it.
\<close>

section \<open>Values and rounding\<close>

datatype fp = Fin rat | PInf | NInf | NaN

text \<open>A format is the number of significand bits and the largest exponent.\<close>

type_synonym fmt = "nat \<times> int"

definition binary32 :: fmt where "binary32 = (24, 127)"
definition binary64 :: fmt where "binary64 = (53, 1023)"

text \<open>The exponent of a positive rational: \<open>2 powi flog2 q \<le> q < 2 powi (flog2 q + 1)\<close>.\<close>

definition flog2 :: "rat \<Rightarrow> int" where
  "flog2 q = (case quotient_of q of (a, b) \<Rightarrow>
     (let e = bitlen a - bitlen b in if 2 powi e \<le> q then e else e - 1))"

definition round_even :: "rat \<Rightarrow> int" where
  "round_even x = (let f = \<lfloor>x\<rfloor>; d = x - of_int f in
     if d < 1 / 2 then f else if d > 1 / 2 then f + 1 else if even f then f else f + 1)"

fun ulp :: "fmt \<Rightarrow> rat \<Rightarrow> rat" where
  "ulp (p, emax) a = 2 powi (max (flog2 a) (1 - emax) - int p + 1)"

definition rnd_pos :: "fmt \<Rightarrow> rat \<Rightarrow> rat" where
  "rnd_pos f a = (if a = 0 then 0 else of_int (round_even (a / ulp f a)) * ulp f a)"

definition fp_max :: "fmt \<Rightarrow> rat" where
  "fp_max f = 2 powi (snd f + 1)"

definition rnd :: "fmt \<Rightarrow> rat \<Rightarrow> fp" where
  "rnd f q = (let r = rnd_pos f \<bar>q\<bar> in
     if r < fp_max f then Fin (if q < 0 then - r else r) else if q < 0 then NInf else PInf)"

section \<open>Operations\<close>

fun fp_neg :: "fp \<Rightarrow> fp" where
  "fp_neg (Fin x) = Fin (- x)"
| "fp_neg PInf = NInf"
| "fp_neg NInf = PInf"
| "fp_neg NaN = NaN"

fun fp_add :: "fmt \<Rightarrow> fp \<Rightarrow> fp \<Rightarrow> fp" where
  "fp_add f (Fin x) (Fin y) = rnd f (x + y)"
| "fp_add f NaN y = NaN"
| "fp_add f x NaN = NaN"
| "fp_add f PInf NInf = NaN"
| "fp_add f NInf PInf = NaN"
| "fp_add f PInf y = PInf"
| "fp_add f NInf y = NInf"
| "fp_add f x PInf = PInf"
| "fp_add f x NInf = NInf"

definition fp_sub :: "fmt \<Rightarrow> fp \<Rightarrow> fp \<Rightarrow> fp" where
  "fp_sub f x y = fp_add f x (fp_neg y)"

definition signed_inf :: "bool \<Rightarrow> fp" where
  "signed_inf neg = (if neg then NInf else PInf)"

fun fp_mul :: "fmt \<Rightarrow> fp \<Rightarrow> fp \<Rightarrow> fp" where
  "fp_mul f (Fin x) (Fin y) = rnd f (x * y)"
| "fp_mul f NaN y = NaN"
| "fp_mul f x NaN = NaN"
| "fp_mul f (Fin x) PInf = (if x = 0 then NaN else signed_inf (x < 0))"
| "fp_mul f (Fin x) NInf = (if x = 0 then NaN else signed_inf (0 < x))"
| "fp_mul f PInf (Fin y) = (if y = 0 then NaN else signed_inf (y < 0))"
| "fp_mul f NInf (Fin y) = (if y = 0 then NaN else signed_inf (0 < y))"
| "fp_mul f PInf PInf = PInf"
| "fp_mul f PInf NInf = NInf"
| "fp_mul f NInf PInf = NInf"
| "fp_mul f NInf NInf = PInf"

text \<open>Division; a zero divisor counts as positive zero.\<close>

fun fp_div :: "fmt \<Rightarrow> fp \<Rightarrow> fp \<Rightarrow> fp" where
  "fp_div f (Fin x) (Fin y) = (if y = 0 then (if x = 0 then NaN else signed_inf (x < 0)) else rnd f (x / y))"
| "fp_div f NaN y = NaN"
| "fp_div f x NaN = NaN"
| "fp_div f (Fin x) y = Fin 0"
| "fp_div f PInf (Fin y) = signed_inf (y < 0)"
| "fp_div f NInf (Fin y) = signed_inf (0 \<le> y)"
| "fp_div f x y = NaN"

fun fp_less :: "fp \<Rightarrow> fp \<Rightarrow> bool" where
  "fp_less (Fin x) (Fin y) = (x < y)"
| "fp_less NaN y = False"
| "fp_less x NaN = False"
| "fp_less NInf y = (y \<noteq> NInf)"
| "fp_less x PInf = (x \<noteq> PInf)"
| "fp_less x y = False"

fun fp_le :: "fp \<Rightarrow> fp \<Rightarrow> bool" where
  "fp_le (Fin x) (Fin y) = (x \<le> y)"
| "fp_le NaN y = False"
| "fp_le x NaN = False"
| "fp_le NInf y = True"
| "fp_le x PInf = True"
| "fp_le x y = False"

text \<open>\<open>std::min\<close>, \<open>std::max\<close> and \<open>std::clamp\<close>, with their behaviour on NaN.\<close>

definition std_min :: "fp \<Rightarrow> fp \<Rightarrow> fp" where
  "std_min a b = (if fp_less b a then b else a)"

definition std_max :: "fp \<Rightarrow> fp \<Rightarrow> fp" where
  "std_max a b = (if fp_less a b then b else a)"

definition std_clamp :: "fp \<Rightarrow> fp \<Rightarrow> fp \<Rightarrow> fp" where
  "std_clamp v lo hi = (if fp_less v lo then lo else if fp_less hi v then hi else v)"

text \<open>Conversions: integer to floating point, and truncation (\<open>None\<close> is undefined behaviour).\<close>

definition fp_of_int :: "fmt \<Rightarrow> int \<Rightarrow> fp" where
  "fp_of_int f i = rnd f (of_int i)"

definition trunc :: "rat \<Rightarrow> int" where
  "trunc x = (if 0 \<le> x then \<lfloor>x\<rfloor> else \<lceil>x\<rceil>)"

fun to_int64 :: "fp \<Rightarrow> int option" where
  "to_int64 (Fin x) = (if - (2 ^ 63) \<le> trunc x \<and> trunc x < 2 ^ 63 then Some (trunc x) else None)"
| "to_int64 _ = None"

section \<open>Rounding lemmas\<close>

lemma powi_mono2: "a \<le> b \<Longrightarrow> (2 :: rat) powi a \<le> 2 powi b"
  by (rule power_int_increasing) auto

lemma powi_less2: "a < b \<longleftrightarrow> (2 :: rat) powi a < 2 powi b"
  using power_int_strict_increasing[of a b "2 :: rat"] power_int_increasing[of b a "2 :: rat"] by fastforce

lemma powi_pos2 [simp]: "0 < (2 :: rat) powi e"
  by (simp add: zero_less_power_int)

lemma flog2_bounds:
  assumes "0 < q"
  shows "2 powi flog2 q \<le> q" "q < 2 powi (flog2 q + 1)"
proof -
  obtain a b where ab: "quotient_of q = (a, b)" by fastforce
  have b: "0 < b" by (rule quotient_of_denom_pos[OF ab])
  have q: "q = of_int a / of_int b" by (rule quotient_of_div[OF ab])
  have a: "0 < a" using assms b unfolding q by (simp add: zero_less_divide_iff)
  have P: "2 powi (bitlen x - 1) \<le> (of_int x :: rat) \<and> of_int x < (2 :: rat) powi bitlen x" if "0 < x" for x
  proof -
    have bl: "0 < bitlen x" using that bitlen_nonneg[of x] bitlen_eq_zero_iff[of x] by linarith
    have "2 ^ nat (bitlen x - 1) \<le> x \<and> x < 2 ^ nat (bitlen x)" by (rule bitlen_bounds[OF that])
    then have "(of_int (2 ^ nat (bitlen x - 1)) :: rat) \<le> of_int x \<and> (of_int x :: rat) < of_int (2 ^ nat (bitlen x))"
      by (simp only: of_int_le_iff of_int_less_iff) 
    then show ?thesis using bl by (simp add: power_int_def)
  qed
  let ?e = "bitlen a - bitlen b"
  have up: "q < 2 powi (?e + 1)"
  proof -
    have "q < 2 powi bitlen a / 2 powi (bitlen b - 1)"
      unfolding q using P[OF a] P[OF b] b by (intro frac_less) (auto simp: a less_imp_le)
    also have "\<dots> = 2 powi (?e + 1)" by (simp add: power_int_diff power_int_add)
    finally show ?thesis .
  qed
  have lo: "2 powi (?e - 1) \<le> q"
  proof -
    have "2 powi (bitlen a - 1) / 2 powi bitlen b \<le> q"
      unfolding q using P[OF a] P[OF b] b by (intro frac_le) (auto simp: a less_imp_le)
    then show ?thesis by (simp add: power_int_diff)
  qed
  show "2 powi flog2 q \<le> q" "q < 2 powi (flog2 q + 1)"
    using up lo by (auto simp: flog2_def ab Let_def)
qed

lemma flog2_unique:
  assumes "2 powi e \<le> q" "q < 2 powi (e + 1)"
  shows "flog2 q = e"
proof -
  have q: "0 < q" using assms(1) powi_pos2[of e] by linarith
  have "flog2 q < e + 1" "e < flog2 q + 1"
    using flog2_bounds[OF q] assms powi_less2[of "flog2 q" "e + 1"] powi_less2[of e "flog2 q + 1"] by linarith+
  then show ?thesis by simp
qed

lemma flog2_mono: "0 < x \<Longrightarrow> x \<le> y \<Longrightarrow> flog2 x \<le> flog2 y"
  using flog2_bounds[of x] flog2_bounds[of y] powi_less2[of "flog2 x" "flog2 y + 1"] by linarith

lemma round_even_bounds: "of_int (round_even x) - x \<le> 1 / 2" "x - of_int (round_even x) \<le> 1 / 2"
  "\<lfloor>x\<rfloor> \<le> round_even x" "round_even x \<le> \<lfloor>x\<rfloor> + 1"
proof -
  define f where "f = \<lfloor>x\<rfloor>"
  have b: "of_int f \<le> x" "x < of_int f + 1" using floor_correct[of x] by (simp_all add: f_def)
  then show "of_int (round_even x) - x \<le> 1 / 2" "x - of_int (round_even x) \<le> 1 / 2"
    unfolding round_even_def Let_def f_def[symmetric] by (auto simp: field_simps split: if_splits)
  show "\<lfloor>x\<rfloor> \<le> round_even x" "round_even x \<le> \<lfloor>x\<rfloor> + 1"
    by (auto simp: round_even_def Let_def)
qed

lemma round_even_int [simp]: "round_even (of_int i) = i"
  by (simp add: round_even_def)

lemma round_even_mono:
  assumes "x \<le> y" shows "round_even x \<le> round_even y"
proof (cases "\<lfloor>x\<rfloor> = \<lfloor>y\<rfloor>")
  case True
  then show ?thesis using assms by (auto simp: round_even_def Let_def)
next
  case False
  then have "\<lfloor>x\<rfloor> + 1 \<le> \<lfloor>y\<rfloor>" using floor_mono[OF assms] by linarith
  then show ?thesis using round_even_bounds(4)[of x] round_even_bounds(3)[of y] by linarith
qed

lemma ulp_pos [simp]: "0 < ulp f a"
  by (cases f) simp

lemma ulp_nz [simp]: "ulp f a \<noteq> 0"
  by (rule less_imp_neq[OF ulp_pos, symmetric])

lemma ulp_mono: "0 < x \<Longrightarrow> x \<le> y \<Longrightarrow> ulp f x \<le> ulp f y"
  using flog2_mono[of x y] by (cases f) (auto intro!: powi_mono2)

lemma rnd_pos_error:
  assumes "0 < a" shows "\<bar>rnd_pos f a - a\<bar> \<le> ulp f a / 2"
proof -
  let ?u = "ulp f a"
  have "\<bar>of_int (round_even (a / ?u)) - a / ?u\<bar> \<le> 1 / 2"
    using round_even_bounds(1,2)[of "a / ?u"] by linarith
  then have "\<bar>of_int (round_even (a / ?u)) - a / ?u\<bar> * ?u \<le> 1 / 2 * ?u"
    by (intro mult_right_mono) (auto simp: less_imp_le)
  also have "\<bar>of_int (round_even (a / ?u)) - a / ?u\<bar> * ?u = \<bar>(of_int (round_even (a / ?u)) - a / ?u) * ?u\<bar>"
    by (simp add: abs_mult less_imp_le)
  also have "(of_int (round_even (a / ?u)) - a / ?u) * ?u = rnd_pos f a - a"
    using assms ulp_pos[of f a] by (simp add: rnd_pos_def left_diff_distrib)
  finally show ?thesis by simp
qed

text \<open>A multiple of a power of two that is not finer than the spacing is kept exactly.\<close>

lemma rnd_pos_exact:
  assumes "a = of_int m * 2 powi e" "0 \<le> m" "m < 2 ^ p" "1 - emax - int p + 1 \<le> e"
  shows "rnd_pos (p, emax) a = a"
proof (cases "m = 0")
  case False
  then have a: "0 < a" using assms(1,2) by simp
  have "(2 :: rat) powi flog2 a \<le> of_int m * 2 powi e" using flog2_bounds(1)[OF a] assms(1) by simp
  also have "\<dots> < 2 powi int p * 2 powi e"
  proof (rule mult_strict_right_mono)
    have "(of_int m :: rat) < of_int (2 ^ p)" using assms(3) by (simp only: of_int_less_iff)
    then show "(of_int m :: rat) < 2 powi int p" by simp
  qed simp
  also have "\<dots> = 2 powi (int p + e)" by (simp add: power_int_add)
  finally have "flog2 a < int p + e" using powi_less2 by blast
  define u where "u = max (flog2 a) (1 - emax) - int p + 1"
  have le: "u \<le> e" using assms(4) \<open>flog2 a < int p + e\<close> by (simp add: u_def)
  have "a / 2 powi u = of_int (m * 2 ^ nat (e - u))"
  proof -
    have "(2 :: rat) powi e = 2 powi (e - u) * 2 powi u" by (simp add: power_int_add[symmetric])
    moreover have "(2 :: rat) powi (e - u) = of_int (2 ^ nat (e - u))"
      using le by (simp add: power_int_def)
    ultimately show ?thesis unfolding assms(1) by simp
  qed
  then have "rnd_pos (p, emax) a = of_int (m * 2 ^ nat (e - u)) * 2 powi u"
    using a by (simp only: rnd_pos_def ulp.simps u_def[symmetric] round_even_int) simp
  also have "\<dots> = a"
    using \<open>a / 2 powi u = _\<close>[symmetric] by (simp del: of_int_mult)
  finally show ?thesis .
qed (use assms in \<open>simp add: rnd_pos_def\<close>)

lemma rnd_pos_nonneg: "0 \<le> a \<Longrightarrow> 0 \<le> rnd_pos f a"
  using round_even_mono[of 0 "a / ulp f a"] round_even_int[of 0] ulp_pos[of f a]
  by (auto simp: rnd_pos_def less_imp_le zero_le_divide_iff)

text \<open>Rounding never crosses a power of two.\<close>

lemma rnd_pos_powi_ge:
  assumes "0 < a" "2 powi e \<le> a" "1 - emax \<le> e" "0 < p"
  shows "2 powi e \<le> rnd_pos (p, emax) a"
proof -
  have "powi_le": "e \<le> flog2 a"
    using assms(2) flog2_bounds(2)[OF assms(1)] powi_less2[of e "flog2 a + 1"] by linarith
  let ?u = "flog2 a - int p + 1"
  have u: "ulp (p, emax) a = 2 powi ?u" using powi_le assms(3) by simp
  have "(2 :: rat) powi flog2 a = of_int (2 ^ (p - 1)) * 2 powi ?u"
  proof -
    have "(2 :: rat) powi flog2 a = 2 powi (int (p - 1)) * 2 powi ?u"
      using assms(4) by (simp add: power_int_add[symmetric] of_nat_diff)
    then show ?thesis by (simp only: power_int_of_nat of_int_power of_int_numeral)
  qed
  then have "of_int (2 ^ (p - 1)) \<le> a / 2 powi ?u"
    using flog2_bounds(1)[OF assms(1)] by (simp add: pos_le_divide_eq)
  then have "2 ^ (p - 1) \<le> round_even (a / 2 powi ?u)"
    using round_even_mono round_even_int by metis
  then have "(of_int (2 ^ (p - 1)) :: rat) * 2 powi ?u \<le> of_int (round_even (a / 2 powi ?u)) * 2 powi ?u"
    by (intro mult_right_mono) (simp_all only: of_int_le_iff less_imp_le[OF powi_pos2])
  then have "2 powi flog2 a \<le> rnd_pos (p, emax) a"
    using assms(1) u \<open>2 powi flog2 a = _\<close> by (simp only: rnd_pos_def) simp
  then show ?thesis using powi_mono2[OF powi_le] by linarith
qed

lemma rnd_pos_powi_le:
  assumes "0 < a" "0 < p"
  shows "rnd_pos (p, emax) a \<le> 2 powi (max (flog2 a) (1 - emax) + 1)"
    and "round_even (a / ulp (p, emax) a) \<le> 2 ^ p"
proof -
  define M where "M = max (flog2 a) (1 - emax)"
  define u where "u = M - int p + 1"
  have split: "(2 :: rat) powi (M + 1) = of_int (2 ^ p) * 2 powi u"
  proof -
    have "(2 :: rat) powi (int p + u) = 2 powi int p * 2 powi u" by (rule power_int_add) simp
    then have "(2 :: rat) powi (M + 1) = 2 powi int p * 2 powi u" by (simp add: u_def)
    then show ?thesis by (simp only: power_int_of_nat of_int_power of_int_numeral)
  qed
  have "a \<le> 2 powi (flog2 a + 1)" using flog2_bounds(2)[OF assms(1)] by simp
  also have "\<dots> \<le> 2 powi (M + 1)" by (rule powi_mono2) (simp add: M_def)
  finally have "a / 2 powi u \<le> of_int (2 ^ p)"
    unfolding split by (simp add: pos_divide_le_eq)
  then have r: "round_even (a / 2 powi u) \<le> 2 ^ p"
    using round_even_mono round_even_int by metis
  have ulp: "ulp (p, emax) a = 2 powi u" by (simp add: u_def M_def)
  show "round_even (a / ulp (p, emax) a) \<le> 2 ^ p" unfolding ulp by (rule r)
  have "(of_int (round_even (a / 2 powi u)) :: rat) * 2 powi u \<le> of_int (2 ^ p) * 2 powi u"
    using r by (intro mult_right_mono) (simp_all only: of_int_le_iff less_imp_le[OF powi_pos2])
  then show "rnd_pos (p, emax) a \<le> 2 powi (max (flog2 a) (1 - emax) + 1)"
    using assms(1) unfolding rnd_pos_def ulp split[unfolded M_def] by simp
qed

lemma rnd_pos_mono:
  assumes "0 \<le> x" "x \<le> y" "0 < fst f"
  shows "rnd_pos f x \<le> rnd_pos f y"
proof (cases "x = 0")
  case True
  then show ?thesis using rnd_pos_nonneg[of y f] assms by (simp add: rnd_pos_def)
next
  case False
  obtain p emax where f: "f = (p, emax)" by fastforce
  have x: "0 < x" and y: "0 < y" using assms False by linarith+
  let ?M = "\<lambda>z. max (flog2 z) (1 - emax)"
  show ?thesis
  proof (cases "?M x = ?M y")
    case True
    then have u: "ulp f x = ulp f y" by (simp add: f)
    have "x / ulp f y \<le> y / ulp f y" using assms(2) by (simp add: divide_right_mono less_imp_le)
    then have "(of_int (round_even (x / ulp f y)) :: rat) \<le> of_int (round_even (y / ulp f y))"
      using round_even_mono of_int_le_iff by blast
    then show ?thesis using x y u by (simp add: rnd_pos_def mult_right_mono less_imp_le)
  next
    case False
    then have lt: "?M x + 1 \<le> flog2 y" "1 - emax \<le> flog2 y" using flog2_mono[OF x assms(2)] by auto
    have "rnd_pos f x \<le> 2 powi (?M x + 1)" using rnd_pos_powi_le(1)[OF x] assms(3) by (simp add: f)
    also have "\<dots> \<le> 2 powi flog2 y" by (rule powi_mono2[OF lt(1)])
    also have "\<dots> \<le> rnd_pos f y"
      using rnd_pos_powi_ge[OF y flog2_bounds(1)[OF y] lt(2)] assms(3) by (simp add: f)
    finally show ?thesis .
  qed
qed

text \<open>The finite numbers of a format.\<close>

definition representable :: "fmt \<Rightarrow> rat \<Rightarrow> bool" where
  "representable f q \<longleftrightarrow> \<bar>q\<bar> < fp_max f \<and>
     (\<exists>m e. \<bar>q\<bar> = of_int m * 2 powi e \<and> 0 \<le> m \<and> m < 2 ^ fst f \<and> 2 - snd f - int (fst f) \<le> e)"

lemma rnd_exact: "representable f q \<Longrightarrow> rnd f q = Fin q"
proof -
  assume r: "representable f q"
  then obtain m e where "\<bar>q\<bar> = of_int m * 2 powi e" "0 \<le> m" "m < 2 ^ fst f" "1 - snd f - int (fst f) + 1 \<le> e"
    by (auto simp: representable_def algebra_simps)
  then have "rnd_pos (fst f, snd f) \<bar>q\<bar> = \<bar>q\<bar>" by (rule rnd_pos_exact)
  then show ?thesis using r by (auto simp: rnd_def representable_def Let_def)
qed

lemma rnd_pos_representable:
  assumes "0 \<le> a" "0 < p" "rnd_pos (p, emax) a < fp_max (p, emax)"
  shows "representable (p, emax) (rnd_pos (p, emax) a)"
proof (cases "a = 0")
  case True
  then show ?thesis
    by (simp add: representable_def rnd_pos_def fp_max_def) (rule exI[of _ "2 - emax - int p"], simp)
next
  case False
  then have a: "0 < a" using assms(1) by simp
  define u where "u = max (flog2 a) (1 - emax) - int p + 1"
  define m where "m = round_even (a / 2 powi u)"
  have ulp: "ulp (p, emax) a = 2 powi u" by (simp add: u_def)
  have val: "rnd_pos (p, emax) a = of_int m * 2 powi u" using a by (simp only: rnd_pos_def ulp m_def) simp
  have m: "m \<le> 2 ^ p" using rnd_pos_powi_le(2)[OF a assms(2), of emax] unfolding ulp m_def .
  have m0: "0 \<le> m" unfolding m_def using round_even_mono[of 0 "a / 2 powi u"] round_even_int[of 0] a by simp
  have u: "2 - emax - int p \<le> u" by (simp add: u_def)
  have nonneg: "\<bar>rnd_pos (p, emax) a\<bar> = rnd_pos (p, emax) a" using rnd_pos_nonneg[OF assms(1)] by simp
  show ?thesis
  proof (cases "m = 2 ^ p")
    case False
    then show ?thesis
      using m m0 u assms(3) nonneg unfolding representable_def val[symmetric]
      by (intro conjI exI[of _ m] exI[of _ u]) (simp_all add: val)
  next
    case True
    have "rnd_pos (p, emax) a = of_int (2 ^ (p - 1)) * 2 powi (u + 1)"
      unfolding val True using assms(2) by (cases p) (simp_all add: power_int_add)
    then show ?thesis
      using u assms(2,3) nonneg unfolding representable_def
      by (intro conjI exI[of _ "2 ^ (p - 1)"] exI[of _ "u + 1"]) (simp_all add: power_strict_increasing)
  qed
qed

lemma representable_minus [simp]: "representable f (- q) = representable f q"
  by (simp add: representable_def)

lemma rnd_representable: "rnd f q = Fin r \<Longrightarrow> 0 < fst f \<Longrightarrow> representable f r"
  using rnd_pos_representable[of "\<bar>q\<bar>" "fst f" "snd f"]
  by (auto simp: rnd_def Let_def split: if_splits)

lemma rnd_mono: "x \<le> y \<Longrightarrow> 0 < fst f \<Longrightarrow> fp_le (rnd f x) (rnd f y)"
  using rnd_pos_mono[of "\<bar>x\<bar>" "\<bar>y\<bar>" f] rnd_pos_mono[of "\<bar>y\<bar>" "\<bar>x\<bar>" f]
    rnd_pos_nonneg[of "\<bar>x\<bar>" f] rnd_pos_nonneg[of "\<bar>y\<bar>" f]
  by (auto simp: rnd_def Let_def)

lemma rnd_0 [simp]: "rnd f 0 = Fin 0"
  by (simp add: rnd_def rnd_pos_def fp_max_def)

lemma representable_int:
  assumes "\<bar>i\<bar> < 2 ^ fst f" "1 < fst f" "int (fst f) \<le> snd f + 1"
  shows "representable f (of_int i)"
proof -
  have "(of_int \<bar>i\<bar> :: rat) < of_int (2 ^ fst f)" using assms(1) by (simp only: of_int_less_iff)
  also have "\<dots> = 2 powi int (fst f)" by simp
  also have "\<dots> \<le> fp_max f" unfolding fp_max_def by (rule powi_mono2) (use assms in simp)
  finally have "\<bar>of_int i :: rat\<bar> < fp_max f" by simp
  moreover have "\<bar>of_int i :: rat\<bar> = of_int \<bar>i\<bar> * 2 powi 0 \<and> 0 \<le> \<bar>i\<bar> \<and> \<bar>i\<bar> < 2 ^ fst f \<and> 2 - snd f - int (fst f) \<le> 0"
    using assms by simp
  ultimately show ?thesis unfolding representable_def by blast
qed

lemma fp_le_refl_Fin [simp]: "fp_le (Fin x) (Fin x)" by simp

lemma rnd_not_nan [simp]: "rnd f q \<noteq> NaN"
  by (simp add: rnd_def Let_def)

end
