(* ===== verification/Backoff.thy ===== *)
theory Backoff
  imports Ieee
begin

text \<open>
  The reconnect delay of core/src/backoff.cc, in binary64 arithmetic.  Durations are
  64-bit millisecond counts; \<open>None\<close> is the undefined behaviour of converting a value
  outside the integer range.
\<close>

record BackoffPolicy =
  base :: int
  cap :: int

definition default_policy :: BackoffPolicy where
  "default_policy = \<lparr>base = 200, cap = 30000\<rparr>"

text \<open>\<open>std::pow(2.0, n)\<close> is exact and overflows to infinity.\<close>

definition pow2 :: "nat \<Rightarrow> fp" where
  "pow2 n = (if n < 1024 then Fin (2 ^ n) else PInf)"

definition BackoffCeiling :: "u32 \<Rightarrow> BackoffPolicy \<Rightarrow> int option" where
  "BackoffCeiling attempt policy =
     (let limit = fp_mul binary64 (fp_of_int binary64 (base policy)) (pow2 (unat attempt))
      in if fp_le (fp_of_int binary64 (cap policy)) limit then Some (cap policy)
         else to_int64 limit)"

text \<open>\<open>std::nextafter(1.0, 0.0)\<close>\<close>

definition below_one :: rat where
  "below_one = 1 - 2 powi (-53)"

definition FullJitterBackoff :: "u32 \<Rightarrow> BackoffPolicy \<Rightarrow> fp \<Rightarrow> int option" where
  "FullJitterBackoff attempt policy u =
     (let clamped = std_clamp u (Fin 0) (Fin below_one)
      in case BackoffCeiling attempt policy of
           None \<Rightarrow> None
         | Some limit \<Rightarrow> to_int64 (fp_mul binary64 clamped (fp_of_int binary64 limit)))"

section \<open>Lemmas\<close>

lemma fst_binary64 [simp]: "fst binary64 = 53" "snd binary64 = 1023" "0 < fst binary64"
  by (simp_all add: binary64_def)

lemma int53: "\<bar>i\<bar> < 2 ^ 53 \<Longrightarrow> fp_of_int binary64 i = Fin (of_int i)"
  by (simp add: fp_of_int_def rnd_exact representable_int)

lemma trunc_of_int [simp]: "trunc (of_int i) = i"
  by (simp add: trunc_def)

lemma fp_max64: "fp_max binary64 = 2 powi 1024"
  by (simp add: fp_max_def)

text \<open>Scaling an integer by a power of two is exact or overflows.\<close>

lemma rnd_scaled:
  assumes "0 < b" "b < 2 ^ 53" "n < 1024"
  shows "rnd binary64 (of_int (b * 2 ^ n)) = Fin (of_int (b * 2 ^ n)) \<or> rnd binary64 (of_int (b * 2 ^ n)) = PInf"
proof -
  have nn: "0 \<le> b * 2 ^ n" using assms(1) by simp
  have q: "\<bar>of_int (b * 2 ^ n) :: rat\<bar> = of_int b * 2 powi int n" using assms(1) by simp
  have "rnd_pos (53, 1023) (of_int b * 2 powi int n) = of_int b * 2 powi int n"
    by (rule rnd_pos_exact[OF refl]) (use assms in auto)
  then have "rnd_pos binary64 \<bar>of_int (b * 2 ^ n)\<bar> = of_int (b * 2 ^ n)"
    unfolding q by (simp add: binary64_def)
  moreover have "\<not> of_int (b * 2 ^ n) < (0 :: rat)" using nn by (simp only: of_int_less_0_iff not_less)
  ultimately show ?thesis unfolding rnd_def Let_def by simp
qed

lemma trunc_range: "0 \<le> x \<Longrightarrow> x < 2 ^ 63 \<Longrightarrow> - (2 ^ 63) \<le> trunc x \<and> trunc x < 2 ^ 63"
  by (simp add: trunc_def floor_less_iff)

lemma BackoffCeiling_eq:
  assumes "0 < base pol" "base pol < 2 ^ 53" "0 \<le> cap pol" "cap pol < 2 ^ 53"
  shows "BackoffCeiling attempt pol = Some (min (base pol * 2 ^ unat attempt) (cap pol))"
proof -
  let ?b = "base pol" and ?c = "cap pol" and ?n = "unat attempt"
  define v where "v = ?b * 2 ^ ?n"
  have v: "0 < v" using assms(1) by (simp add: v_def)
  have conv: "fp_of_int binary64 ?b = Fin (of_int ?b)" "fp_of_int binary64 ?c = Fin (of_int ?c)"
    using assms by (auto intro: int53)
  have prod: "fp_mul binary64 (fp_of_int binary64 ?b) (pow2 ?n) = Fin (of_int v) \<or>
      fp_mul binary64 (fp_of_int binary64 ?b) (pow2 ?n) = PInf \<and> ?c \<le> v"
  proof (cases "?n < 1024")
    case False
    have "?c \<le> 2 ^ 53" using assms by simp
    also have "\<dots> \<le> (2 :: int) ^ ?n" by (rule power_increasing) (use False in auto)
    also have "\<dots> \<le> v" using assms(1) by (simp add: v_def)
    finally show ?thesis using False conv assms(1) by (simp add: pow2_def signed_inf_def)
  next
    case True
    have eq: "fp_mul binary64 (fp_of_int binary64 ?b) (pow2 ?n) = rnd binary64 (of_int v)"
      using True conv by (simp add: pow2_def v_def)
    have "rnd binary64 (of_int v) = Fin (of_int v)" if "v < ?c"
      using int53[of v] that v assms(4) by (simp add: fp_of_int_def)
    then show ?thesis using rnd_scaled[OF assms(1,2) True, folded v_def] unfolding eq by fastforce
  qed
  show ?thesis
    unfolding BackoffCeiling_def Let_def v_def[symmetric] using prod
  proof
    assume p: "fp_mul binary64 (fp_of_int binary64 ?b) (pow2 ?n) = Fin (of_int v)"
    show "(if fp_le (fp_of_int binary64 ?c) (fp_mul binary64 (fp_of_int binary64 ?b) (pow2 ?n)) then Some ?c
        else to_int64 (fp_mul binary64 (fp_of_int binary64 ?b) (pow2 ?n))) = Some (min v ?c)"
      unfolding p conv(2) using v assms(4) by simp
  next
    assume p: "fp_mul binary64 (fp_of_int binary64 ?b) (pow2 ?n) = PInf \<and> ?c \<le> v"
    then show "(if fp_le (fp_of_int binary64 ?c) (fp_mul binary64 (fp_of_int binary64 ?b) (pow2 ?n)) then Some ?c
        else to_int64 (fp_mul binary64 (fp_of_int binary64 ?b) (pow2 ?n))) = Some (min v ?c)"
      unfolding conv(2) by simp
  qed
qed

text \<open>The largest factor below one never rounds up to the ceiling.\<close>

lemma below_one_product:
  assumes "0 < c" "c < 2 ^ 53"
  shows "rnd_pos binary64 (below_one * of_int c) < of_int c"
proof -
  define q :: rat where "q = below_one * of_int c"
  have b1: "0 < below_one" "below_one < 1" "1 / 2 \<le> below_one"
    by (simp_all add: below_one_def power_int_def power_divide)
  have q: "0 < q" "q < of_int c" using assms(1) b1 by (simp_all add: q_def)
  have cq: "of_int c - q = of_int c * 2 powi (-53)" by (simp add: q_def below_one_def algebra_simps)
  have half: "1 / 2 \<le> q"
    using assms(1) b1 mult_mono[of "1/2" below_one 1 "of_int c :: rat"] by (simp add: q_def)
  have "- 1 \<le> flog2 q"
    using half flog2_bounds(2)[OF q(1)] powi_less2[of "-1" "flog2 q + 1"] by (simp add: power_int_def)
  then have "ulp binary64 q / 2 = 2 powi flog2 q * 2 powi (-53)"
    by (simp add: binary64_def power_int_add[symmetric] power_int_diff max_def power_int_add)
  also have "\<dots> \<le> q * 2 powi (-53)" using flog2_bounds(1)[OF q(1)] by (intro mult_right_mono) auto
  also have "\<dots> < of_int c - q" unfolding cq using q(2) by simp
  finally have "ulp binary64 q / 2 < of_int c - q" .
  then show ?thesis using rnd_pos_error[OF q(1), of binary64] unfolding q_def by linarith
qed

section \<open>Properties\<close>

text \<open>
  C32: for a policy whose base and cap are positive and below \<open>2 ^ 53\<close> milliseconds, the
  ceiling of attempt \<open>n\<close> is exactly \<open>min (base * 2 ^ n) cap\<close>, for every 32-bit attempt count,
  and the jittered delay is defined and lies in \<open>[0, ceiling)\<close> for every random input,
  including infinities and values outside \<open>[0, 1)\<close>.
\<close>

theorem FullJitterBackoff_bounds:
  assumes "0 < base pol" "base pol < 2 ^ 53" "0 < cap pol" "cap pol < 2 ^ 53" "u \<noteq> NaN"
  shows "BackoffCeiling attempt pol = Some (min (base pol * 2 ^ unat attempt) (cap pol)) \<and>
    (\<exists>d. FullJitterBackoff attempt pol u = Some d \<and> 0 \<le> d \<and> d < min (base pol * 2 ^ unat attempt) (cap pol))"
proof -
  define c where "c = min (base pol * 2 ^ unat attempt) (cap pol)"
  have ceil: "BackoffCeiling attempt pol = Some c"
    using BackoffCeiling_eq[of pol attempt] assms by (simp add: c_def)
  have "0 < base pol * 2 ^ unat attempt" using assms(1) by simp
  then have c: "0 < c" "c < 2 ^ 53" using assms(3,4) by (simp_all add: c_def)
  have b1: "0 < below_one" "below_one < 1" by (simp_all add: below_one_def power_int_def power_divide)
  have "\<exists>x. std_clamp u (Fin 0) (Fin below_one) = Fin x \<and> 0 \<le> x \<and> x \<le> below_one"
    using assms(5) b1 by (cases u) (auto simp: std_clamp_def)
  then obtain x where x: "std_clamp u (Fin 0) (Fin below_one) = Fin x" "0 \<le> x" "x \<le> below_one" by blast
  define r where "r = rnd_pos binary64 (x * of_int c)"
  have xc: "0 \<le> x * of_int c" using x c by simp
  have r: "0 \<le> r" "r < of_int c"
    using rnd_pos_nonneg[OF xc] rnd_pos_mono[OF xc, of "below_one * of_int c" binary64] x(3) c
      below_one_product[OF c] by (auto simp: r_def)
  have rc: "of_int c < (2 ^ 53 :: rat)" using c(2) by (metis of_int_less_iff of_int_numeral of_int_power)
  have "(2 ^ 53 :: rat) \<le> fp_max binary64"
    using powi_mono2[of 53 1024] by (simp add: fp_max64 power_int_def)
  then have "rnd binary64 (x * of_int c) = Fin r"
    using r rc xc by (simp add: rnd_def r_def Let_def not_less)
  then have prod: "fp_mul binary64 (Fin x) (fp_of_int binary64 c) = Fin r"
    using int53[of c] c by simp
  have t: "trunc r = \<lfloor>r\<rfloor>" "0 \<le> \<lfloor>r\<rfloor>" "\<lfloor>r\<rfloor> < c" using r by (simp_all add: trunc_def floor_less_iff)
  then have "FullJitterBackoff attempt pol u = Some \<lfloor>r\<rfloor>"
    using c(2) r rc by (simp add: FullJitterBackoff_def Let_def ceil x(1) prod)
  then show ?thesis using ceil t unfolding c_def by blast
qed

theorem FullJitterBackoff_bounds_witness:
  "BackoffCeiling 3 default_policy = Some (min (200 * 2 ^ unat (3 :: u32)) 30000) \<and>
    (\<exists>d. FullJitterBackoff 3 default_policy PInf = Some d \<and> 0 \<le> d \<and> d < min (200 * 2 ^ unat (3 :: u32)) 30000)"
  using FullJitterBackoff_bounds[of default_policy PInf 3] by (simp add: default_policy_def)

end
