(* ===== verification/TokenBucket.thy ===== *)
theory TokenBucket
  imports Backoff
begin

text \<open>
  The rate limiter of core/include/ridgeline/token_bucket.h in binary64 arithmetic.  Times
  are signed 64-bit nanosecond counts; a difference outside that range is undefined
  behaviour, \<open>None\<close>.
\<close>

record token_bucket =
  tb_capacity :: fp
  tb_rate :: fp
  tokens :: fp
  last_refill_ns :: int

definition TokenBucket :: "fp \<Rightarrow> fp \<Rightarrow> int \<Rightarrow> token_bucket" where
  "TokenBucket capacity tokens_per_second now_ns =
     \<lparr>tb_capacity = capacity, tb_rate = tokens_per_second, tokens = capacity, last_refill_ns = now_ns\<rparr>"

definition Refill :: "int \<Rightarrow> token_bucket \<Rightarrow> token_bucket option" where
  "Refill now_ns b =
     (if now_ns \<le> last_refill_ns b then Some b
      else if now_ns - last_refill_ns b \<ge> 2 ^ 63 then None
      else (let elapsed_seconds = fp_div binary64 (fp_of_int binary64 (now_ns - last_refill_ns b)) (Fin 1000000000)
            in Some (b\<lparr>tokens := std_min (tb_capacity b)
                         (fp_add binary64 (tokens b) (fp_mul binary64 elapsed_seconds (tb_rate b))),
                       last_refill_ns := now_ns\<rparr>)))"

definition TryConsume :: "fp \<Rightarrow> int \<Rightarrow> token_bucket \<Rightarrow> (bool \<times> token_bucket) option" where
  "TryConsume cost now_ns b =
     (case Refill now_ns b of
        None \<Rightarrow> None
      | Some b' \<Rightarrow>
          if fp_less (tokens b') cost then Some (False, b')
          else Some (True, b'\<lparr>tokens := fp_sub binary64 (tokens b') cost\<rparr>))"

definition TokensAvailable :: "int \<Rightarrow> token_bucket \<Rightarrow> (fp \<times> token_bucket) option" where
  "TokensAvailable now_ns b =
     (case Refill now_ns b of None \<Rightarrow> None | Some b' \<Rightarrow> Some (tokens b', b'))"

section \<open>Invariant\<close>

text \<open>Finite capacity and rate, and between zero and \<open>capacity\<close> tokens.\<close>

definition bucket_ok :: "token_bucket \<Rightarrow> bool" where
  "bucket_ok b \<longleftrightarrow> (\<exists>c r t. tb_capacity b = Fin c \<and> tb_rate b = Fin r \<and> tokens b = Fin t \<and>
     0 \<le> r \<and> 0 \<le> t \<and> t \<le> c \<and> representable binary64 c \<and> representable binary64 t)"

lemma rnd_nonneg:
  assumes "0 \<le> q"
  shows "rnd binary64 q = PInf \<or> (\<exists>r. rnd binary64 q = Fin r \<and> 0 \<le> r \<and> representable binary64 r)"
proof -
  have "fp_le (Fin 0) (rnd binary64 q)" using rnd_mono[OF assms, of binary64] by simp
  then show ?thesis using rnd_representable[of binary64 q] by (cases "rnd binary64 q") auto
qed

lemma int64_double:
  assumes "0 < d" "d < 2 ^ 63"
  obtains x where "fp_of_int binary64 d = Fin x" "0 \<le> x"
proof -
  have "representable binary64 (2 powi 63)"
    unfolding representable_def
    by (intro conjI exI[of _ 1] exI[of _ 63]) (use powi_less2[of 63 1024] in \<open>auto simp: fp_max64\<close>)
  then have "rnd binary64 (2 powi 63) = Fin (2 powi 63)" by (rule rnd_exact)
  moreover have "(of_int d :: rat) \<le> 2 powi 63"
    using assms(2) of_int_less_iff[of d "2 ^ 63", where 'a = rat] by (simp add: power_int_def)
  ultimately have "fp_le (rnd binary64 (of_int d)) (Fin (2 powi 63))"
    using rnd_mono[of "of_int d" "2 powi 63" binary64] by simp
  then show thesis
    using that assms(1) rnd_nonneg[of "of_int d"] by (auto simp: fp_of_int_def)
qed

text \<open>A refill never takes tokens away and never exceeds the capacity.\<close>

lemma Refill_ok:
  assumes "bucket_ok b" "Refill now b = Some b'"
  shows "bucket_ok b' \<and> tb_capacity b' = tb_capacity b \<and> tb_rate b' = tb_rate b \<and> fp_le (tokens b) (tokens b')"
proof -
  obtain c r t where b: "tb_capacity b = Fin c" "tb_rate b = Fin r" "tokens b = Fin t" "0 \<le> r" "0 \<le> t" "t \<le> c"
    "representable binary64 c" "representable binary64 t"
    using assms(1) by (auto simp: bucket_ok_def)
  show ?thesis
  proof (cases "now \<le> last_refill_ns b")
    case True
    then show ?thesis using assms b by (simp add: Refill_def)
  next
    case False
    define d where "d = now - last_refill_ns b"
    have d: "0 < d" "d < 2 ^ 63" using False assms(2) by (auto simp: Refill_def d_def split: if_splits)
    obtain x where x: "fp_of_int binary64 d = Fin x" "0 \<le> x" by (rule int64_double[OF d])
    define s where "s = fp_mul binary64 (fp_div binary64 (fp_of_int binary64 d) (Fin 1000000000)) (Fin r)"
    have b': "b' = b\<lparr>tokens := std_min (Fin c) (fp_add binary64 (Fin t) s), last_refill_ns := now\<rparr>"
      using assms(2) False d(2) b by (simp add: Refill_def Let_def s_def d_def)
    have s: "s = PInf \<or> (\<exists>y. s = Fin y \<and> 0 \<le> y)"
    proof -
      have q: "0 \<le> x / 1000000000" using x by simp
      have "fp_le (rnd binary64 (x / 1000000000)) (rnd binary64 x)" using x by (intro rnd_mono) auto
      moreover have "rnd binary64 x = Fin x"
        using x rnd_representable rnd_exact by (metis fp_of_int_def fst_binary64(3))
      ultimately obtain y where y: "rnd binary64 (x / 1000000000) = Fin y" "0 \<le> y"
        using rnd_nonneg[OF q] by auto
      then have "0 \<le> y * r" using b(4) by simp
      then show ?thesis using y x rnd_nonneg[of "y * r"] by (auto simp: s_def)
    qed
    have add: "fp_add binary64 (Fin t) s = PInf \<or> (\<exists>z. fp_add binary64 (Fin t) s = Fin z \<and> t \<le> z \<and> representable binary64 z)"
    proof -
      have "rnd binary64 (t + y) = PInf \<or> (\<exists>z. rnd binary64 (t + y) = Fin z \<and> t \<le> z \<and> representable binary64 z)"
        if "0 \<le> y" for y
      proof -
        have "fp_le (rnd binary64 t) (rnd binary64 (t + y))" using that by (intro rnd_mono) auto
        moreover have "0 \<le> t + y" using that b by simp
        ultimately show ?thesis
          using rnd_exact[OF b(8)] rnd_nonneg[of "t + y"] by auto
      qed
      note add_fin = this
      from s show ?thesis
      proof (elim disjE exE conjE)
        fix y assume "s = Fin y" "0 \<le> y"
        then show ?thesis using add_fin[of y] by simp
      qed simp
    qed
    then show ?thesis
      using b unfolding b' by (auto simp: std_min_def bucket_ok_def)
  qed
qed

lemma TryConsume_ok:
  assumes "bucket_ok b" "TryConsume (Fin k) now b = Some (r, b')" "0 \<le> k"
  shows "bucket_ok b' \<and> tb_capacity b' = tb_capacity b"
proof -
  obtain b1 where b1: "Refill now b = Some b1"
    "(r, b') = (if fp_less (tokens b1) (Fin k) then (False, b1) else (True, b1\<lparr>tokens := fp_sub binary64 (tokens b1) (Fin k)\<rparr>))"
    using assms(2) by (auto simp: TryConsume_def split: option.splits if_splits)
  have ok: "bucket_ok b1" "tb_capacity b1 = tb_capacity b" using Refill_ok[OF assms(1) b1(1)] by auto
  then obtain c t where t: "tb_capacity b1 = Fin c" "tokens b1 = Fin t" "0 \<le> t" "t \<le> c" "representable binary64 t"
    by (auto simp: bucket_ok_def)
  have "bucket_ok (b1\<lparr>tokens := fp_sub binary64 (Fin t) (Fin k)\<rparr>)" if "k \<le> t"
  proof -
    have "fp_le (rnd binary64 (t - k)) (rnd binary64 t)" using assms(3) by (intro rnd_mono) auto
    then have "\<exists>u. rnd binary64 (t - k) = Fin u \<and> 0 \<le> u \<and> u \<le> t \<and> representable binary64 u"
      using rnd_exact[OF t(5)] rnd_nonneg[of "t - k"] that by auto
    then show ?thesis using ok(1) t by (auto simp: bucket_ok_def fp_sub_def)
  qed
  then show ?thesis using b1(2) ok t by (auto split: if_splits)
qed

text \<open>A sequence of calls, each with its cost and its time; the answers in order.\<close>

fun consume_all :: "(fp \<times> int) list \<Rightarrow> token_bucket \<Rightarrow> (bool list \<times> token_bucket) option" where
  "consume_all [] b = Some ([], b)"
| "consume_all ((cost, now) # calls) b =
     (case TryConsume cost now b of
        None \<Rightarrow> None
      | Some (r, b') \<Rightarrow> (case consume_all calls b' of None \<Rightarrow> None | Some (rs, b'') \<Rightarrow> Some (r # rs, b'')))"

text \<open>Below \<open>2 ^ 53\<close> one token is subtracted exactly.\<close>

lemma representable_minus_one:
  assumes "representable binary64 t" "1 \<le> t" "t \<le> 2 ^ 53"
  shows "representable binary64 (t - 1)"
proof -
  obtain m e where me: "\<bar>t\<bar> = of_int m * 2 powi e" "0 \<le> m" "m < 2 ^ 53" "2 - 1023 - 53 \<le> e"
    using assms(1) by (auto simp: representable_def)
  have t: "t = of_int m * 2 powi e" using me(1) assms(2) by simp
  have max: "\<bar>t - 1\<bar> < fp_max binary64" using assms by (simp add: representable_def)
  show ?thesis
  proof (cases "0 \<le> e")
    case True
    then have "t = of_int (m * 2 ^ nat e)" unfolding t by (simp add: power_int_def)
    then have "t - 1 = of_int (m * 2 ^ nat e - 1)" by simp
    moreover have "\<bar>m * 2 ^ nat e - 1\<bar> < 2 ^ 53"
    proof -
      have "(of_int 1 :: rat) \<le> of_int (m * 2 ^ nat e)" "of_int (m * 2 ^ nat e) \<le> (of_int (2 ^ 53) :: rat)"
        using assms(2,3) \<open>t = of_int _\<close> by simp_all
      then show ?thesis unfolding of_int_le_iff by simp
    qed
    ultimately show ?thesis using representable_int[of "m * 2 ^ nat e - 1" binary64] by simp
  next
    case False
    define k where "k = nat (- e)"
    have one: "(2 :: rat) ^ k * 2 powi e = 1"
      using False by (simp add: k_def power_int_def power_mult_distrib[symmetric])
    have eq: "t - 1 = of_int (m - 2 ^ k) * 2 powi e" unfolding t using one by (simp add: algebra_simps)
    have "0 \<le> of_int (m - 2 ^ k) * (2 :: rat) powi e" unfolding eq[symmetric] using assms(2) by simp
    then have "0 \<le> m - 2 ^ k" using powi_pos2[of e] by (simp add: zero_le_mult_iff not_le del: of_int_diff)
    moreover have "m - 2 ^ k < 2 ^ 53" using me(3) by (smt (verit) zero_le_power)
    moreover have "\<bar>t - 1\<bar> = of_int (m - 2 ^ k) * 2 powi e" using eq assms(2) by simp
    ultimately show ?thesis unfolding representable_def using max me(4)
      by (intro conjI exI[of _ "m - 2 ^ k"] exI[of _ e]) simp_all
  qed
qed

lemma TryConsume_same_time:
  assumes "tokens b = Fin t" "now \<le> last_refill_ns b"
  shows "TryConsume (Fin 1) now b =
    Some (if t < 1 then (False, b) else (True, b\<lparr>tokens := rnd binary64 (t - 1)\<rparr>))"
  using assms by (simp add: TryConsume_def Refill_def fp_sub_def)

section \<open>Properties\<close>

text \<open>
  C33: under any sequence of requests with non-negative finite costs, at any times, forward or
  backward, the number of tokens stays between zero and the capacity, rounding included.
\<close>

theorem bucket_within_capacity:
  assumes "bucket_ok b" "\<forall>(cost, now) \<in> set calls. \<exists>k. cost = Fin k \<and> 0 \<le> k"
    and "consume_all calls b = Some (rs, b')"
  shows "\<exists>c t. tb_capacity b' = Fin c \<and> tb_capacity b = Fin c \<and> tokens b' = Fin t \<and> 0 \<le> t \<and> t \<le> c"
proof -
  have "bucket_ok b' \<and> tb_capacity b' = tb_capacity b" using assms
  proof (induction calls arbitrary: b rs)
    case (Cons call calls)
    obtain k now where call: "call = (Fin k, now)" "0 \<le> k" using Cons.prems(2) by auto
    obtain r b1 rs1 where 1: "TryConsume (Fin k) now b = Some (r, b1)" "consume_all calls b1 = Some (rs1, b')"
      using Cons.prems(3) call by (auto split: option.splits)
    show ?case using Cons.IH[OF _ _ 1(2)] Cons.prems(2) TryConsume_ok[OF Cons.prems(1) 1(1) call(2)] by simp
  qed simp
  then show ?thesis unfolding bucket_ok_def by metis
qed

lemma TokenBucket_ok:
  assumes "representable binary64 c" "0 \<le> c" "0 \<le> r"
  shows "bucket_ok (TokenBucket (Fin c) (Fin r) now)"
  using assms by (simp add: bucket_ok_def TokenBucket_def)

lemma representable_small: "0 \<le> i \<Longrightarrow> i < 2 ^ 53 \<Longrightarrow> representable binary64 (of_int i)"
  by (rule representable_int) auto

theorem bucket_within_capacity_witness:
  "\<exists>rs b' c t. consume_all [(Fin 1, 0), (Fin 1, -5)] (TokenBucket (Fin 2) (Fin 3) 0) = Some (rs, b') \<and>
    tb_capacity b' = Fin c \<and> tokens b' = Fin t \<and> 0 \<le> t \<and> t \<le> c"
proof -
  let ?b = "TokenBucket (Fin 2) (Fin 3) 0"
  have ok: "bucket_ok ?b" using TokenBucket_ok[of 2 3 0] representable_small[of 2] by simp
  have "\<exists>rs b'. consume_all [(Fin 1, 0), (Fin 1, -5)] ?b = Some (rs, b')"
    by (simp add: TryConsume_def Refill_def TokenBucket_def)
  then obtain rs b' where c: "consume_all [(Fin 1, 0), (Fin 1, -5)] ?b = Some (rs, b')" by blast
  show ?thesis using bucket_within_capacity[OF ok _ c] c by auto
qed

text \<open>
  In a burst, that is while the clock does not advance, a bucket holding \<open>t \<le> 2 ^ 53\<close> tokens
  admits exactly the first \<open>\<lfloor>t\<rfloor>\<close> of any number of unit-cost requests and refuses the rest.
\<close>

lemma burst_admits_floor:
  assumes "bucket_ok b" "tokens b = Fin t" "t \<le> 2 ^ 53" "now \<le> last_refill_ns b"
  shows "\<exists>b'. consume_all (replicate n (Fin 1, now)) b =
    Some (replicate (min n (nat \<lfloor>t\<rfloor>)) True @ replicate (n - nat \<lfloor>t\<rfloor>) False, b')"
  using assms
proof (induction n arbitrary: b t)
  case (Suc n)
  have t: "0 \<le> t" "representable binary64 t" using Suc.prems(1,2) by (auto simp: bucket_ok_def)
  show ?case
  proof (cases "t < 1")
    case True
    then have f: "nat \<lfloor>t\<rfloor> = 0" by (simp add: floor_less_iff)
    then show ?thesis using Suc.IH[OF Suc.prems] TryConsume_same_time[OF Suc.prems(2,4)] True by auto
  next
    case False
    let ?b = "b\<lparr>tokens := Fin (t - 1)\<rparr>"
    have r: "rnd binary64 (t - 1) = Fin (t - 1)"
      using representable_minus_one[OF t(2)] False Suc.prems(3) by (intro rnd_exact) simp
    have step: "TryConsume (Fin 1) now b = Some (True, ?b)"
      using TryConsume_same_time[OF Suc.prems(2,4)] False r by simp
    have "bucket_ok ?b" using TryConsume_ok[OF Suc.prems(1) step] by simp
    then obtain b' where "consume_all (replicate n (Fin 1, now)) ?b =
        Some (replicate (min n (nat \<lfloor>t - 1\<rfloor>)) True @ replicate (n - nat \<lfloor>t - 1\<rfloor>) False, b')"
      using Suc.IH[of ?b "t - 1"] Suc.prems(3,4) by auto
    moreover have "nat \<lfloor>t\<rfloor> = Suc (nat \<lfloor>t - 1\<rfloor>)" using False by (simp add: le_floor_iff Suc_nat_eq_nat_zadd1)
    ultimately show ?thesis using step by simp
  qed
qed simp

lemma burst_admits_floor_example:
  "\<exists>b'. consume_all (replicate 5 (Fin 1, 7)) (TokenBucket (Fin 3) (Fin 1) 7) =
    Some (replicate (min 5 (nat \<lfloor>3 :: rat\<rfloor>)) True @ replicate (5 - nat \<lfloor>3 :: rat\<rfloor>) False, b')"
  using burst_admits_floor[of "TokenBucket (Fin 3) (Fin 1) 7" 3 7 5] TokenBucket_ok[of 3 1 7] representable_small[of 3]
  by (simp add: TokenBucket_def)

end
