(* ===== verification/KofN.thy ===== *)
theory KofN
  imports Prelude
begin

text \<open>
  The K-of-N confirmation window of core/include/ridgeline/kofn_confirmer.h, with its
  32-bit counter, and its specification as a count over the last \<open>n\<close> inputs.
\<close>

record kofn =
  k_ok :: u32
  n_ok :: u32
  window :: "bool list"
  positive_count :: u32

text \<open>The constructor aborts (\<open>None\<close>) on a threshold that can never or always be met.\<close>

definition KOfNConfirmer :: "u32 \<Rightarrow> u32 \<Rightarrow> kofn option" where
  "KOfNConfirmer k n =
     (if n = 0 \<or> k = 0 \<or> k > n then None
      else Some \<lparr>k_ok = k, n_ok = n, window = [], positive_count = 0\<rparr>)"

definition Update :: "bool \<Rightarrow> kofn \<Rightarrow> bool \<times> kofn" where
  "Update raw_positive c =
     (let c1 = c\<lparr>window := window c @ [raw_positive]\<rparr>;
          c2 = (if raw_positive then c1\<lparr>positive_count := positive_count c1 + 1\<rparr> else c1);
          c3 = (if length (window c2) > unat (n_ok c2)
                then (let c' = (if hd (window c2) then c2\<lparr>positive_count := positive_count c2 - 1\<rparr> else c2)
                      in c'\<lparr>window := tl (window c')\<rparr>)
                else c2)
      in (k_ok c3 \<le> positive_count c3, c3))"

definition Reset :: "kofn \<Rightarrow> kofn" where
  "Reset c = c\<lparr>window := [], positive_count := 0\<rparr>"

definition WindowSize :: "kofn \<Rightarrow> nat" where
  "WindowSize c = length (window c)"

definition PositiveCount :: "kofn \<Rightarrow> u32" where
  "PositiveCount c = positive_count c"

text \<open>The answers and the final state for a sequence of frames.\<close>

fun update_all :: "bool list \<Rightarrow> kofn \<Rightarrow> bool list \<times> kofn" where
  "update_all [] c = ([], c)"
| "update_all (x # xs) c =
     (case Update x c of (r, c') \<Rightarrow> (case update_all xs c' of (rs, c'') \<Rightarrow> (r # rs, c'')))"

section \<open>Specification\<close>

definition last_n :: "nat \<Rightarrow> 'a list \<Rightarrow> 'a list" where
  "last_n n xs = drop (length xs - n) xs"

definition count_true :: "bool list \<Rightarrow> nat" where
  "count_true xs = length (filter id xs)"

lemma length_last_n [simp]: "length (last_n n xs) = min n (length xs)"
  by (simp add: last_n_def)

lemma count_true_append [simp]: "count_true (xs @ ys) = count_true xs + count_true ys"
  by (simp add: count_true_def)

lemma count_true_simps [simp]: "count_true [] = 0" "count_true (x # xs) = (if x then Suc (count_true xs) else count_true xs)"
  by (simp_all add: count_true_def)

lemma count_true_le: "count_true xs \<le> length xs"
  by (simp add: count_true_def)

lemma last_n_snoc:
  "last_n n (xs @ [x]) = (if length (last_n n xs @ [x]) > n then tl (last_n n xs @ [x]) else last_n n xs @ [x])"
proof (cases "length xs < n")
  case True
  then show ?thesis by (simp add: last_n_def)
next
  case False
  show ?thesis
  proof (cases "n = 0")
    case True
    then show ?thesis by (simp add: last_n_def)
  next
    case n: False
    have "last_n n (xs @ [x]) = drop (Suc (length xs - n)) xs @ [x]"
      using False n by (simp add: last_n_def Suc_diff_le)
    moreover have "drop (length xs - n) xs \<noteq> []" using False n by simp
    ultimately show ?thesis using False by (simp add: last_n_def tl_append2 drop_Suc tl_drop)
  qed
qed

text \<open>The window is the last \<open>n\<close> inputs and the counter their number of positives, modulo \<open>2 ^ 32\<close>.\<close>

definition kofn_inv :: "bool list \<Rightarrow> kofn \<Rightarrow> bool" where
  "kofn_inv hist c \<longleftrightarrow> 0 < unat (n_ok c) \<and> window c = last_n (unat (n_ok c)) hist \<and>
     positive_count c = word_of_nat (count_true (window c))"

lemma Update_snd:
  "snd (Update x c) =
    (let w = window c @ [x]; p = positive_count c + (if x then 1 else 0)
     in if length w > unat (n_ok c)
        then c\<lparr>window := tl w, positive_count := p - (if hd w then 1 else 0)\<rparr>
        else c\<lparr>window := w, positive_count := p\<rparr>)"
  by (simp add: Update_def Let_def)

lemma Update_inv:
  assumes "kofn_inv hist c"
  shows "kofn_inv (hist @ [x]) (snd (Update x c)) \<and> k_ok (snd (Update x c)) = k_ok c \<and> n_ok (snd (Update x c)) = n_ok c"
proof -
  define w where "w = window c @ [x]"
  define p where "p = positive_count c + (if x then 1 else 0)"
  have last: "last_n (unat (n_ok c)) (hist @ [x]) = (if length w > unat (n_ok c) then tl w else w)"
    using assms last_n_snoc[of "unat (n_ok c)" hist x] by (simp add: kofn_inv_def w_def)
  have p: "p = word_of_nat (count_true w)"
    using assms by (simp add: kofn_inv_def w_def p_def)
  have "w \<noteq> []" by (simp add: w_def)
  then have tl: "p - (if hd w then 1 else 0) = word_of_nat (count_true (tl w))"
    unfolding p by (cases w) auto
  show ?thesis
    unfolding Update_snd Let_def w_def[symmetric] p_def[symmetric]
    using assms last p tl by (simp add: kofn_inv_def)
qed

lemma Update_result:
  assumes "kofn_inv hist c"
  shows "fst (Update x c) \<longleftrightarrow> unat (k_ok c) \<le> count_true (last_n (unat (n_ok c)) (hist @ [x]))"
proof -
  let ?c = "snd (Update x c)"
  have r: "fst (Update x c) \<longleftrightarrow> k_ok ?c \<le> positive_count ?c" by (simp add: Update_def Let_def)
  have i: "kofn_inv (hist @ [x]) ?c" "k_ok ?c = k_ok c" "n_ok ?c = n_ok c" using Update_inv[OF assms] by auto
  have "count_true (window ?c) \<le> unat (n_ok c)"
    using i count_true_le[of "window ?c"] by (simp add: kofn_inv_def)
  then have "count_true (window ?c) < 2 ^ 32" using unat_u32_less[of "n_ok c"] by linarith
  then have "unat (positive_count ?c) = count_true (window ?c)"
    using i(1) by (simp add: kofn_inv_def unat_of_nat take_bit_nat_eq_self_iff)
  then show ?thesis using r i by (simp add: kofn_inv_def word_le_nat_alt)
qed

lemma KOfNConfirmer_inv: "KOfNConfirmer k n = Some c \<Longrightarrow> kofn_inv [] c \<and> k_ok c = k \<and> n_ok c = n \<and> 0 < unat k \<and> unat k \<le> unat n"
  by (auto simp: KOfNConfirmer_def kofn_inv_def last_n_def unat_gt_0 word_le_nat_alt not_less split: if_splits)

lemma update_all_n: "n_ok (snd (update_all xs c)) = n_ok c"
proof (induction xs arbitrary: c)
  case (Cons x xs)
  have "n_ok (snd (Update x c)) = n_ok c" by (simp add: Update_snd Let_def)
  then show ?case using Cons[of "snd (Update x c)"] by (simp split: prod.splits) (metis snd_conv)
qed simp

lemma update_all_spec:
  assumes "kofn_inv hist c"
  shows "kofn_inv (hist @ xs) (snd (update_all xs c)) \<and>
    fst (update_all xs c) = map (\<lambda>i. unat (k_ok c) \<le> count_true (last_n (unat (n_ok c)) (hist @ take (Suc i) xs))) [0..<length xs]"
  using assms
proof (induction xs arbitrary: hist c)
  case (Cons x xs)
  have 1: "kofn_inv (hist @ [x]) (snd (Update x c))" "k_ok (snd (Update x c)) = k_ok c" "n_ok (snd (Update x c)) = n_ok c"
    using Update_inv[OF Cons.prems] by auto
  show ?case
    using Cons.IH[OF 1(1)] Update_result[OF Cons.prems, of x] 1(2,3)
    by (cases "Update x c"; cases "update_all xs (snd (Update x c))") (simp add: map_upt_Suc del: upt_Suc)
qed simp

section \<open>Properties\<close>

text \<open>
  C19: a confirmer that was constructed answers, for every frame of any sequence, exactly whether
  at least \<open>k\<close> of the last \<open>n\<close> frames (this one included) were positive; its window is those
  frames and its counter their number of positives, so 32-bit wrap-around never shows.
\<close>

theorem kofn_confirms_exactly:
  assumes "KOfNConfirmer k n = Some c" "update_all xs c = (rs, c')"
  shows "rs = map (\<lambda>i. unat k \<le> count_true (last_n (unat n) (take (Suc i) xs))) [0..<length xs] \<and>
    window c' = last_n (unat n) xs \<and> unat (PositiveCount c') = count_true (last_n (unat n) xs)"
proof -
  have c: "kofn_inv [] c" "k_ok c = k" "n_ok c = n" using KOfNConfirmer_inv[OF assms(1)] by auto
  have r: "kofn_inv xs c'" "rs = map (\<lambda>i. unat k \<le> count_true (last_n (unat n) (take (Suc i) xs))) [0..<length xs]"
    using update_all_spec[OF c(1), of xs] assms(2) c by simp_all
  have "n_ok c' = n" using update_all_n[of xs c] assms(2) c(3) by simp
  then have w: "window c' = last_n (unat n) xs" "positive_count c' = word_of_nat (count_true (last_n (unat n) xs))"
    using r(1) by (simp_all add: kofn_inv_def)
  have "count_true (last_n (unat n) xs) < 2 ^ 32"
    using count_true_le[of "last_n (unat n) xs"] unat_u32_less[of n] by simp
  then show ?thesis using r(2) w by (simp add: PositiveCount_def unat_of_nat take_bit_nat_eq_self_iff)
qed

theorem kofn_confirms_exactly_witness:
  "\<exists>c c'. KOfNConfirmer 2 3 = Some c \<and> update_all [True, False, True, False] c = ([False, False, True, False], c') \<and>
    window c' = [False, True, False] \<and> unat (PositiveCount c') = 1"
proof -
  obtain c where c: "KOfNConfirmer 2 3 = Some c" by (simp add: KOfNConfirmer_def)
  obtain rs c' where u: "update_all [True, False, True, False] c = (rs, c')" by fastforce
  from kofn_confirms_exactly[OF c u] have "rs = [False, False, True, False] \<and> window c' = [False, True, False] \<and>
      unat (PositiveCount c') = 1"
    by (simp add: last_n_def)
  with c u show ?thesis by blast
qed

end
