(* ===== verification/Capture.thy ===== *)
theory Capture
  imports KofN RingBuffer Ieee
begin

text \<open>
  Frames and their sources: core/include/ridgeline/frame.h, detector.h, fake_detector.h,
  synthetic_frame_source.h and capture/src/video_file_frame_source.cc.  Pixel storage is a
  byte list of fixed length; a copy that would leave it is \<open>None\<close>.  OpenCV is a parameter:
  what a read of the capture returns, and what a resize makes of a picture.
\<close>

section \<open>Frames\<close>

datatype PixelFormat = kUnknown | kBgr24

definition kMaxWidth :: u64 where "kMaxWidth = 1280"
definition kMaxHeight :: u64 where "kMaxHeight = 720"
definition kBytesPerPixel :: u64 where "kBytesPerPixel = 3"
definition kMaxBytes :: u64 where "kMaxBytes = kMaxWidth * kMaxHeight * kBytesPerPixel"

record Frame =
  width :: u32
  height :: u32
  used_bytes :: u64
  format :: PixelFormat
  capture_time_unix_ns :: int
  frame_index :: u64
  data :: "byte list"

text \<open>A write of \<open>bs\<close> at an offset of a frame's storage; \<open>None\<close> is a write outside it.\<close>

definition mem_write :: "nat \<Rightarrow> byte list \<Rightarrow> byte list \<Rightarrow> byte list option" where
  "mem_write off bs m =
     (if off + length bs \<le> length m then Some (take off m @ bs @ drop (off + length bs) m) else None)"

definition CopyFrom :: "byte list \<Rightarrow> u64 \<Rightarrow> u32 \<Rightarrow> u32 \<Rightarrow> int \<Rightarrow> u64 \<Rightarrow> PixelFormat \<Rightarrow> Frame \<Rightarrow> (bool \<times> Frame) option" where
  "CopyFrom src len w h capture_ns index fmt f =
     (if len > kMaxBytes then Some (False, f)
      else (case mem_read src 0 (unat len) of
              None \<Rightarrow> None
            | Some bs \<Rightarrow> (case mem_write 0 bs (data f) of
                 None \<Rightarrow> None
               | Some d \<Rightarrow> Some (True, f\<lparr>data := d, used_bytes := len, width := w, height := h, format := fmt,
                                       capture_time_unix_ns := capture_ns, frame_index := index\<rparr>))))"

section \<open>Detectors\<close>

record DetectionResult =
  positive :: bool
  confidence :: fp
  x_min :: fp
  y_min :: fp
  x_max :: fp
  y_max :: fp

definition no_detection :: DetectionResult where
  "no_detection = \<lparr>positive = False, confidence = Fin 0, x_min = Fin 0, y_min = Fin 0, x_max = Fin 0, y_max = Fin 0\<rparr>"

definition f32 :: "rat \<Rightarrow> fp" where
  "f32 q = rnd binary32 q"

record FakeDetector =
  burst_length :: u64
  period :: u64

definition FakeDetector_Detect :: "FakeDetector \<Rightarrow> Frame \<Rightarrow> DetectionResult" where
  "FakeDetector_Detect d frame =
     (let p = (period d > 0 \<and> frame_index frame mod period d < burst_length d);
          r = no_detection\<lparr>positive := p, confidence := (if p then f32 (9/10) else f32 (1/10))\<rparr>
      in if p then r\<lparr>x_min := f32 (40/100), y_min := f32 (30/100), x_max := f32 (55/100), y_max := f32 (42/100)\<rparr>
         else r)"

section \<open>Synthetic frames\<close>

record SyntheticFrameSource =
  syn_width :: u32
  syn_height :: u32
  next_index :: u64

definition SyntheticFrameSource_Next ::
    "int \<Rightarrow> SyntheticFrameSource \<Rightarrow> Frame \<Rightarrow> (bool \<times> SyntheticFrameSource \<times> Frame) option" where
  "SyntheticFrameSource_Next now s out =
     (let bytes = ucast (syn_width s) * ucast (syn_height s) * kBytesPerPixel in
      if bytes > kMaxBytes then Some (False, s, out)
      else (case mem_write 0 (replicate (unat bytes) (ucast (next_index s mod 256))) (data out) of
              None \<Rightarrow> None
            | Some d \<Rightarrow> Some (True, s\<lparr>next_index := next_index s + 1\<rparr>,
                out\<lparr>data := d, used_bytes := bytes, width := syn_width s, height := syn_height s, format := kBgr24,
                    capture_time_unix_ns := now, frame_index := next_index s\<rparr>)))"

section \<open>Video files\<close>

text \<open>
  A decoded picture: its rows of bytes, its number of columns and whether its element type is
  8-bit BGR.  \<open>read\<close> is \<open>VideoCapture::read\<close>, with \<open>None\<close> for failure or an empty picture,
  \<open>rewind\<close> is \<open>set(CAP_PROP_POS_FRAMES, 0)\<close>, and \<open>resize\<close> is \<open>cv::resize\<close> by the scale the
  code computes.
\<close>

record picture =
  rows :: "byte list list"
  cols :: nat
  is_bgr :: bool

record 'v video_source =
  capture :: 'v
  loop :: bool
  vid_next_index :: u64

text \<open>
  Opening a video (\<open>None\<close> is the exception), and its frame rate, which is whatever the decoder reports.
  \<open>open_video\<close> is \<open>cv::VideoCapture::open\<close> and \<open>get_fps\<close> the property \<open>CAP_PROP_FPS\<close>.
\<close>

definition VideoFileFrameSource :: "(string \<Rightarrow> 'v option) \<Rightarrow> string \<Rightarrow> bool \<Rightarrow> 'v video_source option" where
  "VideoFileFrameSource open_video path looping =
     (case open_video path of
        None \<Rightarrow> None
      | Some v \<Rightarrow> Some \<lparr>capture = v, loop = looping, vid_next_index = 0\<rparr>)"

definition Fps :: "('v \<Rightarrow> fp) \<Rightarrow> 'v video_source \<Rightarrow> fp" where
  "Fps get_fps s = get_fps (capture s)"

text \<open>The row copies, one \<open>memcpy\<close> per row at \<open>y * row_bytes\<close>.\<close>

fun copy_rows :: "nat \<Rightarrow> nat \<Rightarrow> byte list list \<Rightarrow> byte list \<Rightarrow> byte list option" where
  "copy_rows row_bytes y [] m = Some m"
| "copy_rows row_bytes y (r # rs) m =
     (case mem_read r 0 row_bytes of
        None \<Rightarrow> None
      | Some bs \<Rightarrow> (case mem_write (y * row_bytes) bs m of
           None \<Rightarrow> None | Some m' \<Rightarrow> copy_rows row_bytes (Suc y) rs m'))"

definition video_scale :: "picture \<Rightarrow> fp" where
  "video_scale p = std_min (fp_div binary64 (Fin 1280) (fp_of_int binary64 (int (cols p))))
                           (fp_div binary64 (Fin 720) (fp_of_int binary64 (int (length (rows p)))))"

definition video_grab ::
    "('v \<Rightarrow> picture option \<times> 'v) \<Rightarrow> ('v \<Rightarrow> 'v) \<Rightarrow> 'v video_source \<Rightarrow> picture option \<times> 'v" where
  "video_grab read rewind s =
     (case read (capture s) of
        (Some p, v) \<Rightarrow> (Some p, v)
      | (None, v) \<Rightarrow> if \<not> loop s then (None, v) else read (rewind v))"

definition VideoFileFrameSource_Next ::
    "('v \<Rightarrow> picture option \<times> 'v) \<Rightarrow> ('v \<Rightarrow> 'v) \<Rightarrow> (fp \<Rightarrow> picture \<Rightarrow> picture) \<Rightarrow> int \<Rightarrow>
     'v video_source \<Rightarrow> Frame \<Rightarrow> (bool \<times> 'v video_source \<times> Frame) option" where
  "VideoFileFrameSource_Next read rewind resize now s out =
     (case video_grab read rewind s of
        (None, v) \<Rightarrow> Some (False, s\<lparr>capture := v\<rparr>, out)
      | (Some p, v) \<Rightarrow>
          if \<not> is_bgr p then Some (False, s\<lparr>capture := v\<rparr>, out)
          else (let bgr = (if cols p > unat kMaxWidth \<or> length (rows p) > unat kMaxHeight
                           then resize (video_scale p) p else p);
                    w = cols bgr; h = length (rows bgr);
                    row_bytes = w * unat kBytesPerPixel
                in case copy_rows row_bytes 0 (rows bgr) (data out) of
                     None \<Rightarrow> None
                   | Some d \<Rightarrow> Some (True, s\<lparr>capture := v, vid_next_index := vid_next_index s + 1\<rparr>,
                       out\<lparr>data := d, width := word_of_nat w, height := word_of_nat h,
                           used_bytes := word_of_nat (row_bytes * h), format := kBgr24,
                           capture_time_unix_ns := now, frame_index := vid_next_index s\<rparr>)))"

section \<open>Bounds\<close>

definition frame_ok :: "Frame \<Rightarrow> bool" where
  "frame_ok f \<longleftrightarrow> length (data f) = unat kMaxBytes \<and> used_bytes f \<le> kMaxBytes"

lemma kMaxBytes_nat: "unat kMaxBytes = 2764800"
  by (simp add: kMaxBytes_def kMaxWidth_def kMaxHeight_def kBytesPerPixel_def)

lemma mem_write_0: "length bs \<le> length m \<Longrightarrow> mem_write 0 bs m = Some (bs @ drop (length bs) m)"
  by (simp add: mem_write_def)

lemma CopyFrom_refuses: "len > kMaxBytes \<Longrightarrow> CopyFrom src len w h ns i fmt f = Some (False, f)"
  by (simp add: CopyFrom_def)

lemma CopyFrom_ok:
  assumes "frame_ok f" "unat len \<le> length src" "len \<le> kMaxBytes"
  shows "\<exists>f'. CopyFrom src len w h ns i fmt f = Some (True, f') \<and> frame_ok f' \<and>
    take (unat len) (data f') = take (unat len) src \<and> used_bytes f' = len"
proof -
  have "unat len \<le> length (data f)" using assms by (simp add: frame_ok_def word_le_nat_alt)
  then show ?thesis
    using assms by (simp add: CopyFrom_def mem_read_def mem_write_0 frame_ok_def not_less min_def)
qed

lemma SyntheticFrameSource_Next_ok:
  assumes "frame_ok f"
  shows "\<exists>b s' f'. SyntheticFrameSource_Next now s f = Some (b, s', f') \<and> frame_ok f' \<and>
    (b \<longrightarrow> frame_index f' = next_index s \<and> next_index s' = next_index s + 1)"
proof -
  define bytes :: u64 where "bytes = ucast (syn_width s) * ucast (syn_height s) * kBytesPerPixel"
  show ?thesis
  proof (cases "bytes > kMaxBytes")
    case True
    then show ?thesis using assms by (auto simp: SyntheticFrameSource_Next_def Let_def bytes_def[symmetric])
  next
    case False
    then have "unat bytes \<le> length (data f)" using assms by (simp add: frame_ok_def word_le_nat_alt not_less)
    then have "\<exists>s' f'. SyntheticFrameSource_Next now s f = Some (True, s', f') \<and> frame_ok f' \<and>
        frame_index f' = next_index s \<and> next_index s' = next_index s + 1"
      using assms False
      by (simp add: SyntheticFrameSource_Next_def Let_def bytes_def[symmetric] mem_write_0 frame_ok_def not_less)
    then show ?thesis by blast
  qed
qed

text \<open>The rows land one after the other.\<close>

lemma copy_rows_eq:
  assumes "\<forall>r \<in> set rs. length r = rb" "y * rb + length rs * rb \<le> length m"
  shows "copy_rows rb y rs m = Some (take (y * rb) m @ concat rs @ drop (y * rb + length rs * rb) m)"
  using assms
proof (induction rs arbitrary: y m)
  case (Cons r rs)
  let ?m = "take (y * rb) m @ r @ drop (y * rb + rb) m"
  have len: "length r = rb" "length ?m = length m" using Cons.prems by auto
  have step: "copy_rows rb y (r # rs) m = copy_rows rb (Suc y) rs ?m"
    using Cons.prems len by (simp add: mem_read_def mem_write_def)
  have "copy_rows rb (Suc y) rs ?m = Some (take (Suc y * rb) ?m @ concat rs @ drop (Suc y * rb + length rs * rb) ?m)"
    using Cons.prems len by (intro Cons.IH) auto
  moreover have "take (Suc y * rb) ?m = take (y * rb) m @ r"
    using Cons.prems len by (simp add: add.commute[of rb])
  moreover have "drop (Suc y * rb + length rs * rb) ?m = drop (y * rb + length (r # rs) * rb) m"
    using Cons.prems len by (simp add: add.commute add.left_commute)
  ultimately show ?case using step by simp
qed simp

definition picture_ok :: "picture \<Rightarrow> bool" where
  "picture_ok p \<longleftrightarrow> (\<forall>r \<in> set (rows p). length r = cols p * 3)"

definition picture_fits :: "picture \<Rightarrow> bool" where
  "picture_fits p \<longleftrightarrow> cols p \<le> 1280 \<and> length (rows p) \<le> 720"

lemma length_concat_const: "\<forall>r \<in> set rs. length r = k \<Longrightarrow> length (concat rs) = length rs * k"
  by (induction rs) auto

lemma length_concat_rows: "picture_ok p \<Longrightarrow> length (concat (rows p)) = cols p * length (rows p) * 3"
  unfolding picture_ok_def by (drule length_concat_const) simp

lemma video_copy:
  assumes "picture_ok q" "picture_fits q" "frame_ok f"
  shows "\<exists>d. copy_rows (cols q * unat kBytesPerPixel) 0 (rows q) (data f) = Some d \<and> length d = unat kMaxBytes \<and>
    unat (word_of_nat (cols q) :: u32) = cols q \<and> unat (word_of_nat (length (rows q)) :: u32) = length (rows q) \<and>
    unat (word_of_nat (cols q * unat kBytesPerPixel * length (rows q)) :: u64) = cols q * length (rows q) * 3 \<and>
    word_of_nat (cols q * unat kBytesPerPixel * length (rows q)) \<le> kMaxBytes \<and>
    take (cols q * length (rows q) * 3) d = concat (rows q)"
proof -
  let ?n = "cols q * length (rows q) * 3"
  have n: "?n \<le> 2764800" using mult_mono[of "cols q" 1280 "length (rows q)" 720] assms(2) by (simp add: picture_fits_def)
  have "copy_rows (cols q * 3) 0 (rows q) (data f) = Some (concat (rows q) @ drop ?n (data f))"
    using copy_rows_eq[of "rows q" "cols q * 3" 0 "data f"] assms n
    by (simp add: picture_ok_def frame_ok_def kMaxBytes_nat algebra_simps)
  moreover have "unat (word_of_nat (cols q) :: u32) = cols q" "unat (word_of_nat (length (rows q)) :: u32) = length (rows q)"
    using assms(2) by (auto simp: picture_fits_def)
  moreover have u: "unat (word_of_nat ?n :: u64) = ?n" using n by (intro unat_u64_of_nat) simp
  moreover have "(word_of_nat ?n :: u64) \<le> kMaxBytes" unfolding word_le_nat_alt u kMaxBytes_nat by (rule n)
  moreover have eq: "cols q * unat kBytesPerPixel * length (rows q) = ?n" "cols q * unat kBytesPerPixel = cols q * 3"
    by (simp_all add: kBytesPerPixel_def)
  ultimately show ?thesis
    using length_concat_rows[OF assms(1)] assms(3) n unfolding eq(1) unfolding eq(2)
    by (simp add: frame_ok_def kMaxBytes_nat del: of_nat_mult)
qed



section \<open>Bursts and confirmation\<close>

text \<open>The raw results of the fake detector on frames \<open>0, 1, \<dots>, N - 1\<close>.\<close>

definition fake_raws :: "FakeDetector \<Rightarrow> Frame \<Rightarrow> nat \<Rightarrow> bool list" where
  "fake_raws d f N = map (\<lambda>i. positive (FakeDetector_Detect d (f\<lparr>frame_index := word_of_nat i\<rparr>))) [0..<N]"

lemma fake_raws_nth:
  assumes "i < N" "N < 2 ^ 64" "0 < unat (period d)"
  shows "fake_raws d f N ! i \<longleftrightarrow> i mod unat (period d) < unat (burst_length d)"
proof -
  have "unat (word_of_nat i mod period d) = i mod unat (period d)"
    using assms by (simp add: unat_mod)
  then show ?thesis
    using assms by (simp add: fake_raws_def FakeDetector_Detect_def Let_def no_detection_def word_less_nat_alt)
qed

lemma count_true_last:
  assumes "k \<le> n" "k \<le> length xs" "\<forall>i. length xs - k \<le> i \<and> i < length xs \<longrightarrow> xs ! i"
  shows "k \<le> count_true (last_n n xs)"
proof -
  have eq: "last_n n xs = take (length (last_n n xs) - k) (last_n n xs) @ drop (length xs - k) xs"
  proof -
    have "drop (length (last_n n xs) - k) (last_n n xs) = drop (length xs - k) xs"
      using assms(1,2) by (simp add: last_n_def min_def)
    then show ?thesis by (metis append_take_drop_id)
  qed
  have "filter id (drop (length xs - k) xs) = drop (length xs - k) xs"
    using assms(2) by (intro filter_True) (auto simp: in_set_conv_nth intro!: assms(3)[rule_format])
  then have "count_true (drop (length xs - k) xs) = k" using assms(2) by (simp add: count_true_def)
  then show ?thesis by (subst eq) simp
qed

text \<open>
  The fake detector and the confirmer fit together: whenever a burst is at least \<open>k\<close> frames
  long, every burst that completes is confirmed at its \<open>k\<close>-th frame.
\<close>

lemma fake_burst_confirmed:
  assumes "KOfNConfirmer k n = Some c" "update_all (fake_raws d f N) c = (rs, c')" "N < 2 ^ 64"
    and "unat k \<le> unat (burst_length d)" "burst_length d \<le> period d" 
    and "j * unat (period d) + unat k \<le> N"
  shows "rs ! (j * unat (period d) + unat k - 1)"
proof -
  let ?P = "unat (period d)" and ?k = "unat k" and ?xs = "fake_raws d f N"
  let ?i = "j * ?P + ?k - 1"
  have k: "0 < ?k" "?k \<le> unat n" and inv: "kofn_inv [] c" "k_ok c = k" "n_ok c = n"
    using KOfNConfirmer_inv[OF assms(1)] by auto
  have P: "?k \<le> ?P" "0 < ?P" using assms(4,5) k by (auto simp: word_le_nat_alt)
  have i: "?i < N" "Suc ?i = j * ?P + ?k" using assms(6) k by auto
  have len: "length ?xs = N" by (simp add: fake_raws_def)
  have pos: "?xs ! m" if "j * ?P \<le> m" "m < j * ?P + ?k" for m
  proof -
    have "m mod ?P = (m - j * ?P + j * ?P) mod ?P" using that(1) by simp
    also have "\<dots> = m - j * ?P" using that P(1) by (simp only: mod_mult_self1) simp
    finally have "m mod ?P = m - j * ?P" .
    then show ?thesis using that fake_raws_nth[of m N d f] assms(3,4,6) P by auto
  qed
  have "?k \<le> count_true (last_n (unat n) (take (Suc ?i) ?xs))"
    by (rule count_true_last) (use k i len pos in auto)
  moreover have "rs = map (\<lambda>i. ?k \<le> count_true (last_n (unat n) (take (Suc i) ?xs))) [0..<length ?xs]"
    using update_all_spec[OF inv(1), of ?xs] assms(2) inv by simp
  ultimately show ?thesis using i len by simp
qed

lemma fake_burst_confirmed_example:
  "\<exists>c rs c' f0. KOfNConfirmer 3 5 = Some c \<and>
    update_all (fake_raws \<lparr>burst_length = 8, period = 50\<rparr> f0 60) c = (rs, c') \<and> rs ! (1 * 50 + 3 - 1)"
proof -
  obtain c where c: "KOfNConfirmer 3 5 = Some c" by (simp add: KOfNConfirmer_def)
  fix f0 :: Frame
  obtain rs c' where u: "update_all (fake_raws \<lparr>burst_length = 8, period = 50\<rparr> f0 60) c = (rs, c')" by fastforce
  have "rs ! (1 * unat (50 :: u64) + unat (3 :: u32) - 1)"
    using fake_burst_confirmed[OF c u, of 1] by simp
  then show ?thesis using c u by auto
qed

end
