(* ===== verification/EdgePipeline.thy ===== *)
theory EdgePipeline
  imports Capture
begin

text \<open>
  The capture and inference threads of inference/src/edge_pipeline.cc.  One iteration of a
  thread's loop is one step; the ring operations they perform behave as atomic queue
  operations by the results of theory \<open>RingBuffer\<close>.  The frame source and the detector are
  parameters: any \<open>next_frame\<close> that fills a slot in place, any function from frames to
  results.
\<close>

section \<open>Configuration\<close>

record EdgePipelineConfig =
  pc_video_path :: string
  pc_model_path :: string
  pc_target_class_ids :: "int list"
  pc_k :: u32
  pc_n :: u32
  pc_intra_op_threads :: int
  pc_score_threshold :: fp
  pc_realtime :: bool
  pc_loop :: bool

definition default_pipeline_config :: EdgePipelineConfig where
  "default_pipeline_config = \<lparr>pc_video_path = [], pc_model_path = [], pc_target_class_ids = [], pc_k = 3, pc_n = 5,
     pc_intra_op_threads = 1, pc_score_threshold = f32 (3/10), pc_realtime = True, pc_loop = False\<rparr>"

section \<open>State\<close>

record ConfirmedEvent =
  ev_frame_index :: u64
  ev_confidence :: fp
  ev_box :: "fp \<times> fp \<times> fp \<times> fp"
  ev_capture_time :: int
  ev_decided_time :: int
  ev_frames_confirmed :: u32
  ev_window_size :: u32

text \<open>
  \<open>captured\<close>, \<open>processed\<close> and \<open>offered\<close> record the frames published to the ring, the frames taken
  from it, and the events offered to the output ring; \<open>produced\<close> what the source delivered.
\<close>

record 's pipeline =
  realtime :: bool
  frame_ring :: "Frame ring"
  out_events :: "ConfirmedEvent ring"
  source :: 's
  scratch :: Frame
  confirmer :: kofn
  was_confirmed :: bool
  frames_captured :: u64
  frames_dropped :: u64
  frames_processed :: u64
  stop_requested :: bool
  capture_done :: bool
  pipe_finished :: bool
  produced :: "Frame list"
  captured :: "Frame list"
  processed :: "Frame list"
  offered :: "ConfirmedEvent list"

type_synonym 's frame_source = "'s \<Rightarrow> Frame \<Rightarrow> bool \<times> 's \<times> Frame"

definition Stop :: "'s pipeline \<Rightarrow> 's pipeline" where
  "Stop p = p\<lparr>stop_requested := True\<rparr>"

section \<open>The capture thread\<close>

text \<open>
  One iteration of \<open>CaptureLoop\<close>; \<open>capture_done\<close> marks that the loop was left.  The fill
  callback runs the source on the free slot, so the source advances exactly when the ring
  had room.
\<close>

definition capture_iter :: "'s frame_source \<Rightarrow> 's pipeline \<Rightarrow> 's pipeline" where
  "capture_iter next_frame p =
     (if stop_requested p then p\<lparr>capture_done := True\<rparr>
      else
        let rb = frame_ring p;
            full = ((rb_tail rb + 1) AND kMask (Capacity rb) = rb_head rb);
            (got_frame, src1, slot) = next_frame (source p) (slots rb ! unat (rb_tail rb));
            (published, rb') = TryPushWith (\<lambda>_. (slot, got_frame)) rb;
            fill_ran = (\<not> full);
            p1 = (if fill_ran then p\<lparr>frame_ring := rb', source := src1\<rparr> else p)
        in if published
           then p1\<lparr>frames_captured := frames_captured p1 + 1, captured := captured p1 @ [slot],
                   produced := produced p1 @ [slot]\<rparr>
           else if fill_ran \<and> \<not> got_frame then p1\<lparr>capture_done := True\<rparr>
           else if realtime p1
           then (case next_frame (source p1) (scratch p1) of
                   (got, src2, f) \<Rightarrow>
                     let p2 = p1\<lparr>source := src2, scratch := f\<rparr>
                     in if \<not> got then p2\<lparr>capture_done := True\<rparr>
                        else p2\<lparr>frames_dropped := frames_dropped p2 + 1, produced := produced p2 @ [f]\<rparr>)
           else p1)"

section \<open>The inference thread\<close>

definition make_event :: "int \<Rightarrow> Frame \<Rightarrow> DetectionResult \<Rightarrow> kofn \<Rightarrow> ConfirmedEvent" where
  "make_event now f r c =
     \<lparr>ev_frame_index = frame_index f, ev_confidence = confidence r,
      ev_box = (x_min r, y_min r, x_max r, y_max r),
      ev_capture_time = capture_time_unix_ns f, ev_decided_time = now,
      ev_frames_confirmed = PositiveCount c, ev_window_size = word_of_nat (WindowSize c)\<rparr>"

definition process_frame :: "(Frame \<Rightarrow> DetectionResult) \<Rightarrow> int \<Rightarrow> Frame \<Rightarrow> 's pipeline \<Rightarrow> 's pipeline" where
  "process_frame detect now f p =
     (let r = detect f;
          (now_confirmed, c) = Update (positive r) (confirmer p);
          p1 = p\<lparr>confirmer := c, frames_processed := frames_processed p + 1, processed := processed p @ [f]\<rparr>;
          p2 = (if now_confirmed \<and> \<not> was_confirmed p1
                then (let ev = make_event now f r c
                      in p1\<lparr>out_events := snd (TryPush ev (out_events p1)), offered := offered p1 @ [ev]\<rparr>)
                else p1)
      in p2\<lparr>was_confirmed := now_confirmed\<rparr>)"

text \<open>
  One iteration of \<open>InferenceLoop\<close>: the loop condition, the stop check, and one attempt to
  take a frame.
\<close>

definition infer_iter :: "(Frame \<Rightarrow> DetectionResult) \<Rightarrow> int \<Rightarrow> 's pipeline \<Rightarrow> 's pipeline" where
  "infer_iter detect now p =
     (if \<not> (\<not> capture_done p \<or> SizeApprox (frame_ring p) > 0) then p\<lparr>pipe_finished := True\<rparr>
      else if stop_requested p \<and> SizeApprox (frame_ring p) = 0 then p\<lparr>pipe_finished := True\<rparr>
      else (case TryPopWith (\<lambda>f. (f, f)) (frame_ring p) of
              (None, _) \<Rightarrow> p
            | (Some f, rb) \<Rightarrow> process_frame detect now f (p\<lparr>frame_ring := rb\<rparr>)))"

inductive pipe_step :: "'s frame_source \<Rightarrow> (Frame \<Rightarrow> DetectionResult) \<Rightarrow> 's pipeline \<Rightarrow> 's pipeline \<Rightarrow> bool"
  for next_frame detect where
  step_capture: "\<not> capture_done p \<Longrightarrow> pipe_step next_frame detect p (capture_iter next_frame p)"
| step_infer: "\<not> pipe_finished p \<Longrightarrow> pipe_step next_frame detect p (infer_iter detect now p)"
| step_stop: "pipe_step next_frame detect p (Stop p)"

inductive pipe_reach :: "'s frame_source \<Rightarrow> (Frame \<Rightarrow> DetectionResult) \<Rightarrow> 's pipeline \<Rightarrow> 's pipeline \<Rightarrow> bool"
  for next_frame detect p0 where
  pipe_init: "pipe_reach next_frame detect p0 p0"
| pipe_more: "pipe_reach next_frame detect p0 p \<Longrightarrow> pipe_step next_frame detect p p' \<Longrightarrow>
    pipe_reach next_frame detect p0 p'"

text \<open>The state the constructor starts the threads in.\<close>

definition EdgePipeline :: "bool \<Rightarrow> 's \<Rightarrow> Frame \<Rightarrow> Frame list \<Rightarrow> ConfirmedEvent ring \<Rightarrow> kofn \<Rightarrow> 's pipeline" where
  "EdgePipeline rt src scr init out c =
     \<lparr>realtime = rt, frame_ring = new_ring init, out_events = out, source = src, scratch = scr, confirmer = c,
      was_confirmed = False, frames_captured = 0, frames_dropped = 0, frames_processed = 0, stop_requested = False,
      capture_done = False, pipe_finished = False, produced = [], captured = [], processed = [], offered = []\<rparr>"

section \<open>Invariant\<close>

text \<open>Rising edges of the confirmation over a sequence of frames.\<close>

definition confirmations :: "(Frame \<Rightarrow> DetectionResult) \<Rightarrow> nat \<Rightarrow> nat \<Rightarrow> Frame list \<Rightarrow> bool list" where
  "confirmations detect k n fs =
     map (\<lambda>i. k \<le> count_true (last_n n (map (positive \<circ> detect) (take (Suc i) fs)))) [0..<length fs]"

definition rising :: "bool list \<Rightarrow> nat list" where
  "rising bs = filter (\<lambda>i. bs ! i \<and> (i = 0 \<or> \<not> bs ! (i - 1))) [0..<length bs]"

definition pipe_frames :: "'s pipeline \<Rightarrow> bool" where
  "pipe_frames p \<longleftrightarrow>
     ring_inv (frame_ring p) \<and> captured p = processed p @ contents (frame_ring p) \<and>
     frames_captured p = word_of_nat (length (captured p)) \<and>
     frames_processed p = word_of_nat (length (processed p)) \<and>
     frames_dropped p = word_of_nat (length (produced p) - length (captured p)) \<and>
     length (captured p) \<le> length (produced p) \<and>
     (\<not> realtime p \<longrightarrow> produced p = captured p)"

definition pipe_events :: "(Frame \<Rightarrow> DetectionResult) \<Rightarrow> u32 \<Rightarrow> u32 \<Rightarrow> 's pipeline \<Rightarrow> bool" where
  "pipe_events detect k n p \<longleftrightarrow>
     kofn_inv (map (positive \<circ> detect) (processed p)) (confirmer p) \<and> k_ok (confirmer p) = k \<and> n_ok (confirmer p) = n \<and>
     (let bs = confirmations detect (unat k) (unat n) (processed p) in
        was_confirmed p = (bs \<noteq> [] \<and> last bs) \<and>
        map ev_frame_index (offered p) = map (\<lambda>i. frame_index (processed p ! i)) (rising bs))"

definition pipe_end :: "'s pipeline \<Rightarrow> bool" where
  "pipe_end p \<longleftrightarrow> (pipe_finished p \<longrightarrow> stop_requested p \<or> capture_done p \<and> contents (frame_ring p) = [])"

definition pipe_inv :: "(Frame \<Rightarrow> DetectionResult) \<Rightarrow> u32 \<Rightarrow> u32 \<Rightarrow> 's pipeline \<Rightarrow> bool" where
  "pipe_inv detect k n p \<longleftrightarrow> pipe_frames p \<and> pipe_events detect k n p \<and> pipe_end p"

lemma length_confirmations [simp]: "length (confirmations detect k n fs) = length fs"
  by (simp add: confirmations_def)

lemma confirmations_snoc:
  "confirmations detect k n (fs @ [f]) =
     confirmations detect k n fs @ [k \<le> count_true (last_n n (map (positive \<circ> detect) (fs @ [f])))]"
  by (auto simp: confirmations_def intro!: map_cong)

lemma rising_snoc:
  "rising (bs @ [b]) = rising bs @ (if b \<and> (bs = [] \<or> \<not> last bs) then [length bs] else [])"
proof -
  have "filter (\<lambda>i. (bs @ [b]) ! i \<and> (i = 0 \<or> \<not> (bs @ [b]) ! (i - 1))) [0..<length bs] =
      filter (\<lambda>i. bs ! i \<and> (i = 0 \<or> \<not> bs ! (i - 1))) [0..<length bs]"
    by (intro filter_cong) (auto simp: nth_append)
  then show ?thesis by (auto simp: rising_def nth_append last_conv_nth)
qed

lemma rising_less: "i \<in> set (rising bs) \<Longrightarrow> i < length bs"
  by (simp add: rising_def)

lemma SizeApprox_eq:
  assumes "ring_inv rb" shows "unat (SizeApprox rb) = length (contents rb)"
  using assms unat_sub_mod[of "Capacity rb" "rb_head rb" "rb_tail rb"]
  by (simp add: SizeApprox_def ring_inv_def ring_size_def)

lemma SizeApprox_0_iff: "ring_inv rb \<Longrightarrow> SizeApprox rb = 0 \<longleftrightarrow> contents rb = []"
  using SizeApprox_eq[of rb] by (metis length_0_conv unat_eq_zero)

lemma pipe_events_upd:
  assumes "processed q = processed p" "confirmer q = confirmer p" "was_confirmed q = was_confirmed p" "offered q = offered p"
  shows "pipe_events detect k n q = pipe_events detect k n p"
  using assms by (simp add: pipe_events_def)

lemma pipe_frames_upd:
  "pipe_frames (p\<lparr>pipe_finished := b\<rparr>) = pipe_frames p" "pipe_frames (p\<lparr>stop_requested := b\<rparr>) = pipe_frames p"
  "pipe_frames (p\<lparr>capture_done := b\<rparr>) = pipe_frames p"
  by (simp_all add: pipe_frames_def)

lemma capture_iter_frames:
  assumes "pipe_frames p"
  shows "pipe_frames (capture_iter next_frame p)"
proof (cases "stop_requested p")
  case True
  then show ?thesis using assms by (simp add: capture_iter_def pipe_frames_upd)
next
  case False
  let ?rb = "frame_ring p"
  have inv: "ring_inv ?rb" using assms by (simp add: pipe_frames_def)
  obtain got src1 slot where nf: "next_frame (source p) (slots ?rb ! unat (rb_tail ?rb)) = (got, src1, slot)"
    by (metis prod_cases3)
  obtain pub rb' where push: "TryPushWith (\<lambda>_. (slot, got)) ?rb = (pub, rb')" by fastforce
  note spec = TryPushWith_spec[OF inv push]
  show ?thesis
  proof (cases "(rb_tail ?rb + 1) AND kMask (Capacity ?rb) = rb_head ?rb")
    case full: True
    then have sp: "\<not> pub" "rb' = ?rb" using spec ring_full_iff[OF inv] by auto
    obtain got2 src2 f where nf2: "next_frame (source p) (scratch p) = (got2, src2, f)" by (metis prod_cases3)
    have eq: "capture_iter next_frame p = (if realtime p then
        (let p2 = p\<lparr>source := src2, scratch := f\<rparr> in if \<not> got2 then p2\<lparr>capture_done := True\<rparr>
           else p2\<lparr>frames_dropped := frames_dropped p2 + 1, produced := produced p2 @ [f]\<rparr>) else p)"
      using False nf push full sp nf2 by (simp add: capture_iter_def Let_def)
    show ?thesis
      unfolding eq using assms by (auto simp: pipe_frames_def Let_def Suc_diff_le)
  next
    case room: False
    then have ne: "ring_size ?rb \<noteq> capacity ?rb" using ring_full_iff[OF inv] by auto
    have sp: "pub = got" "ring_inv rb'" "contents rb' = (if got then contents ?rb @ [slot] else contents ?rb)"
      using spec ne by auto
    have eq: "capture_iter next_frame p = (let p1 = p\<lparr>frame_ring := rb', source := src1\<rparr> in
        if got then p1\<lparr>frames_captured := frames_captured p + 1, captured := captured p @ [slot], produced := produced p @ [slot]\<rparr>
        else p1\<lparr>capture_done := True\<rparr>)"
      using False nf push room sp(1) by (simp add: capture_iter_def Let_def)
    show ?thesis
    proof (cases got)
      case True
      then show ?thesis unfolding eq using assms sp by (auto simp: pipe_frames_def Let_def)
    next
      case f: False
      then show ?thesis unfolding eq using assms sp by (auto simp: pipe_frames_def Let_def)
    qed
  qed
qed

lemma capture_iter_keeps:
  "processed (capture_iter nf p) = processed p \<and> confirmer (capture_iter nf p) = confirmer p \<and>
   was_confirmed (capture_iter nf p) = was_confirmed p \<and> offered (capture_iter nf p) = offered p \<and>
   pipe_finished (capture_iter nf p) = pipe_finished p \<and> stop_requested (capture_iter nf p) = stop_requested p"
  by (simp add: capture_iter_def Let_def split: prod.splits)

lemma capture_iter_inv:
  assumes "pipe_inv detect k n p" "\<not> capture_done p"
  shows "pipe_inv detect k n (capture_iter next_frame p)"
proof -
  have "pipe_end (capture_iter next_frame p)"
    using assms capture_iter_keeps[of next_frame p] by (auto simp: pipe_inv_def pipe_end_def)
  then show ?thesis
    using assms capture_iter_frames[of p next_frame] capture_iter_keeps[of next_frame p]
      pipe_events_upd[of "capture_iter next_frame p" p] by (simp add: pipe_inv_def)
qed

lemma process_frame_fields:
  "processed (process_frame detect now f p) = processed p @ [f]"
  "frames_processed (process_frame detect now f p) = frames_processed p + 1"
  "frame_ring (process_frame detect now f p) = frame_ring p" "captured (process_frame detect now f p) = captured p"
  "produced (process_frame detect now f p) = produced p" "realtime (process_frame detect now f p) = realtime p"
  "frames_captured (process_frame detect now f p) = frames_captured p"
  "frames_dropped (process_frame detect now f p) = frames_dropped p"
  "pipe_finished (process_frame detect now f p) = pipe_finished p"
  by (simp_all add: process_frame_def Let_def split: prod.splits)

lemma process_frame_events:
  assumes "pipe_events detect k n p"
  shows "pipe_events detect k n (process_frame detect now f p)"
proof -
  let ?q = "process_frame detect now f p" and ?bs = "confirmations detect (unat k) (unat n) (processed p)"
  have i: "kofn_inv (map (positive \<circ> detect) (processed p)) (confirmer p)" "k_ok (confirmer p) = k" "n_ok (confirmer p) = n"
    "was_confirmed p = (?bs \<noteq> [] \<and> last ?bs)"
    "map ev_frame_index (offered p) = map (\<lambda>i. frame_index (processed p ! i)) (rising ?bs)"
    using assms by (simp_all add: pipe_events_def Let_def)
  obtain b c where u: "Update (positive (detect f)) (confirmer p) = (b, c)" by fastforce
  have c: "kofn_inv (map (positive \<circ> detect) (processed p @ [f])) c" "k_ok c = k" "n_ok c = n"
    using Update_inv[OF i(1), of "positive (detect f)"] u i(2,3) by auto
  have b: "confirmations detect (unat k) (unat n) (processed p @ [f]) = ?bs @ [b]"
    using Update_result[OF i(1), of "positive (detect f)"] u i(2,3) by (simp add: confirmations_snoc)
  have q: "confirmer ?q = c" "was_confirmed ?q = b"
    "map ev_frame_index (offered ?q) = map ev_frame_index (offered p) @ (if b \<and> \<not> was_confirmed p then [frame_index f] else [])"
    by (simp_all add: process_frame_def u Let_def make_event_def)
  have "map (\<lambda>i. frame_index ((processed p @ [f]) ! i)) (rising ?bs) = map (\<lambda>i. frame_index (processed p ! i)) (rising ?bs)"
    by (intro map_cong) (auto dest: rising_less simp: nth_append)
  then have "map ev_frame_index (offered ?q) = map (\<lambda>i. frame_index ((processed p @ [f]) ! i)) (rising (?bs @ [b]))"
    using i(4,5) q(3) unfolding rising_snoc by auto
  then show ?thesis
    using c q unfolding pipe_events_def process_frame_fields(1) b by simp
qed

lemma process_frame_frames:
  assumes "pipe_frames p" "contents (frame_ring p) = f # fs" "contents rb = fs" "ring_inv rb"
  shows "pipe_frames (process_frame detect now f (p\<lparr>frame_ring := rb\<rparr>))"
  using assms unfolding pipe_frames_def process_frame_fields by auto

lemma infer_iter_inv:
  assumes "pipe_inv detect k n p" "\<not> pipe_finished p"
  shows "pipe_inv detect k n (infer_iter detect now p)"
proof -
  have inv: "ring_inv (frame_ring p)" using assms(1) by (simp add: pipe_inv_def pipe_frames_def)
  have empty: "SizeApprox (frame_ring p) = 0 \<longleftrightarrow> contents (frame_ring p) = []" by (rule SizeApprox_0_iff[OF inv])
  have nz: "SizeApprox (frame_ring p) > 0 \<longleftrightarrow> contents (frame_ring p) \<noteq> []" using empty word_neq_0_conv by blast
  obtain r rb where pop: "TryPopWith (\<lambda>f. (f, f)) (frame_ring p) = (r, rb)" by fastforce
  note spec = TryPopWith_spec[OF inv pop]
  let ?out = "\<not> (\<not> capture_done p \<or> contents (frame_ring p) \<noteq> []) \<or> stop_requested p \<and> contents (frame_ring p) = []"
  have eq: "infer_iter detect now p = (if ?out then p\<lparr>pipe_finished := True\<rparr>
      else case r of None \<Rightarrow> p | Some f \<Rightarrow> process_frame detect now f (p\<lparr>frame_ring := rb\<rparr>))"
    by (simp add: infer_iter_def nz empty pop split: option.splits)
  consider (leave) "infer_iter detect now p = p\<lparr>pipe_finished := True\<rparr>" "stop_requested p \<or> capture_done p \<and> contents (frame_ring p) = []"
    | (idle) "infer_iter detect now p = p"
    | (frame) f where "r = Some f" "infer_iter detect now p = process_frame detect now f (p\<lparr>frame_ring := rb\<rparr>)"
  proof (cases ?out)
    case True
    then have "infer_iter detect now p = p\<lparr>pipe_finished := True\<rparr>" using eq by simp
    then show ?thesis using leave True by blast
  next
    case False
    note e = eq[unfolded if_not_P[OF False]]
    show ?thesis
    proof (cases r)
      case None
      then show ?thesis using e by (intro idle) (simp only: option.case)
    next
      case (Some f)
      then show ?thesis using e by (intro frame[of f]) (simp_all only: option.case)
    qed
  qed
  then show ?thesis
  proof cases
    case leave
    have "pipe_events detect k n (p\<lparr>pipe_finished := True\<rparr>)"
      using assms(1) pipe_events_upd[of "p\<lparr>pipe_finished := True\<rparr>" p detect k n] by (simp add: pipe_inv_def)
    then show ?thesis
      unfolding leave(1) using assms(1) leave(2) by (simp add: pipe_inv_def pipe_frames_upd pipe_end_def)
  next
    case idle
    then show ?thesis using assms(1) by simp
  next
    case (frame f)
    then obtain fs where fs: "contents (frame_ring p) = f # fs" "contents rb = fs" "ring_inv rb"
      using spec by (auto split: list.splits)
    let ?p = "p\<lparr>frame_ring := rb\<rparr>"
    have "pipe_events detect k n (process_frame detect now f ?p)"
      using assms(1) pipe_events_upd[of ?p p detect k n] by (intro process_frame_events) (simp add: pipe_inv_def)
    moreover have "pipe_frames (process_frame detect now f ?p)"
      using assms(1) fs process_frame_frames[of p f fs rb] by (simp add: pipe_inv_def)
    ultimately show ?thesis
      unfolding frame(2) using assms by (simp add: pipe_inv_def pipe_end_def process_frame_fields)
  qed
qed

lemma pipe_reach_inv:
  assumes "pipe_reach next_frame detect p0 p" "pipe_inv detect k n p0"
  shows "pipe_inv detect k n p"
  using assms
proof induction
  case (pipe_more p p')
  have stop: "pipe_inv detect k n (Stop p)"
    using pipe_more(3)[OF pipe_more(4)] pipe_events_upd[of "Stop p" p detect k n]
    by (simp add: pipe_inv_def pipe_frames_upd pipe_end_def Stop_def)
  from pipe_more(2) show ?case
    by cases (use pipe_more(3,4) stop in \<open>auto intro: capture_iter_inv infer_iter_inv\<close>)
qed simp

lemma EdgePipeline_inv:
  assumes "cap_ok (length init)" "KOfNConfirmer k n = Some c"
  shows "pipe_inv detect k n (EdgePipeline rt src scr init out c)"
  using new_ring_inv[OF assms(1)] KOfNConfirmer_inv[OF assms(2)]
  by (simp add: EdgePipeline_def pipe_inv_def pipe_frames_def pipe_events_def pipe_end_def confirmations_def rising_def)

text \<open>A run: the source delivers one frame, which is captured and processed.\<close>

definition demo_frame :: Frame where
  "demo_frame = \<lparr>width = 1, height = 1, used_bytes = 3, format = kBgr24, capture_time_unix_ns = 0, frame_index = 7, data = []\<rparr>"

definition demo_source :: "unit frame_source" where
  "demo_source s f = (True, (), demo_frame)"

definition demo_detect :: "Frame \<Rightarrow> DetectionResult" where
  "demo_detect f = no_detection\<lparr>positive := True\<rparr>"

definition demo_confirmer :: kofn where
  "demo_confirmer = \<lparr>k_ok = 1, n_ok = 1, window = [], positive_count = 0\<rparr>"

definition demo_start :: "unit pipeline" where
  "demo_start = EdgePipeline False () demo_frame (replicate 4 demo_frame) (new_ring []) demo_confirmer"

lemma demo_pipe:
  "cap_ok (length (replicate 4 demo_frame))" "KOfNConfirmer 1 1 = Some demo_confirmer"
  "pipe_reach demo_source demo_detect demo_start (infer_iter demo_detect 5 (capture_iter demo_source demo_start))"
proof -
  show "cap_ok (length (replicate 4 demo_frame))" using cap_ok_4 by (simp add: eval_nat_numeral)
  show "KOfNConfirmer 1 1 = Some demo_confirmer" by (simp add: KOfNConfirmer_def demo_confirmer_def)
  have "\<not> pipe_finished (capture_iter demo_source demo_start)"
    using capture_iter_keeps[of demo_source demo_start] by (simp add: demo_start_def EdgePipeline_def)
  then have "pipe_step demo_source demo_detect (capture_iter demo_source demo_start)
      (infer_iter demo_detect 5 (capture_iter demo_source demo_start))" by (rule step_infer)
  moreover have "pipe_step demo_source demo_detect demo_start (capture_iter demo_source demo_start)"
    by (rule step_capture) (simp add: demo_start_def EdgePipeline_def)
  ultimately show "pipe_reach demo_source demo_detect demo_start (infer_iter demo_detect 5 (capture_iter demo_source demo_start))"
    using pipe_init pipe_more by metis
qed

section \<open>Properties\<close>

text \<open>
  C20: however the two threads interleave, no captured frame is lost or reordered between them: the
  frames captured are those processed followed by those still in the ring, and the counters
  reported in heartbeats are their numbers.  When inference finishes without a stop request
  every captured frame was processed, and in offline mode every frame the source delivered.
\<close>

theorem pipeline_accounts_for_frames:
  assumes "cap_ok (length init)" "KOfNConfirmer k n = Some c"
    and "pipe_reach next_frame detect (EdgePipeline rt src scr init out c) p"
  shows "captured p = processed p @ contents (frame_ring p) \<and>
    frames_captured p = word_of_nat (length (captured p)) \<and>
    frames_processed p = word_of_nat (length (processed p)) \<and>
    frames_dropped p = word_of_nat (length (produced p) - length (captured p)) \<and>
    (pipe_finished p \<and> \<not> stop_requested p \<longrightarrow> processed p = captured p \<and> (\<not> realtime p \<longrightarrow> processed p = produced p))"
proof -
  have inv: "pipe_frames p" "pipe_end p"
    using pipe_reach_inv[OF assms(3) EdgePipeline_inv[OF assms(1,2)]] by (simp_all add: pipe_inv_def)
  then have "captured p = processed p @ contents (frame_ring p)" by (simp only: pipe_frames_def)
  then show ?thesis using inv unfolding pipe_frames_def pipe_end_def by (metis append_Nil2)
qed

theorem pipeline_accounts_for_frames_witness:
  "let p = infer_iter demo_detect 5 (capture_iter demo_source demo_start)
   in captured p = processed p @ contents (frame_ring p) \<and> frames_captured p = word_of_nat (length (captured p))"
  using pipeline_accounts_for_frames[OF demo_pipe(1,2) demo_pipe(3)[unfolded demo_start_def]]
  unfolding Let_def demo_start_def by blast

text \<open>
  C21: the events offered to the agent are exactly the frames at which the K-of-N condition turns
  from false to true, in order: one event per confirmed episode.
\<close>

theorem pipeline_one_event_per_episode:
  assumes "cap_ok (length init)" "KOfNConfirmer k n = Some c"
    and "pipe_reach next_frame detect (EdgePipeline rt src scr init out c) p"
  shows "map ev_frame_index (offered p) =
    map (\<lambda>i. frame_index (processed p ! i)) (rising (confirmations detect (unat k) (unat n) (processed p)))"
  using pipe_reach_inv[OF assms(3) EdgePipeline_inv[OF assms(1,2)]]
  by (simp add: pipe_inv_def pipe_events_def Let_def)

theorem pipeline_one_event_per_episode_witness:
  "let p = infer_iter demo_detect 5 (capture_iter demo_source demo_start)
   in map ev_frame_index (offered p) = map (\<lambda>i. frame_index (processed p ! i))
     (rising (confirmations demo_detect (unat (1 :: u32)) (unat (1 :: u32)) (processed p)))"
  using pipeline_one_event_per_episode[OF demo_pipe(1,2) demo_pipe(3)[unfolded demo_start_def]]
  unfolding Let_def demo_start_def by blast

end
