(* ===== verification/Cstd.thy ===== *)
theory Cstd
  imports Ieee
begin

text \<open>
  The parts of the C and C++ standard library that the program uses on text:
  \<open>std::getline\<close> on a string stream, \<open>std::stoll\<close> and its relatives, \<open>std::strtoull\<close>, \<open>std::atof\<close>, \<open>std::to_string\<close> and
  prefix tests, in the "C" locale.
\<close>

section \<open>getline\<close>

text \<open>
  A stream is \<open>None\<close> once a read has met the end, otherwise the rest of its characters.
  Reading nothing at all fails.
\<close>

type_synonym istream = "string option"

fun split_at_char :: "char \<Rightarrow> string \<Rightarrow> string \<times> string option" where
  "split_at_char d [] = ([], None)"
| "split_at_char d (c # cs) =
     (if c = d then ([], Some cs)
      else (case split_at_char d cs of (tok, rest) \<Rightarrow> (c # tok, rest)))"

fun getline :: "char \<Rightarrow> istream \<Rightarrow> (string \<times> istream) option" where
  "getline d None = None"
| "getline d (Some cs) = (if cs = [] then None else Some (split_at_char d cs))"

lemma split_at_char_decreases: "split_at_char d cs = (tok, Some rest) \<Longrightarrow> length rest < length cs"
  by (induction cs arbitrary: tok) (auto split: if_splits prod.splits intro: less_SucI)

text \<open>All lines of a file, as \<open>while (std::getline(in, line))\<close> sees them.\<close>

function file_lines :: "istream \<Rightarrow> string list" where
  "file_lines s = (case getline (CHR 0x0A) s of None \<Rightarrow> [] | Some (line, s') \<Rightarrow> line # file_lines s')"
  by pat_completeness auto
termination
  by (relation "measure (\<lambda>s. case s of None \<Rightarrow> 0 | Some cs \<Rightarrow> Suc (length cs))")
    (auto split: option.splits if_splits elim!: getline.elims dest!: split_at_char_decreases[OF sym])

declare file_lines.simps [simp del]

lemma split_at_char_append:
  "d \<notin> set tok \<Longrightarrow> split_at_char d (tok @ d # rest) = (tok, Some rest)"
  "d \<notin> set tok \<Longrightarrow> split_at_char d tok = (tok, None)"
  by (induction tok) auto

lemma getline_field: "d \<notin> set tok \<Longrightarrow> getline d (Some (tok @ d # rest)) = Some (tok, Some rest)"
  by (simp add: split_at_char_append)

lemma getline_last: "d \<notin> set tok \<Longrightarrow> tok \<noteq> [] \<Longrightarrow> getline d (Some tok) = Some (tok, None)"
  by (simp add: split_at_char_append)

section \<open>Numbers\<close>

definition digit_char :: "nat \<Rightarrow> char" where
  "digit_char n = char_of (48 + n)"

definition is_digit :: "char \<Rightarrow> bool" where
  "is_digit c \<longleftrightarrow> 48 \<le> (of_char c :: nat) \<and> (of_char c :: nat) \<le> 57"

definition digit_val :: "char \<Rightarrow> nat" where
  "digit_val c = of_char c - 48"

definition is_space :: "char \<Rightarrow> bool" where
  "is_space c \<longleftrightarrow> of_char c = (32 :: nat) \<or> 9 \<le> (of_char c :: nat) \<and> (of_char c :: nat) \<le> 13"

definition dec_value :: "nat \<Rightarrow> string \<Rightarrow> nat" where
  "dec_value = foldl (\<lambda>v c. 10 * v + digit_val c)"

text \<open>A leading sign: whether it is a minus, and the rest.\<close>

fun read_sign :: "string \<Rightarrow> bool \<times> string" where
  "read_sign [] = (False, [])"
| "read_sign (c # cs) = (if c = CHR ''-'' then (True, cs) else if c = CHR ''+'' then (False, cs) else (False, c # cs))"

definition strtoull :: "string \<Rightarrow> u64" where
  "strtoull s =
     (case read_sign (dropWhile is_space s) of (neg, cs) \<Rightarrow>
        let v = dec_value 0 (takeWhile is_digit cs)
        in if v \<ge> 2 ^ 64 then - 1 else if neg then - word_of_nat v else word_of_nat v)"

text \<open>\<open>std::strtoll\<close> saturates.\<close>

definition strtoll :: "string \<Rightarrow> int" where
  "strtoll s =
     (case read_sign (dropWhile is_space s) of (neg, cs) \<Rightarrow>
        let v = int (dec_value 0 (takeWhile is_digit cs)); r = (if neg then - v else v)
        in max (- (2 ^ 63)) (min (2 ^ 63 - 1) r))"

text \<open>\<open>std::stoll\<close>; \<open>None\<close> is an exception.\<close>

definition stoll :: "string \<Rightarrow> int option" where
  "stoll s =
     (case read_sign (dropWhile is_space s) of (neg, cs) \<Rightarrow>
        let ds = takeWhile is_digit cs; v = int (dec_value 0 ds); r = (if neg then - v else v)
        in if ds = [] \<or> r < - (2 ^ 63) \<or> r \<ge> 2 ^ 63 then None else Some r)"

text \<open>\<open>std::stoull\<close>: a minus sign negates modulo \<open>2 ^ 64\<close>; no digits or too large a number throws.\<close>

definition stoull :: "string \<Rightarrow> u64 option" where
  "stoull s =
     (case read_sign (dropWhile is_space s) of (neg, cs) \<Rightarrow>
        let ds = takeWhile is_digit cs; v = dec_value 0 ds
        in if ds = [] \<or> v \<ge> 2 ^ 64 then None else Some (if neg then - word_of_nat v else word_of_nat v))"

text \<open>\<open>std::atoi\<close>, which converts as a 64-bit \<open>long\<close> and keeps the low 32 bits.\<close>

definition atoi :: "string \<Rightarrow> int" where
  "atoi s = signed_take_bit 31 (strtoll s)"

text \<open>The characters a C string holds: up to the first null byte.\<close>

definition c_str :: "string \<Rightarrow> string" where
  "c_str s = takeWhile (\<lambda>c. c \<noteq> CHR 0x00) s"

text \<open>\<open>std::strtod\<close> on decimal numbers, infinities and NaN (hexadecimal floats are not used).\<close>

definition to_lower :: "char \<Rightarrow> char" where
  "to_lower c = (if 65 \<le> (of_char c :: nat) \<and> (of_char c :: nat) \<le> 90 then char_of (of_char c + 32 :: nat) else c)"

definition read_exponent :: "string \<Rightarrow> int" where
  "read_exponent s =
     (case s of
        c # cs \<Rightarrow>
          if c = CHR ''e'' \<or> c = CHR ''E'' then
            (case read_sign cs of (neg, ds) \<Rightarrow>
               let v = int (dec_value 0 (takeWhile is_digit ds)) in if neg then - v else v)
          else 0
      | [] \<Rightarrow> 0)"

definition read_decimal :: "string \<Rightarrow> rat" where
  "read_decimal s =
     (let ip = takeWhile is_digit s;
          rest = dropWhile is_digit s;
          fp = (case rest of c # cs \<Rightarrow> if c = CHR ''.'' then takeWhile is_digit cs else [] | [] \<Rightarrow> []);
          rest' = (case rest of c # cs \<Rightarrow> if c = CHR ''.'' then dropWhile is_digit cs else rest | [] \<Rightarrow> []);
          m = of_nat (dec_value 0 (ip @ fp))
      in if ip = [] \<and> fp = [] then 0
         else m * 10 powi (read_exponent rest' - int (length fp)))"

definition atof :: "string \<Rightarrow> fp" where
  "atof s =
     (case read_sign (dropWhile is_space s) of (neg, cs) \<Rightarrow>
        let low = map to_lower (take 3 cs);
            v = (if low = ''inf'' then PInf else if low = ''nan'' then NaN else rnd binary64 (read_decimal cs))
        in if neg then fp_neg v else v)"

text \<open>A conversion to binary32 of a binary64 value.\<close>

fun to_float :: "fp \<Rightarrow> fp" where
  "to_float (Fin x) = rnd binary32 x"
| "to_float x = x"

text \<open>\<open>std::to_string\<close> of an unsigned number.\<close>

fun show_nat :: "nat \<Rightarrow> string" where
  "show_nat n = (if n < 10 then [digit_char n] else show_nat (n div 10) @ [digit_char (n mod 10)])"

declare show_nat.simps [simp del]

definition show_int :: "int \<Rightarrow> string" where
  "show_int i = (if i < 0 then CHR ''-'' # show_nat (nat (- i)) else show_nat (nat i))"

lemma digit_char_props:
  assumes "n < 10"
  shows "is_digit (digit_char n)" "digit_val (digit_char n) = n" "\<not> is_space (digit_char n)"
    "digit_char n \<noteq> CHR ''-''" "digit_char n \<noteq> CHR ''+''" "digit_char n \<noteq> CHR '',''" "digit_char n \<noteq> CHR ''|''"
    "digit_char n \<noteq> CHR 0x0A"
proof -
  have v: "of_char (digit_char n) = 48 + n" using assms by (simp add: digit_char_def of_char_of)
  show "is_digit (digit_char n)" "digit_val (digit_char n) = n" "\<not> is_space (digit_char n)"
    using assms by (simp_all add: is_digit_def digit_val_def is_space_def v)
  then have "digit_char n \<noteq> c" if "\<not> is_digit c" for c using that by metis
  moreover have "\<not> is_digit CHR ''-''" "\<not> is_digit CHR ''+''" "\<not> is_digit CHR '',''" "\<not> is_digit CHR ''|''"
    "\<not> is_digit CHR 0x0A"
    by (simp_all add: is_digit_def)
  ultimately show "digit_char n \<noteq> CHR ''-''" "digit_char n \<noteq> CHR ''+''" "digit_char n \<noteq> CHR '',''"
    "digit_char n \<noteq> CHR ''|''" "digit_char n \<noteq> CHR 0x0A"
    by blast+
qed

lemma dec_value_append: "dec_value v (xs @ ys) = dec_value (dec_value v xs) ys"
  by (simp add: dec_value_def)

lemma show_nat_props: "dec_value 0 (show_nat n) = n \<and> (\<forall>c \<in> set (show_nat n). \<exists>d < 10. c = digit_char d) \<and> show_nat n \<noteq> []"
proof (induction n rule: show_nat.induct)
  case (1 n)
  show ?case
  proof (cases "n < 10")
    case True
    then show ?thesis
      by (subst (1 2 3) show_nat.simps) (auto simp: dec_value_def digit_char_props)
  next
    case False
    have "dec_value n [digit_char (m mod 10)] = 10 * n + m mod 10" for n m
      by (simp add: dec_value_def digit_char_props)
    then show ?thesis
      using 1 False by (subst (1 2 3) show_nat.simps) (auto simp: dec_value_append intro!: exI[of _ "n mod 10"])
  qed
qed

lemma show_nat_digits: "c \<in> set (show_nat n) \<Longrightarrow> is_digit c \<and> \<not> is_space c \<and> c \<notin> {CHR ''-'', CHR ''+'', CHR '','', CHR ''|'', CHR 0x0A}"
  using show_nat_props[of n] digit_char_props by fastforce

lemma show_nat_read:
  "takeWhile is_digit (show_nat n) = show_nat n" "dec_value 0 (show_nat n) = n" "show_nat n \<noteq> []"
  "read_sign (dropWhile is_space (show_nat n)) = (False, show_nat n)"
proof -
  show "takeWhile is_digit (show_nat n) = show_nat n" using show_nat_digits[of _ n] by (simp add: takeWhile_eq_all_conv)
  show "dec_value 0 (show_nat n) = n" "show_nat n \<noteq> []" using show_nat_props[of n] by blast+
  obtain c cs where s: "show_nat n = c # cs" using show_nat_props[of n] by (cases "show_nat n") auto
  have "\<not> is_space c" "c \<noteq> CHR ''-''" "c \<noteq> CHR ''+''" using show_nat_digits[of c n] s by auto
  then show "read_sign (dropWhile is_space (show_nat n)) = (False, show_nat n)" using s by simp
qed

lemma not_space_minus: "\<not> is_space CHR ''-''"
  by (simp add: is_space_def)

lemma strtoull_show: "n < 2 ^ 64 \<Longrightarrow> strtoull (show_nat n) = word_of_nat n"
  by (simp add: strtoull_def show_nat_read)

lemma stoull_show: "n < 2 ^ 64 \<Longrightarrow> stoull (show_nat n) = Some (word_of_nat n)"
  by (simp add: stoull_def show_nat_read)

lemma show_int_cases:
  "i < 0 \<and> show_int i = CHR ''-'' # show_nat (nat (- i)) \<or> \<not> i < 0 \<and> show_int i = show_nat (nat i)"
  by (simp add: show_int_def)

lemma strtoll_show: "- (2 ^ 63) \<le> i \<Longrightarrow> i < 2 ^ 63 \<Longrightarrow> strtoll (show_int i) = i"
  using show_int_cases[of i] by (auto simp: strtoll_def show_nat_read not_space_minus)

lemma stoll_show: "- (2 ^ 63) \<le> i \<Longrightarrow> i < 2 ^ 63 \<Longrightarrow> stoll (show_int i) = Some i"
  using show_int_cases[of i] by (auto simp: stoll_def show_nat_read not_space_minus)

lemma strtoull_u64: "strtoull (show_nat (unat w)) = w" for w :: u64
proof -
  have "unat w < 2 ^ 64" using unsigned_less[of w] by simp
  then have "strtoull (show_nat (unat w)) = word_of_nat (unat w)" by (rule strtoull_show)
  then show ?thesis by simp
qed

lemma separator_unique:
  fixes a :: string
  assumes "a @ d # r = a' @ d # r'" "d \<notin> set a" "d \<notin> set a'"
  shows "a = a' \<and> r = r'"
proof -
  have "(a, Some r) = (a', Some r')"
    using split_at_char_append(1)[OF assms(2), of r] split_at_char_append(1)[OF assms(3), of r'] assms(1) by (metis (no_types))
  then show ?thesis by simp
qed

lemma last_separator_unique:
  fixes a :: string
  assumes "a @ d # r = a' @ d # r'" "d \<notin> set r" "d \<notin> set r'"
  shows "a = a' \<and> r = r'"
proof -
  have "rev r @ d # rev a = rev r' @ d # rev a'" using arg_cong[OF assms(1), of rev] by (simp only: rev_append rev.simps append_assoc append.simps)
  then show ?thesis using separator_unique[of "rev r" d "rev a" "rev r'" "rev a'"] assms(2,3) by (metis rev_rev_ident set_rev)
qed

lemma show_int_chars: "c \<in> set (show_int i) \<Longrightarrow> c \<notin> {CHR '','', CHR ''|'', CHR 0x0A}"
  using show_nat_digits[of c "nat (- i)"] show_nat_digits[of c "nat i"] by (auto simp: show_int_def split: if_splits)

lemma show_nat_inj: "show_nat m = show_nat n \<Longrightarrow> m = n"
  by (metis show_nat_props)

lemma show_int_inj: "show_int i = show_int j \<Longrightarrow> i = j"
proof -
  assume e: "show_int i = show_int j"
  have "CHR ''-'' \<notin> set (show_nat n)" for n using show_nat_digits[of "CHR ''-''" n] by blast
  then have h: "hd (show_nat n) \<noteq> CHR ''-''" for n using show_nat_props[of n] by (metis hd_in_set)
  show ?thesis
  proof (cases "i < 0"; cases "j < 0")
    assume "i < 0" "j < 0"
    then show ?thesis using e show_nat_inj by (fastforce simp: show_int_def)
  next
    assume "\<not> i < 0" "\<not> j < 0"
    then show ?thesis using e show_nat_inj by (fastforce simp: show_int_def)
  qed (use e h in \<open>metis list.sel(1) show_int_def\<close>)+
qed

lemma file_lines_Cons:
  "CHR 0x0A \<notin> set l \<Longrightarrow> file_lines (Some (l @ CHR 0x0A # rest)) = l # file_lines (Some rest)"
  by (subst file_lines.simps) (simp add: split_at_char_append)

lemma file_lines_Nil: "file_lines (Some []) = []"
  by (subst file_lines.simps) simp

lemma file_lines_concat:
  "\<forall>l \<in> set ls. CHR 0x0A \<notin> set l \<Longrightarrow> file_lines (Some (concat (map (\<lambda>l. l @ [CHR 0x0A]) ls))) = ls"
  by (induction ls) (simp_all add: file_lines_Cons file_lines_Nil)

text \<open>
  \<open>std::ostream << double\<close> with the default precision: six significant digits, fixed notation
  for exponents from \<open>-4\<close> to \<open>5\<close>, trailing zeros removed.
\<close>

definition flog10 :: "rat \<Rightarrow> int" where
  "flog10 q = (case quotient_of q of (a, b) \<Rightarrow>
     (let e = int (length (show_nat (nat a))) - int (length (show_nat (nat b)))
      in if 10 powi e \<le> q then e else e - 1))"

definition strip_zeros :: "string \<Rightarrow> string" where
  "strip_zeros s = rev (dropWhile (\<lambda>c. c = CHR ''0'') (rev s))"

definition with_fraction :: "string \<Rightarrow> string \<Rightarrow> string" where
  "with_fraction ip fp = (let f = strip_zeros fp in if f = [] then ip else ip @ ''.'' @ f)"

definition show_exp :: "int \<Rightarrow> string" where
  "show_exp e = (if e < 0 then ''-'' else ''+'') @ (let d = show_nat (nat \<bar>e\<bar>) in if length d < 2 then CHR ''0'' # d else d)"

definition show_pos :: "rat \<Rightarrow> string" where
  "show_pos x =
     (let e0 = flog10 x;
          d0 = nat (round_even (x / 10 powi (e0 - 5)));
          (d, e) = (if d0 \<ge> 1000000 then (d0 div 10, e0 + 1) else (d0, e0));
          ds = show_nat d
      in if e < - 4 \<or> 6 \<le> e then with_fraction (take 1 ds) (drop 1 ds) @ ''e'' @ show_exp e
         else if e < 0 then with_fraction ''0'' (replicate (nat (- e - 1)) CHR ''0'' @ ds)
         else with_fraction (take (nat e + 1) ds) (drop (nat e + 1) ds))"

fun show_double :: "fp \<Rightarrow> string" where
  "show_double (Fin x) = (if x = 0 then ''0'' else if x < 0 then ''-'' @ show_pos (- x) else show_pos x)"
| "show_double PInf = ''inf''"
| "show_double NInf = ''-inf''"
| "show_double NaN = ''nan''"

section \<open>Prefixes\<close>

text \<open>The value of a \<open>--key=value\<close> argument.\<close>

definition arg_value :: "string \<Rightarrow> string \<Rightarrow> string option" where
  "arg_value key arg = (if take (length key) arg = key then Some (drop (length key) arg) else None)"

text \<open>The first flag of a table whose key the argument starts with sets its option.\<close>

fun apply_flag :: "(string \<times> (string \<Rightarrow> 'o \<Rightarrow> 'o)) list \<Rightarrow> string \<Rightarrow> 'o \<Rightarrow> 'o option" where
  "apply_flag [] a r = None"
| "apply_flag ((key, setter) # flags) a r =
     (case arg_value key a of Some v \<Rightarrow> Some (setter v r) | None \<Rightarrow> apply_flag flags a r)"

lemma arg_value_append [simp]: "arg_value key (key @ v) = Some v"
  by (simp add: arg_value_def)

end
