(* ===== verification/Weather.thy ===== *)
theory Weather
  imports Cstd
begin

text \<open>
  Alert severities and the weather feed: weather/src/alert_engine.cc,
  weather/src/weather_client.cc and the gateway's \<open>WeatherCache\<close>.  The HTTP transport and the
  JSON library are parameters.
\<close>

section \<open>Alert engine\<close>

datatype AlertSeverity = kNone | kLow | kMedium | kHigh | kCritical

fun severity_rank :: "AlertSeverity \<Rightarrow> nat" where
  "severity_rank kNone = 0"
| "severity_rank kLow = 1"
| "severity_rank kMedium = 2"
| "severity_rank kHigh = 3"
| "severity_rank kCritical = 4"

instantiation AlertSeverity :: linorder
begin

definition less_eq_AlertSeverity :: "AlertSeverity \<Rightarrow> AlertSeverity \<Rightarrow> bool" where
  "less_eq_AlertSeverity a b \<longleftrightarrow> severity_rank a \<le> severity_rank b"

definition less_AlertSeverity :: "AlertSeverity \<Rightarrow> AlertSeverity \<Rightarrow> bool" where
  "less_AlertSeverity a b \<longleftrightarrow> severity_rank a < severity_rank b"

instance
proof
  fix a b :: AlertSeverity
  assume "a \<le> b" "b \<le> a"
  then show "a = b" by (cases a; cases b) (simp_all add: less_eq_AlertSeverity_def)
qed (auto simp: less_eq_AlertSeverity_def less_AlertSeverity_def)

end

fun severity_ToString :: "AlertSeverity \<Rightarrow> string" where
  "severity_ToString kNone = ''none''"
| "severity_ToString kLow = ''low''"
| "severity_ToString kMedium = ''medium''"
| "severity_ToString kHigh = ''high''"
| "severity_ToString kCritical = ''critical''"

fun Escalate :: "AlertSeverity \<Rightarrow> AlertSeverity" where
  "Escalate kNone = kLow"
| "Escalate kLow = kMedium"
| "Escalate kMedium = kHigh"
| "Escalate kHigh = kCritical"
| "Escalate kCritical = kCritical"

record WeatherConditions =
  temperature_c :: fp
  relative_humidity_pct :: fp
  wind_speed_kmh :: fp
  wind_direction_deg :: fp
  fetched_unix_ns :: int

record FireWeatherThresholds =
  low_confidence_cutoff :: fp
  medium_confidence_cutoff :: fp
  high_confidence_cutoff :: fp
  high_wind_kmh :: fp
  low_humidity_pct :: fp
  extreme_wind_kmh :: fp

definition default_thresholds :: FireWeatherThresholds where
  "default_thresholds = \<lparr>low_confidence_cutoff = rnd binary32 (30/100), medium_confidence_cutoff = rnd binary32 (60/100),
     high_confidence_cutoff = rnd binary32 (85/100), high_wind_kmh = Fin 40, low_humidity_pct = Fin 25,
     extreme_wind_kmh = Fin 65\<rparr>"

definition ComputeAlertSeverity :: "fp \<Rightarrow> WeatherConditions option \<Rightarrow> FireWeatherThresholds \<Rightarrow> AlertSeverity" where
  "ComputeAlertSeverity confidence weather t =
     (if fp_less confidence (low_confidence_cutoff t) then kNone
      else
        let severity = (if fp_le (high_confidence_cutoff t) confidence then kHigh
                        else if fp_le (medium_confidence_cutoff t) confidence then kMedium else kLow)
        in case weather of
             None \<Rightarrow> severity
           | Some w \<Rightarrow>
               if fp_le (extreme_wind_kmh t) (wind_speed_kmh w) then kCritical
               else if fp_le (high_wind_kmh t) (wind_speed_kmh w) \<and> fp_le (relative_humidity_pct w) (low_humidity_pct t)
               then Escalate severity else severity)"

section \<open>Weather client\<close>

text \<open>
  The operations of the JSON library the client uses; \<open>None\<close> is a thrown exception.
\<close>

record 'j json_api =
  parse :: "string \<Rightarrow> 'j option"
  contains :: "'j \<Rightarrow> string \<Rightarrow> bool"
  at_key :: "'j \<Rightarrow> string \<Rightarrow> 'j option"
  get_double :: "'j \<Rightarrow> fp option"

record HttpGetResponse =
  status_code :: int
  body :: string

definition weather_url :: "string \<Rightarrow> fp \<Rightarrow> fp \<Rightarrow> string" where
  "weather_url base_url latitude longitude =
     base_url @ ''?latitude='' @ show_double latitude @ ''&longitude='' @ show_double longitude @
     ''&current=temperature_2m,relative_humidity_2m,wind_speed_10m,wind_direction_10m''"

definition get_field :: "'j json_api \<Rightarrow> 'j \<Rightarrow> string \<Rightarrow> fp option" where
  "get_field J j key = (case at_key J j key of None \<Rightarrow> None | Some v \<Rightarrow> get_double J v)"

definition FetchCurrent ::
    "'j json_api \<Rightarrow> (string \<Rightarrow> HttpGetResponse) \<Rightarrow> string \<Rightarrow> int \<Rightarrow> fp \<Rightarrow> fp \<Rightarrow> WeatherConditions option" where
  "FetchCurrent J get base_url now latitude longitude =
     (let resp = get (weather_url base_url latitude longitude) in
      if status_code resp \<noteq> 200 then None
      else case parse J (body resp) of
             None \<Rightarrow> None
           | Some doc \<Rightarrow>
               if \<not> contains J doc ''current'' then None
               else case at_key J doc ''current'' of
                      None \<Rightarrow> None
                    | Some current \<Rightarrow>
                        (case (get_field J current ''temperature_2m'', get_field J current ''relative_humidity_2m'',
                               get_field J current ''wind_speed_10m'', get_field J current ''wind_direction_10m'') of
                           (Some t, Some h, Some s, Some d) \<Rightarrow>
                             Some \<lparr>temperature_c = t, relative_humidity_pct = h, wind_speed_kmh = s,
                                   wind_direction_deg = d, fetched_unix_ns = now\<rparr>
                         | _ \<Rightarrow> None))"

text \<open>One refresh of the gateway's cache: a failed fetch keeps the previous reading.\<close>

definition weather_refresh :: "WeatherConditions option \<Rightarrow> WeatherConditions option \<Rightarrow> WeatherConditions option" where
  "weather_refresh fetched current = (case fetched of Some w \<Rightarrow> Some w | None \<Rightarrow> current)"

text \<open>
  The cache: the constructor's refresh interval, the number of 100 ms naps between two fetches (\<open>None\<close> is the
  overflow of the \<open>int\<close> product), and the thread on what its rounds see, the stop flag and the fetched reading.
\<close>

record WeatherCache =
  refresh_s :: int
  wc_current :: "WeatherConditions option"

definition new_cache :: "int \<Rightarrow> WeatherCache" where
  "new_cache refresh = \<lparr>refresh_s = max refresh 1, wc_current = None\<rparr>"

definition naps_between :: "WeatherCache \<Rightarrow> nat option" where
  "naps_between c = (let n = refresh_s c * 10 in if n < 2 ^ 31 then Some (nat n) else None)"

fun cache_thread :: "(bool \<times> WeatherConditions option) list \<Rightarrow> WeatherCache \<Rightarrow> WeatherCache" where
  "cache_thread [] c = c"
| "cache_thread ((stop, fetched) # rounds) c =
     (if stop then c else cache_thread rounds (c\<lparr>wc_current := weather_refresh fetched (wc_current c)\<rparr>))"

definition cache_Current :: "WeatherCache \<Rightarrow> WeatherConditions option" where
  "cache_Current c = wc_current c"

section \<open>Lemmas\<close>

text \<open>\<open>Current\<close> is the newest reading that was fetched, however many fetches failed since.\<close>

lemma cache_thread_newest:
  assumes "\<forall>(stop, r)\<in>set rounds. \<not> stop"
  shows "cache_Current (cache_thread rounds c) =
    (case filter (\<lambda>r. r \<noteq> None) (map snd rounds) of [] \<Rightarrow> cache_Current c | rs \<Rightarrow> last rs)"
  using assms
proof (induction rounds arbitrary: c)
  case (Cons x rounds)
  obtain stop r where x: "x = (stop, r)" by (cases x)
  have "\<not> stop" using Cons.prems x by simp
  then show ?case
    using Cons.IH[of "c\<lparr>wc_current := weather_refresh r (wc_current c)\<rparr>"] Cons.prems
    by (cases r; cases "filter (\<lambda>r. r \<noteq> None) (map snd rounds)") (simp_all add: x cache_Current_def weather_refresh_def)
qed (simp add: cache_Current_def)

lemma cache_thread_stops: "cache_thread ((True, r) # rounds) c = c"
  by simp

lemma refresh_overflows: "naps_between (new_cache 300) = Some 3000" "naps_between (new_cache 300000000) = None"
  by (simp_all add: naps_between_def new_cache_def)

lemma fp_le_trans: "fp_le a b \<Longrightarrow> fp_le b c \<Longrightarrow> fp_le a c"
  by (cases a; cases b; cases c) auto

lemma fp_le_less_trans: "fp_le a b \<Longrightarrow> fp_less b c \<Longrightarrow> fp_less a c"
  by (cases a; cases b; cases c) auto

lemma fp_le_not_less: "fp_le a b \<Longrightarrow> \<not> fp_less b a"
  by (cases a; cases b) auto

lemma Escalate_mono: "a \<le> b \<Longrightarrow> Escalate a \<le> Escalate b"
  by (cases a; cases b) (simp_all add: less_eq_AlertSeverity_def)

lemma Escalate_ge: "a \<le> Escalate a"
  by (cases a) (simp_all add: less_eq_AlertSeverity_def)

lemma le_kCritical: "a \<le> kCritical"
  by (cases a) (simp_all add: less_eq_AlertSeverity_def)

lemma kNone_le: "kNone \<le> a"
  by (cases a) (simp_all add: less_eq_AlertSeverity_def)

text \<open>The tier that confidence alone gives.\<close>

definition confidence_tier :: "fp \<Rightarrow> FireWeatherThresholds \<Rightarrow> AlertSeverity" where
  "confidence_tier c t =
     (if fp_le (high_confidence_cutoff t) c then kHigh
      else if fp_le (medium_confidence_cutoff t) c then kMedium else kLow)"

lemma confidence_tier_mono:
  assumes "fp_le c c'"
  shows "confidence_tier c t \<le> confidence_tier c' t"
  using fp_le_trans[OF _ assms] by (auto simp: confidence_tier_def less_eq_AlertSeverity_def)

lemma ComputeAlertSeverity_eq:
  "ComputeAlertSeverity c w t =
    (if fp_less c (low_confidence_cutoff t) then kNone
     else case w of None \<Rightarrow> confidence_tier c t
       | Some w \<Rightarrow> if fp_le (extreme_wind_kmh t) (wind_speed_kmh w) then kCritical
           else if fp_le (high_wind_kmh t) (wind_speed_kmh w) \<and> fp_le (relative_humidity_pct w) (low_humidity_pct t)
           then Escalate (confidence_tier c t) else confidence_tier c t)"
  unfolding ComputeAlertSeverity_def Let_def confidence_tier_def[symmetric] ..

section \<open>Properties\<close>

text \<open>
  C35: under the same weather a more confident detection is never rated lower; weather data
  never lowers the rating of a detection; and a detection below the low cutoff raises no
  alert in any weather.
\<close>

theorem alert_severity_monotone:
  assumes "fp_le c c'"
  shows "ComputeAlertSeverity c w t \<le> ComputeAlertSeverity c' w t \<and>
    ComputeAlertSeverity c None t \<le> ComputeAlertSeverity c w t \<and>
    (fp_less c (low_confidence_cutoff t) \<longrightarrow> ComputeAlertSeverity c w t = kNone)"
proof -
  have "fp_less c (low_confidence_cutoff t)" if "fp_less c' (low_confidence_cutoff t)"
    using fp_le_less_trans[OF assms that] .
  then show ?thesis
    using confidence_tier_mono[OF assms, of t] Escalate_mono Escalate_ge le_kCritical kNone_le
    by (auto simp: ComputeAlertSeverity_eq split: option.splits)
qed

theorem alert_severity_monotone_witness:
  "fp_le (Fin (1/2)) (Fin 1) \<and>
   ComputeAlertSeverity (Fin (1/2)) None default_thresholds \<le> ComputeAlertSeverity (Fin 1) None default_thresholds"
  using alert_severity_monotone[of "Fin (1/2)" "Fin 1" None default_thresholds] by simp

text \<open>
  The client reports weather only when every field of the reading is present and numeric; a
  failed fetch leaves the cached reading in place.
\<close>

lemma FetchCurrent_all_or_nothing:
  "(FetchCurrent J get base_url now lat lon = Some w \<longleftrightarrow>
      (\<exists>doc cur. status_code (get (weather_url base_url lat lon)) = 200 \<and>
         parse J (body (get (weather_url base_url lat lon))) = Some doc \<and> contains J doc ''current'' \<and>
         at_key J doc ''current'' = Some cur \<and>
         get_field J cur ''temperature_2m'' = Some (temperature_c w) \<and>
         get_field J cur ''relative_humidity_2m'' = Some (relative_humidity_pct w) \<and>
         get_field J cur ''wind_speed_10m'' = Some (wind_speed_kmh w) \<and>
         get_field J cur ''wind_direction_10m'' = Some (wind_direction_deg w) \<and> fetched_unix_ns w = now)) \<and>
    weather_refresh (FetchCurrent J get base_url now lat lon) cached =
      (case FetchCurrent J get base_url now lat lon of None \<Rightarrow> cached | Some w \<Rightarrow> Some w)"
  by (cases w) (auto simp: FetchCurrent_def weather_refresh_def Let_def split: option.splits)

end
