(* ===== verification/Shadow.thy ===== *)
theory Shadow
  imports Cstd
begin

text \<open>
  Device shadows in DynamoDB: request signing (dynamodb/src/sigv4_signer.cc), the store
  (dynamodb/src/device_shadow_store.cc) and the gateway's read-modify-write loop.  SHA-256,
  HMAC, the JSON library and the HTTP transport are parameters.
\<close>

section \<open>Text helpers\<close>

fun str_less :: "string \<Rightarrow> string \<Rightarrow> bool" where
  "str_less xs [] = False"
| "str_less [] (y # ys) = True"
| "str_less (x # xs) (y # ys) =
     ((of_char x :: nat) < of_char y \<or> x = y \<and> str_less xs ys)"

text \<open>\<open>std::map<std::string, std::string>\<close>: an association list sorted by key.\<close>

type_synonym headers = "(string \<times> string) list"

fun map_set :: "string \<Rightarrow> string \<Rightarrow> headers \<Rightarrow> headers" where
  "map_set k v [] = [(k, v)]"
| "map_set k v ((k', v') # m) =
     (if k = k' then (k, v) # m
      else if str_less k k' then (k, v) # (k', v') # m
      else (k', v') # map_set k v m)"

fun str_contains :: "string \<Rightarrow> string \<Rightarrow> bool" where
  "str_contains pat [] = (pat = [])"
| "str_contains pat (c # cs) = (take (length pat) (c # cs) = pat \<or> str_contains pat cs)"

fun after_scheme :: "string \<Rightarrow> string option" where
  "after_scheme [] = None"
| "after_scheme (c # cs) =
     (if take 3 (c # cs) = ''://'' then Some (drop 3 (c # cs)) else after_scheme cs)"

definition HostFromEndpoint :: "string \<Rightarrow> string" where
  "HostFromEndpoint endpoint = (case after_scheme endpoint of None \<Rightarrow> endpoint | Some host \<Rightarrow> host)"

definition hex_char :: "nat \<Rightarrow> char" where
  "hex_char n = ''0123456789abcdef'' ! n"

definition ToHex :: "string \<Rightarrow> string" where
  "ToHex bytes = concat (map (\<lambda>c. [hex_char (of_char c div 16), hex_char (of_char c mod 16)]) bytes)"

section \<open>Dates\<close>

text \<open>\<open>gmtime_r\<close>: the proleptic Gregorian date of a number of days since 1970-01-01.\<close>

definition civil_from_days :: "int \<Rightarrow> int \<times> int \<times> int" where
  "civil_from_days days =
     (let z = days + 719468;
          era = z div 146097;
          doe = z mod 146097;
          yoe = (doe - doe div 1460 + doe div 36524 - doe div 146096) div 365;
          doy = doe - (365 * yoe + yoe div 4 - yoe div 100);
          mp = (5 * doy + 2) div 153;
          d = doy - (153 * mp + 2) div 5 + 1;
          m = (if mp < 10 then mp + 3 else mp - 9);
          y = yoe + era * 400 + (if m \<le> 2 then 1 else 0)
      in (y, m, d))"

definition pad2 :: "int \<Rightarrow> string" where
  "pad2 i = (let s = show_int i in if length s < 2 then CHR ''0'' # s else s)"

definition FormatDateStamp :: "int \<Rightarrow> string" where
  "FormatDateStamp t = (case civil_from_days (t div 86400) of (y, m, d) \<Rightarrow> show_int y @ pad2 m @ pad2 d)"

definition FormatAmzDate :: "int \<Rightarrow> string" where
  "FormatAmzDate t =
     (case civil_from_days (t div 86400) of (y, m, d) \<Rightarrow>
        (let s = t mod 86400
         in show_int y @ pad2 m @ pad2 d @ ''T'' @ pad2 (s div 3600) @ pad2 (s mod 3600 div 60) @ pad2 (s mod 60) @ ''Z''))"

section \<open>Request signing\<close>

record crypto =
  sha256 :: "string \<Rightarrow> string"
  hmac :: "string \<Rightarrow> string \<Rightarrow> string"

record SigV4Credentials =
  access_key_id :: string
  secret_access_key :: string
  region :: string
  service :: string

record SigV4SignedRequest =
  amz_date :: string
  authorization_header :: string

definition newline :: string where "newline = [CHR 0x0A]"

definition canonical_headers :: "headers \<Rightarrow> string" where
  "canonical_headers hs = concat (map (\<lambda>(k, v). k @ '':'' @ v @ newline) hs)"

fun signed_headers :: "headers \<Rightarrow> string" where
  "signed_headers [] = []"
| "signed_headers [(k, v)] = k"
| "signed_headers ((k, v) # hs) = k @ '';'' @ signed_headers hs"

definition Sign ::
    "crypto \<Rightarrow> SigV4Credentials \<Rightarrow> string \<Rightarrow> string \<Rightarrow> string \<Rightarrow> string \<Rightarrow> headers \<Rightarrow> int \<Rightarrow> SigV4SignedRequest" where
  "Sign C cred method host path body extra_headers unix_seconds =
     (let date = FormatAmzDate unix_seconds;
          date_stamp = FormatDateStamp unix_seconds;
          payload_hash = ToHex (sha256 C body);
          all_headers = map_set ''x-amz-date'' date (map_set ''host'' host extra_headers);
          canonical_request = method @ newline @ path @ newline @ '''' @ newline @
            canonical_headers all_headers @ newline @ signed_headers all_headers @ newline @ payload_hash;
          credential_scope = date_stamp @ ''/'' @ region cred @ ''/'' @ service cred @ ''/aws4_request'';
          string_to_sign = ''AWS4-HMAC-SHA256'' @ newline @ date @ newline @ credential_scope @ newline @
            ToHex (sha256 C canonical_request);
          k_date = hmac C (''AWS4'' @ secret_access_key cred) date_stamp;
          k_region = hmac C k_date (region cred);
          k_service = hmac C k_region (service cred);
          k_signing = hmac C k_service ''aws4_request'';
          signature_hex = ToHex (hmac C k_signing string_to_sign)
      in \<lparr>amz_date = date,
          authorization_header = ''AWS4-HMAC-SHA256 Credential='' @ access_key_id cred @ ''/'' @ credential_scope @
            '', SignedHeaders='' @ signed_headers all_headers @ '', Signature='' @ signature_hex\<rparr>)"

section \<open>The store\<close>

text \<open>The request documents the code builds, and the JSON operations it applies to responses.\<close>

datatype jsonv = JStr string | JObj "(string \<times> jsonv) list"

record 'j shadow_json =
  dump :: "jsonv \<Rightarrow> string"
  sj_parse :: "string \<Rightarrow> 'j option"
  sj_contains :: "'j \<Rightarrow> string \<Rightarrow> bool"
  sj_index :: "'j \<Rightarrow> string \<Rightarrow> 'j option"
  sj_string :: "'j \<Rightarrow> string option"
  sj_value :: "'j \<Rightarrow> string \<Rightarrow> string \<Rightarrow> string option"

record HttpResponse =
  resp_status :: int
  resp_body :: string

record DynamoDbConfig =
  endpoint :: string
  table_name :: string
  creds :: SigV4Credentials

type_synonym 'w transport = "string \<Rightarrow> string \<Rightarrow> headers \<Rightarrow> 'w \<Rightarrow> HttpResponse \<times> 'w"

definition SignedPost ::
    "crypto \<Rightarrow> 'w transport \<Rightarrow> DynamoDbConfig \<Rightarrow> int \<Rightarrow> string \<Rightarrow> string \<Rightarrow> 'w \<Rightarrow> HttpResponse \<times> 'w" where
  "SignedPost C post cfg unix_seconds target json_body w =
     (let host = HostFromEndpoint (endpoint cfg);
          headers_to_sign = map_set ''x-amz-target'' (''DynamoDB_20120810.'' @ target)
            (map_set ''content-type'' ''application/x-amz-json-1.0'' []);
          signed_req = Sign C (creds cfg) ''POST'' host ''/'' json_body headers_to_sign unix_seconds;
          headers = map_set ''authorization'' (authorization_header signed_req)
            (map_set ''x-amz-date'' (amz_date signed_req) headers_to_sign)
      in post (endpoint cfg) json_body headers w)"

record DeviceShadow =
  reported_json :: string
  shadow_version :: int

definition index3 :: "'j shadow_json \<Rightarrow> 'j \<Rightarrow> string \<Rightarrow> string \<Rightarrow> string \<Rightarrow> string option" where
  "index3 J j a b c =
     (case sj_index J j a of None \<Rightarrow> None | Some ja \<Rightarrow>
        (case sj_index J ja b of None \<Rightarrow> None | Some jb \<Rightarrow>
           (case sj_index J jb c of None \<Rightarrow> None | Some jc \<Rightarrow> sj_string J jc)))"

definition get_request :: "DynamoDbConfig \<Rightarrow> string \<Rightarrow> jsonv" where
  "get_request cfg device_id =
     JObj [(''TableName'', JStr (table_name cfg)), (''Key'', JObj [(''device_id'', JObj [(''S'', JStr device_id)])])]"

definition GetReported ::
    "crypto \<Rightarrow> 'j shadow_json \<Rightarrow> 'w transport \<Rightarrow> DynamoDbConfig \<Rightarrow> int \<Rightarrow> string \<Rightarrow> 'w \<Rightarrow> DeviceShadow option \<times> 'w" where
  "GetReported C J post cfg t device_id w =
     (case SignedPost C post cfg t ''GetItem'' (dump J (get_request cfg device_id)) w of (resp, w') \<Rightarrow>
        (if resp_status resp \<noteq> 200 then None
         else case sj_parse J (resp_body resp) of
                None \<Rightarrow> None
              | Some body \<Rightarrow>
                  if \<not> sj_contains J body ''Item'' then None
                  else (case index3 J body ''Item'' ''reported_json'' ''S'' of
                          None \<Rightarrow> None
                        | Some r \<Rightarrow> (case index3 J body ''Item'' ''version'' ''N'' of
                             None \<Rightarrow> None
                           | Some n \<Rightarrow> (case stoll n of None \<Rightarrow> None
                               | Some v \<Rightarrow> Some \<lparr>reported_json = r, shadow_version = v\<rparr>))),
         w'))"

datatype PutResult = kSuccess | kVersionConflict | kError

text \<open>What a call of \<open>PutReported\<close> may do: return, let an exception escape, or overflow.\<close>

datatype put_outcome = PutReturns PutResult | PutThrows | PutUndefined

definition put_request :: "DynamoDbConfig \<Rightarrow> string \<Rightarrow> string \<Rightarrow> int \<Rightarrow> jsonv" where
  "put_request cfg device_id reported expected_version =
     JObj ([(''TableName'', JStr (table_name cfg)),
            (''Item'', JObj [(''device_id'', JObj [(''S'', JStr device_id)]),
                             (''reported_json'', JObj [(''S'', JStr reported)]),
                             (''version'', JObj [(''N'', JStr (show_int (expected_version + 1)))])])] @
           (if expected_version = 0
            then [(''ConditionExpression'', JStr ''attribute_not_exists(device_id)'')]
            else [(''ConditionExpression'', JStr ''version = :v''),
                  (''ExpressionAttributeValues'', JObj [('':v'', JObj [(''N'', JStr (show_int expected_version))])])]))"

definition PutReported ::
    "crypto \<Rightarrow> 'j shadow_json \<Rightarrow> 'w transport \<Rightarrow> DynamoDbConfig \<Rightarrow> int \<Rightarrow> string \<Rightarrow> string \<Rightarrow> int \<Rightarrow> 'w \<Rightarrow>
     put_outcome \<times> 'w" where
  "PutReported C J post cfg t device_id reported expected_version w =
     (if expected_version \<ge> 2 ^ 63 - 1 then (PutUndefined, w)
      else case SignedPost C post cfg t ''PutItem'' (dump J (put_request cfg device_id reported expected_version)) w of
        (resp, w') \<Rightarrow>
          (if resp_status resp = 200 then PutReturns kSuccess
           else if resp_status resp = 400 then
             (case sj_parse J (resp_body resp) of
                None \<Rightarrow> PutReturns kError
              | Some body \<Rightarrow> (case sj_value J body ''__type'' '''' of
                   None \<Rightarrow> PutThrows
                 | Some type \<Rightarrow> PutReturns (if str_contains ''ConditionalCheckFailedException'' type
                                            then kVersionConflict else kError)))
           else PutReturns kError,
           w'))"

text \<open>
  \<open>UpsertReportedWithRetry\<close> of the gateway, over any store: \<open>get\<close> and \<open>put\<close> are the two
  operations above applied to one device.
\<close>

fun upsert_loop ::
    "nat \<Rightarrow> ('w \<Rightarrow> DeviceShadow option \<times> 'w) \<Rightarrow> (int \<Rightarrow> 'w \<Rightarrow> put_outcome \<times> 'w) \<Rightarrow> 'w \<Rightarrow> put_outcome \<times> 'w" where
  "upsert_loop 0 get put w = (PutReturns kVersionConflict, w)"
| "upsert_loop (Suc n) get put w =
     (case get w of (current, w1) \<Rightarrow>
        (let expected_version = (case current of None \<Rightarrow> 0 | Some s \<Rightarrow> shadow_version s) in
         case put expected_version w1 of
           (PutReturns kVersionConflict, w2) \<Rightarrow> upsert_loop n get put w2
         | (r, w2) \<Rightarrow> (r, w2)))"

definition UpsertReportedWithRetry ::
    "crypto \<Rightarrow> 'j shadow_json \<Rightarrow> 'w transport \<Rightarrow> DynamoDbConfig \<Rightarrow> int \<Rightarrow> string \<Rightarrow> string \<Rightarrow> 'w \<Rightarrow> put_outcome \<times> 'w" where
  "UpsertReportedWithRetry C J post cfg t device_id reported =
     upsert_loop 3 (GetReported C J post cfg t device_id) (PutReported C J post cfg t device_id reported)"

section \<open>Lemmas\<close>

lemma upsert_loop_success:
  "upsert_loop n get put w = (PutReturns kSuccess, w') \<Longrightarrow>
   \<exists>w0 s w1. get w0 = (s, w1) \<and>
     put (case s of None \<Rightarrow> 0 | Some s \<Rightarrow> shadow_version s) w1 = (PutReturns kSuccess, w')"
proof (induction n arbitrary: w)
  case (Suc n)
  obtain s w1 where g: "get w = (s, w1)" by fastforce
  obtain r w2 where p: "put (case s of None \<Rightarrow> 0 | Some s \<Rightarrow> shadow_version s) w1 = (r, w2)" by fastforce
  show ?case
  proof (cases "r = PutReturns kVersionConflict")
    case True
    then show ?thesis using Suc g p by (simp add: Let_def)
  next
    case False
    then have "r = PutReturns kSuccess \<and> w2 = w'"
      using Suc.prems g p by (auto simp: Let_def split: put_outcome.splits PutResult.splits)
    then show ?thesis using g p by blast
  qed
qed simp

lemma PutReported_success:
  assumes "PutReported C J post cfg t dev rep v w = (PutReturns kSuccess, w')"
  shows "\<exists>hs resp. post (endpoint cfg) (dump J (put_request cfg dev rep v)) hs w = (resp, w') \<and> resp_status resp = 200"
proof -
  obtain resp w1 where p: "SignedPost C post cfg t ''PutItem'' (dump J (put_request cfg dev rep v)) w = (resp, w1)" by fastforce
  have "resp_status resp = 200 \<and> w1 = w'"
    using assms p by (auto simp: PutReported_def split: if_splits option.splits)
  then show ?thesis using p by (auto simp: SignedPost_def Let_def)
qed

text \<open>A table with one item, no JSON, and conditions read off the request text.\<close>

definition tiny_json :: "unit shadow_json" where
  "tiny_json = \<lparr>dump = (\<lambda>j. case j of JObj [_, _, (_, JStr c)] \<Rightarrow> c | _ \<Rightarrow> ''?''), sj_parse = (\<lambda>_. None), sj_contains = (\<lambda>_ _. False),
     sj_index = (\<lambda>_ _. None), sj_string = (\<lambda>_. None), sj_value = (\<lambda>_ _ _. None)\<rparr>"

definition tiny_post :: "string \<Rightarrow> (string \<times> int) option transport" where
  "tiny_post rep url body hs w =
     (if body = ''attribute_not_exists(device_id)'' \<and> w = None
      then (\<lparr>resp_status = 200, resp_body = ''''\<rparr>, Some (rep, 1))
      else (\<lparr>resp_status = 500, resp_body = ''''\<rparr>, w))"

definition tiny_cfg :: DynamoDbConfig where
  "tiny_cfg = \<lparr>endpoint = ''http://h'', table_name = ''t'',
     creds = \<lparr>access_key_id = '''', secret_access_key = '''', region = '''', service = ''''\<rparr>\<rparr>"

definition tiny_crypto :: crypto where
  "tiny_crypto = \<lparr>sha256 = (\<lambda>_. ''''), hmac = (\<lambda>_ _. '''')\<rparr>"

lemma tiny_dump: "dump tiny_json (put_request cfg dev rep v) = (if v = 0 then ''attribute_not_exists(device_id)'' else ''?'')"
  by (simp add: tiny_json_def put_request_def)

lemma tiny_upsert: "UpsertReportedWithRetry tiny_crypto tiny_json (tiny_post ''x'') tiny_cfg 0 ''d'' ''x'' None =
    (PutReturns kSuccess, Some (''x'', 1))"
proof -
  have "GetReported tiny_crypto tiny_json (tiny_post ''x'') tiny_cfg 0 ''d'' None = (None, None)"
    by (simp add: GetReported_def SignedPost_def Let_def tiny_post_def tiny_json_def get_request_def)
  moreover have "PutReported tiny_crypto tiny_json (tiny_post ''x'') tiny_cfg 0 ''d'' ''x'' 0 None = (PutReturns kSuccess, Some (''x'', 1))"
    by (simp add: PutReported_def SignedPost_def Let_def tiny_dump tiny_post_def)
  ultimately show ?thesis by (simp add: UpsertReportedWithRetry_def numeral_3_eq_3)
qed

section \<open>Properties\<close>



end
