(* ===== verification/Ota.thy ===== *)
theory Ota
  imports Cstd
begin

text \<open>
  Signed update manifests: ota/src/ota_manifest.cc and the command-line tool
  tools/ota_tool.cc.  The OpenSSL calls are a parameter.
\<close>

section \<open>Manifests\<close>

record OtaManifest =
  version :: u64
  binary_sha256_hex :: string
  url :: string
  issued_unix_ns :: int

definition CanonicalBytes :: "OtaManifest \<Rightarrow> string" where
  "CanonicalBytes m =
     ''v1|version='' @ show_nat (unat (version m)) @ ''|binary_sha256='' @ binary_sha256_hex m @ ''|url='' @ url m @
     ''|issued_unix_ns='' @ show_int (issued_unix_ns m)"

section \<open>Keys and signatures\<close>

text \<open>
  The OpenSSL functions the code calls, on keys of type \<open>'key\<close>.  Allocations are flags, a
  function that fills a result gives \<open>None\<close> when it reports failure, and the verdicts stay integers (\<open>1\<close> is
  success).  \<open>sign_length\<close> is the call of \<open>EVP_DigestSign\<close> with no buffer; the other call gets the
  length of the buffer.
\<close>

record 'key openssl =
  BIO_new :: bool
  BIO_new_mem_buf :: "string \<Rightarrow> bool"
  PEM_read_bio_PrivateKey :: "string \<Rightarrow> 'key option"
  PEM_read_bio_PUBKEY :: "string \<Rightarrow> 'key option"
  PEM_write_bio_PrivateKey :: "'key \<Rightarrow> string option"
  PEM_write_bio_PUBKEY :: "'key \<Rightarrow> string option"
  EVP_PKEY_CTX_new_id :: bool
  EVP_PKEY_keygen_init :: int
  EVP_PKEY_keygen :: "'key option"
  EVP_MD_CTX_new :: bool
  EVP_DigestSignInit :: "'key \<Rightarrow> int"
  sign_length :: "'key \<Rightarrow> string \<Rightarrow> nat option"
  EVP_DigestSign :: "'key \<Rightarrow> nat \<Rightarrow> string \<Rightarrow> string option"
  EVP_DigestVerifyInit :: "'key \<Rightarrow> int"
  EVP_DigestVerify :: "'key \<Rightarrow> string \<Rightarrow> string \<Rightarrow> int"

text \<open>\<open>None\<close> is the exception of \<open>ThrowOpenSslError\<close>.\<close>

definition LoadPrivateKeyFromPem :: "'key openssl \<Rightarrow> string \<Rightarrow> 'key option" where
  "LoadPrivateKeyFromPem O1 pem = (if \<not> BIO_new_mem_buf O1 pem then None else PEM_read_bio_PrivateKey O1 pem)"

definition LoadPublicKeyFromPem :: "'key openssl \<Rightarrow> string \<Rightarrow> 'key option" where
  "LoadPublicKeyFromPem O1 pem = (if \<not> BIO_new_mem_buf O1 pem then None else PEM_read_bio_PUBKEY O1 pem)"

definition PemFromPrivateKey :: "'key openssl \<Rightarrow> 'key \<Rightarrow> string option" where
  "PemFromPrivateKey O1 key = (if \<not> BIO_new O1 then None else PEM_write_bio_PrivateKey O1 key)"

definition PemFromPublicKey :: "'key openssl \<Rightarrow> 'key \<Rightarrow> string option" where
  "PemFromPublicKey O1 key = (if \<not> BIO_new O1 then None else PEM_write_bio_PUBKEY O1 key)"

record OtaKeyPair =
  private_key_pem :: string
  public_key_pem :: string

definition GenerateOtaKeyPair :: "'key openssl \<Rightarrow> OtaKeyPair option" where
  "GenerateOtaKeyPair O1 =
     (if \<not> EVP_PKEY_CTX_new_id O1 \<or> EVP_PKEY_keygen_init O1 \<noteq> 1 then None
      else case EVP_PKEY_keygen O1 of
             None \<Rightarrow> None
           | Some key \<Rightarrow>
               (case PemFromPrivateKey O1 key of
                  None \<Rightarrow> None
                | Some priv \<Rightarrow>
                    (case PemFromPublicKey O1 key of
                       None \<Rightarrow> None
                     | Some pub \<Rightarrow> Some \<lparr>private_key_pem = priv, public_key_pem = pub\<rparr>)))"

definition SignManifest :: "'key openssl \<Rightarrow> OtaManifest \<Rightarrow> string \<Rightarrow> string option" where
  "SignManifest O1 manifest pem =
     (case LoadPrivateKeyFromPem O1 pem of
        None \<Rightarrow> None
      | Some key \<Rightarrow>
          let canonical = CanonicalBytes manifest in
          if \<not> EVP_MD_CTX_new O1 then None
          else if EVP_DigestSignInit O1 key \<noteq> 1 then None
          else case sign_length O1 key canonical of
                 None \<Rightarrow> None
               | Some sig_len \<Rightarrow> EVP_DigestSign O1 key sig_len canonical)"

definition VerifyManifestSignature :: "'key openssl \<Rightarrow> OtaManifest \<Rightarrow> string \<Rightarrow> string \<Rightarrow> bool option" where
  "VerifyManifestSignature O1 manifest signature pem =
     (case LoadPublicKeyFromPem O1 pem of
        None \<Rightarrow> None
      | Some key \<Rightarrow>
          let canonical = CanonicalBytes manifest in
          Some (EVP_MD_CTX_new O1 \<and> EVP_DigestVerifyInit O1 key = 1 \<and> EVP_DigestVerify O1 key signature canonical = 1))"

section \<open>The signed-manifest file\<close>

definition hex_digits :: string where "hex_digits = ''0123456789abcdef''"

definition ota_ToHex :: "string \<Rightarrow> string" where
  "ota_ToHex bytes = concat (map (\<lambda>c. [hex_digits ! (of_char c div 16), hex_digits ! (of_char c mod 16)]) bytes)"

fun hex_val :: "char \<Rightarrow> nat option" where
  "hex_val c =
     (let n = of_char c :: nat in
      if 48 \<le> n \<and> n \<le> 57 then Some (n - 48)
      else if 97 \<le> n \<and> n \<le> 102 then Some (n - 87)
      else if 65 \<le> n \<and> n \<le> 70 then Some (n - 55)
      else None)"

definition is_hex :: "char \<Rightarrow> bool" where
  "is_hex c \<longleftrightarrow> hex_val c \<noteq> None"

declare hex_val.simps [simp del]

text \<open>\<open>std::stoi(s, nullptr, 16)\<close> on a short string; \<open>None\<close> is \<open>std::invalid_argument\<close>.\<close>

definition stoi16 :: "string \<Rightarrow> int option" where
  "stoi16 s =
     (case read_sign (dropWhile is_space s) of (neg, cs) \<Rightarrow>
        let body = (if (take 2 cs = ''0x'' \<or> take 2 cs = ''0X'') \<and> length cs > 2 \<and> is_hex (cs ! 2) then drop 2 cs else cs);
            ds = takeWhile is_hex body;
            v = int (foldl (\<lambda>v c. 16 * v + the (hex_val c)) 0 ds)
        in if ds = [] then None else Some (if neg then - v else v))"

fun FromHex :: "string \<Rightarrow> string option" where
  "FromHex (a # b # rest) =
     (case stoi16 [a, b] of
        None \<Rightarrow> None
      | Some i \<Rightarrow> (case FromHex rest of None \<Rightarrow> None | Some bs \<Rightarrow> Some (char_of (nat (i mod 256)) # bs)))"
| "FromHex [a] = Some []"
| "FromHex [] = Some []"

definition eol :: string where "eol = [CHR 0x0A]"

definition SerializeSignedManifest :: "OtaManifest \<Rightarrow> string \<Rightarrow> string" where
  "SerializeSignedManifest m signature =
     ''version='' @ show_nat (unat (version m)) @ eol @
     ''binary_sha256='' @ binary_sha256_hex m @ eol @
     ''url='' @ url m @ eol @
     ''issued_unix_ns='' @ show_int (issued_unix_ns m) @ eol @
     ''signature_hex='' @ ota_ToHex signature @ eol"

text \<open>
  One line of the file: \<open>None\<close> is an exception from a malformed signature, \<open>Some None\<close> an
  unknown line, which makes the parser give up.
\<close>

definition parse_line :: "string \<Rightarrow> OtaManifest \<times> string \<Rightarrow> (OtaManifest \<times> string) option option" where
  "parse_line line st =
     (case st of (m, sig) \<Rightarrow>
        case arg_value ''version='' line of Some v \<Rightarrow> Some (Some (m\<lparr>version := strtoull v\<rparr>, sig)) | None \<Rightarrow>
        case arg_value ''binary_sha256='' line of Some v \<Rightarrow> Some (Some (m\<lparr>binary_sha256_hex := v\<rparr>, sig)) | None \<Rightarrow>
        case arg_value ''url='' line of Some v \<Rightarrow> Some (Some (m\<lparr>url := v\<rparr>, sig)) | None \<Rightarrow>
        case arg_value ''issued_unix_ns='' line of Some v \<Rightarrow> Some (Some (m\<lparr>issued_unix_ns := strtoll v\<rparr>, sig)) | None \<Rightarrow>
        case arg_value ''signature_hex='' line of
          Some v \<Rightarrow> (case FromHex v of None \<Rightarrow> None | Some bs \<Rightarrow> Some (Some (m, bs)))
        | None \<Rightarrow> if line \<noteq> [] then Some None else Some (Some st))"

fun parse_lines :: "string list \<Rightarrow> OtaManifest \<times> string \<Rightarrow> (OtaManifest \<times> string) option option" where
  "parse_lines [] st = Some (Some st)"
| "parse_lines (l # ls) st =
     (case parse_line l st of
        None \<Rightarrow> None
      | Some None \<Rightarrow> Some None
      | Some (Some st') \<Rightarrow> parse_lines ls st')"

definition empty_manifest :: OtaManifest where
  "empty_manifest = \<lparr>version = 0, binary_sha256_hex = [], url = [], issued_unix_ns = 0\<rparr>"

definition ParseSignedManifest :: "string \<Rightarrow> (OtaManifest \<times> string) option option" where
  "ParseSignedManifest text =
     (case parse_lines (file_lines (Some text)) (empty_manifest, []) of
        None \<Rightarrow> None
      | Some None \<Rightarrow> Some None
      | Some (Some (m, sig)) \<Rightarrow> Some (if sig = [] then None else Some (m, sig)))"

section \<open>The tool\<close>

text \<open>The files the tool sees, and which paths it can open for writing.\<close>

record files =
  content :: "string \<rightharpoonup> string"
  writable :: "string \<Rightarrow> bool"

definition ReadFileOrDie :: "string \<Rightarrow> files \<Rightarrow> string option" where
  "ReadFileOrDie path fs = content fs path"

definition WriteFileOrDie :: "string \<Rightarrow> string \<Rightarrow> files \<Rightarrow> files option" where
  "WriteFileOrDie path contents fs =
     (if writable fs path then Some (fs\<lparr>content := (content fs)(path \<mapsto> contents)\<rparr>) else None)"

record ota_args =
  out_prefix :: string
  private_key_path :: string
  public_key_path :: string
  arg_version :: u64
  arg_sha256 :: string
  arg_url :: string
  out_path :: string
  manifest_path :: string

definition no_args :: ota_args where
  "no_args = \<lparr>out_prefix = [], private_key_path = [], public_key_path = [], arg_version = 0, arg_sha256 = [],
     arg_url = [], out_path = [], manifest_path = []\<rparr>"

fun ota_parse_args :: "string list \<Rightarrow> ota_args \<Rightarrow> ota_args option" where
  "ota_parse_args [] o1 = Some o1"
| "ota_parse_args (a # as) o1 =
     (case arg_value ''--out-prefix='' a of Some v \<Rightarrow> ota_parse_args as (o1\<lparr>out_prefix := v\<rparr>) | None \<Rightarrow>
      case arg_value ''--private-key='' a of Some v \<Rightarrow> ota_parse_args as (o1\<lparr>private_key_path := v\<rparr>) | None \<Rightarrow>
      case arg_value ''--public-key='' a of Some v \<Rightarrow> ota_parse_args as (o1\<lparr>public_key_path := v\<rparr>) | None \<Rightarrow>
      case arg_value ''--version='' a of Some v \<Rightarrow> ota_parse_args as (o1\<lparr>arg_version := strtoull v\<rparr>) | None \<Rightarrow>
      case arg_value ''--binary-sha256='' a of Some v \<Rightarrow> ota_parse_args as (o1\<lparr>arg_sha256 := v\<rparr>) | None \<Rightarrow>
      case arg_value ''--url='' a of Some v \<Rightarrow> ota_parse_args as (o1\<lparr>arg_url := v\<rparr>) | None \<Rightarrow>
      case arg_value ''--out='' a of Some v \<Rightarrow> ota_parse_args as (o1\<lparr>out_path := v\<rparr>) | None \<Rightarrow>
      case arg_value ''--manifest='' a of Some v \<Rightarrow> ota_parse_args as (o1\<lparr>manifest_path := v\<rparr>) | None \<Rightarrow> None)"

text \<open>How the process ends: an exit code, or an uncaught exception.\<close>

datatype tool_exit = Exit int | Uncaught

definition cmd_genkey :: "'key openssl \<Rightarrow> ota_args \<Rightarrow> files \<Rightarrow> tool_exit \<times> files" where
  "cmd_genkey S a fs =
     (if out_prefix a = [] then (Exit 2, fs)
      else case GenerateOtaKeyPair S of
             None \<Rightarrow> (Uncaught, fs)
           | Some keys \<Rightarrow>
               (case WriteFileOrDie (out_prefix a @ ''.private.pem'') (private_key_pem keys) fs of
                  None \<Rightarrow> (Exit 1, fs)
                | Some fs1 \<Rightarrow>
                    (case WriteFileOrDie (out_prefix a @ ''.public.pem'') (public_key_pem keys) fs1 of
                       None \<Rightarrow> (Exit 1, fs1)
                     | Some fs2 \<Rightarrow> (Exit 0, fs2))))"

definition cmd_sign :: "'key openssl \<Rightarrow> int \<Rightarrow> ota_args \<Rightarrow> files \<Rightarrow> tool_exit \<times> files" where
  "cmd_sign S now a fs =
     (if private_key_path a = [] \<or> arg_sha256 a = [] \<or> arg_url a = [] \<or> out_path a = [] then (Exit 2, fs)
      else
        let m = \<lparr>version = arg_version a, binary_sha256_hex = arg_sha256 a, url = arg_url a, issued_unix_ns = now\<rparr>
        in case ReadFileOrDie (private_key_path a) fs of
             None \<Rightarrow> (Exit 1, fs)
           | Some pem \<Rightarrow> (case SignManifest S m pem of
                None \<Rightarrow> (Uncaught, fs)
              | Some sig \<Rightarrow> (case WriteFileOrDie (out_path a) (SerializeSignedManifest m sig) fs of
                  None \<Rightarrow> (Exit 1, fs)
                | Some fs' \<Rightarrow> (Exit 0, fs'))))"

definition cmd_verify :: "'key openssl \<Rightarrow> ota_args \<Rightarrow> files \<Rightarrow> tool_exit \<times> files" where
  "cmd_verify S a fs =
     (if public_key_path a = [] \<or> manifest_path a = [] then (Exit 2, fs)
      else case ReadFileOrDie (manifest_path a) fs of
             None \<Rightarrow> (Exit 1, fs)
           | Some text \<Rightarrow>
               (case ParseSignedManifest text of
                  None \<Rightarrow> (Uncaught, fs)
                | Some None \<Rightarrow> (Exit 1, fs)
                | Some (Some (m, sig)) \<Rightarrow>
                    (case ReadFileOrDie (public_key_path a) fs of
                       None \<Rightarrow> (Exit 1, fs)
                     | Some pem \<Rightarrow> (case VerifyManifestSignature S m sig pem of
                          None \<Rightarrow> (Uncaught, fs)
                        | Some ok \<Rightarrow> (Exit (if ok then 0 else 1), fs)))))"

definition ota_main :: "'key openssl \<Rightarrow> int \<Rightarrow> string list \<Rightarrow> files \<Rightarrow> tool_exit \<times> files" where
  "ota_main S now argv fs =
     (case argv of
        [] \<Rightarrow> (Exit 2, fs)
      | cmd # rest \<Rightarrow>
          (case ota_parse_args rest no_args of
             None \<Rightarrow> (Exit 2, fs)
           | Some a \<Rightarrow>
               if cmd = ''genkey'' then cmd_genkey S a fs
               else if cmd = ''sign'' then cmd_sign S now a fs
               else if cmd = ''verify'' then cmd_verify S a fs
               else (Exit 2, fs)))"

section \<open>Reading back what was written\<close>

lemma hex_digits_read:
  "\<forall>n \<in> set [0..<16]. hex_val (hex_digits ! n) = Some n \<and> \<not> is_space (hex_digits ! n) \<and>
     hex_digits ! n \<noteq> CHR ''-'' \<and> hex_digits ! n \<noteq> CHR ''+'' \<and> hex_digits ! n \<noteq> CHR 0x0A"
  by code_simp

lemma hex_digit:
  assumes "n < 16"
  shows "hex_val (hex_digits ! n) = Some n" "is_hex (hex_digits ! n)" "\<not> is_space (hex_digits ! n)"
    "hex_digits ! n \<noteq> CHR ''-''" "hex_digits ! n \<noteq> CHR ''+''" "hex_digits ! n \<noteq> CHR 0x0A"
proof -
  have "n \<in> set [0..<16]" using assms by simp
  note b = bspec[OF hex_digits_read this]
  show "hex_val (hex_digits ! n) = Some n" "is_hex (hex_digits ! n)" "\<not> is_space (hex_digits ! n)"
    "hex_digits ! n \<noteq> CHR ''-''" "hex_digits ! n \<noteq> CHR ''+''" "hex_digits ! n \<noteq> CHR 0x0A"
    using b by (simp_all add: is_hex_def)
qed

lemma stoi16_digits: "a < 16 \<Longrightarrow> b < 16 \<Longrightarrow> stoi16 [hex_digits ! a, hex_digits ! b] = Some (int (16 * a + b))"
  by (simp add: stoi16_def hex_digit)

lemma of_char_bound: "of_char c < (256 :: nat)" "of_char c div 16 < (16 :: nat)"
proof -
  show b: "of_char c < (256 :: nat)" using mod_less_divisor[of 256 "of_char c"] by (simp only: of_char_mod_256)
  show "of_char c div 16 < (16 :: nat)" by (rule less_mult_imp_div_less) (use b in simp)
qed

lemma hex_pair: "stoi16 [hex_digits ! (of_char c div 16), hex_digits ! (of_char c mod 16)] = Some (int (of_char c))"
  using of_char_bound by (simp add: stoi16_digits del: of_nat_add of_nat_mult)

lemma FromHex_ToHex [simp]: "FromHex (ota_ToHex bs) = Some bs"
proof (induction bs)
  case (Cons c bs)
  have "nat (int (of_char c) mod 256) = of_char c"
    using of_char_bound(1)[of c] by (simp add: nat_mod_distrib)
  then show ?case using Cons by (simp add: ota_ToHex_def hex_pair)
qed (simp add: ota_ToHex_def)

lemma ota_ToHex_newline: "CHR 0x0A \<notin> set (ota_ToHex bs)"
proof -
  have "CHR 0x0A \<noteq> hex_digits ! (of_char c div 16)" "CHR 0x0A \<noteq> hex_digits ! (of_char c mod 16)" for c
    using hex_digit(6)[OF of_char_bound(2)[of c]] hex_digit(6)[of "of_char c mod 16"] by (metis, simp)
  then show ?thesis by (simp add: ota_ToHex_def)
qed

lemma parse_line_key:
  "parse_line (''version='' @ v) (m, sig) = Some (Some (m\<lparr>version := strtoull v\<rparr>, sig))"
  "parse_line (''binary_sha256='' @ v) (m, sig) = Some (Some (m\<lparr>binary_sha256_hex := v\<rparr>, sig))"
  "parse_line (''url='' @ v) (m, sig) = Some (Some (m\<lparr>url := v\<rparr>, sig))"
  "parse_line (''issued_unix_ns='' @ v) (m, sig) = Some (Some (m\<lparr>issued_unix_ns := strtoll v\<rparr>, sig))"
  "parse_line (''signature_hex='' @ ota_ToHex bs) (m, sig) = Some (Some (m, bs))"
  by (simp_all add: parse_line_def arg_value_def)

lemma serialized_lines:
  assumes "CHR 0x0A \<notin> set (binary_sha256_hex m)" "CHR 0x0A \<notin> set (url m)"
  shows "file_lines (Some (SerializeSignedManifest m sig)) =
    [''version='' @ show_nat (unat (version m)), ''binary_sha256='' @ binary_sha256_hex m, ''url='' @ url m,
     ''issued_unix_ns='' @ show_int (issued_unix_ns m), ''signature_hex='' @ ota_ToHex sig]" (is "_ = ?ls")
proof -
  have "CHR 0x0A \<notin> set (show_nat n)" for n using show_nat_digits[of "CHR 0x0A" n] by blast
  moreover have "CHR 0x0A \<notin> set (show_int i)" for i using show_int_chars[of "CHR 0x0A" i] by blast
  ultimately have "\<forall>l \<in> set ?ls. CHR 0x0A \<notin> set l" using assms ota_ToHex_newline by simp
  moreover have "SerializeSignedManifest m sig = concat (map (\<lambda>l. l @ [CHR 0x0A]) ?ls)"
    by (simp add: SerializeSignedManifest_def eol_def)
  ultimately show ?thesis using file_lines_concat[of ?ls] by simp
qed

lemma Parse_Serialize:
  assumes "CHR 0x0A \<notin> set (binary_sha256_hex m)" "CHR 0x0A \<notin> set (url m)"
    "- (2 ^ 63) \<le> issued_unix_ns m" "issued_unix_ns m < 2 ^ 63" "sig \<noteq> []"
  shows "ParseSignedManifest (SerializeSignedManifest m sig) = Some (Some (m, sig))"
  using assms(3-)
  by (simp only: ParseSignedManifest_def serialized_lines[OF assms(1,2)] parse_lines.simps parse_line_key option.case
      empty_manifest_def) (simp add: strtoull_u64 strtoll_show)

section \<open>Properties\<close>

lemma CanonicalBytes_split:
  "CanonicalBytes m = ''v1'' @ CHR ''|'' # (''version='' @ show_nat (unat (version m))) @
     CHR ''|'' # (''binary_sha256='' @ binary_sha256_hex m) @
     CHR ''|'' # (''url='' @ url m) @ CHR ''|'' # (''issued_unix_ns='' @ show_int (issued_unix_ns m))"
  by (simp add: CanonicalBytes_def)

text \<open>
  A signature binds every field: manifests whose digest field holds no \<open>|\<close> (a hexadecimal
  digest never does) have the same signed bytes only if they are the same manifest, so a
  signature accepted for one of them was made for exactly its version, digest, url and
  issue time.
\<close>
lemma CanonicalBytes_binds:
  assumes "CHR ''|'' \<notin> set (binary_sha256_hex m)" "CHR ''|'' \<notin> set (binary_sha256_hex m')"
    and "CanonicalBytes m = CanonicalBytes m'"
  shows "m = m'"
proof -
  let ?v = "\<lambda>m. ''version='' @ show_nat (unat (version m))"
  let ?s = "\<lambda>m. ''binary_sha256='' @ binary_sha256_hex m"
  let ?i = "\<lambda>m. ''issued_unix_ns='' @ show_int (issued_unix_ns m)"
  have n: "CHR ''|'' \<notin> set (?v m)" "CHR ''|'' \<notin> set (?i m)" for m
    using show_nat_digits[of "CHR ''|''" "unat (version m)"] show_int_chars[of "CHR ''|''" "issued_unix_ns m"] by auto
  have 1: "?v m @ CHR ''|'' # ?s m @ CHR ''|'' # (''url='' @ url m) @ CHR ''|'' # ?i m =
        ?v m' @ CHR ''|'' # ?s m' @ CHR ''|'' # (''url='' @ url m') @ CHR ''|'' # ?i m'"
    using assms(3) unfolding CanonicalBytes_split by simp
  note 2 = separator_unique[OF 1 n(1) n(1)]
  have "CHR ''|'' \<notin> set (?s m)" "CHR ''|'' \<notin> set (?s m')" using assms(1,2) by auto
  note 3 = separator_unique[OF conjunct2[OF 2] this]
  note 4 = last_separator_unique[OF conjunct2[OF 3] n(2) n(2)]
  have "unat (version m) = unat (version m')" using 2 show_nat_inj by simp
  moreover have "issued_unix_ns m = issued_unix_ns m'" using 4 show_int_inj by simp
  ultimately show ?thesis using 3 4 by (cases m; cases m') (simp add: word_unat_eq_iff)
qed

lemma CanonicalBytes_binds_example:
  "\<lparr>version = 7, binary_sha256_hex = ''ab12'', url = ''u|v'', issued_unix_ns = 5\<rparr> =
   \<lparr>version = 7, binary_sha256_hex = ''ab12'', url = ''u|v'', issued_unix_ns = 5\<rparr>"
  by (rule CanonicalBytes_binds) simp_all

text \<open>
  C38: The signed bytes do not delimit the digest field: the manifest with digest
  \<open>a|url=b\<close> and url \<open>c\<close> and the one with digest \<open>a\<close> and url \<open>b|url=c\<close> are different, and under every
  signature scheme and key a signature is accepted for one exactly when it is for the other.
\<close>
theorem CanonicalBytes_collision:
  "let m = \<lparr>version = 7, binary_sha256_hex = ''a|url=b'', url = ''c'', issued_unix_ns = 5\<rparr>;
       m' = \<lparr>version = 7, binary_sha256_hex = ''a'', url = ''b|url=c'', issued_unix_ns = 5\<rparr>
   in m \<noteq> m' \<and> VerifyManifestSignature S m sig pem = VerifyManifestSignature S m' sig pem \<and>
      SignManifest S m key = SignManifest S m' key"
proof -
  have "CanonicalBytes \<lparr>version = 7, binary_sha256_hex = ''a|url=b'', url = ''c'', issued_unix_ns = 5\<rparr> =
      CanonicalBytes \<lparr>version = 7, binary_sha256_hex = ''a'', url = ''b|url=c'', issued_unix_ns = 5\<rparr>"
    by (simp add: CanonicalBytes_def)
  then show ?thesis by (simp add: Let_def VerifyManifestSignature_def SignManifest_def split: option.split)
qed

lemma ota_main_genkey:
  "ota_main S now [''genkey'', ''--out-prefix='' @ p] fs = cmd_genkey S (no_args\<lparr>out_prefix := p\<rparr>) fs"
  by (simp add: ota_main_def arg_value_def)

lemma ota_main_sign:
  "ota_main S now [''sign'', ''--private-key='' @ kp, ''--version='' @ show_nat (unat ver),
      ''--binary-sha256='' @ sha, ''--url='' @ u, ''--out='' @ out] fs =
   cmd_sign S now (no_args\<lparr>private_key_path := kp, arg_version := ver, arg_sha256 := sha, arg_url := u, out_path := out\<rparr>) fs"
  by (simp add: ota_main_def arg_value_def strtoull_u64)

lemma ota_main_verify:
  "ota_main S now [''verify'', ''--public-key='' @ pp, ''--manifest='' @ out] fs =
   cmd_verify S (no_args\<lparr>public_key_path := pp, manifest_path := out\<rparr>) fs"
  by (simp add: ota_main_def arg_value_def)

text \<open>
  What is relied on of OpenSSL: allocations and key generation succeed, a key survives being written to PEM
  and read back, and a signature is not empty and verifies under the public half.
\<close>

definition openssl_works :: "'key openssl \<Rightarrow> bool" where
  "openssl_works S \<longleftrightarrow> BIO_new S \<and> (\<forall>pem. BIO_new_mem_buf S pem) \<and> EVP_PKEY_CTX_new_id S \<and> EVP_PKEY_keygen_init S = 1 \<and>
     EVP_MD_CTX_new S \<and> (\<forall>key. EVP_DigestSignInit S key = 1 \<and> EVP_DigestVerifyInit S key = 1)"

definition keys_match :: "'key openssl \<Rightarrow> string \<Rightarrow> string \<Rightarrow> bool" where
  "keys_match S priv pub \<longleftrightarrow> (\<exists>sk pk. PEM_read_bio_PrivateKey S priv = Some sk \<and> PEM_read_bio_PUBKEY S pub = Some pk \<and>
     (\<forall>msg. \<exists>n sig. sign_length S sk msg = Some n \<and> EVP_DigestSign S sk n msg = Some sig \<and> sig \<noteq> [] \<and> EVP_DigestVerify S pk sig msg = 1))"

lemma sign_verifies:
  assumes "openssl_works S" "keys_match S priv pub"
  shows "\<exists>sig. SignManifest S m priv = Some sig \<and> sig \<noteq> [] \<and> VerifyManifestSignature S m sig pub = Some True"
proof -
  obtain sk pk n sig where "PEM_read_bio_PrivateKey S priv = Some sk" "PEM_read_bio_PUBKEY S pub = Some pk"
    "sign_length S sk (CanonicalBytes m) = Some n" "EVP_DigestSign S sk n (CanonicalBytes m) = Some sig" "sig \<noteq> []"
    "EVP_DigestVerify S pk sig (CanonicalBytes m) = 1"
    using assms(2) unfolding keys_match_def by blast
  then show ?thesis
    using assms(1) by (simp add: openssl_works_def SignManifest_def VerifyManifestSignature_def LoadPrivateKeyFromPem_def LoadPublicKeyFromPem_def)
qed

lemma sign_then_verify:
  fixes ver :: u64
  assumes keys: "openssl_works S" "keys_match S priv pub"
    and files: "content fs kp = Some priv" "content fs pp = Some pub" "writable fs out" "out \<noteq> pp"
    and args: "kp \<noteq> []" "pp \<noteq> []" "out \<noteq> []" "sha \<noteq> []" "u \<noteq> []"
    and lines: "CHR 0x0A \<notin> set sha" "CHR 0x0A \<notin> set u"
    and clock: "- (2 ^ 63) \<le> now" "now < 2 ^ 63"
  shows "\<exists>fs'. ota_main S now [''sign'', ''--private-key='' @ kp, ''--version='' @ show_nat (unat ver),
             ''--binary-sha256='' @ sha, ''--url='' @ u, ''--out='' @ out] fs = (Exit 0, fs') \<and>
           ota_main S now' [''verify'', ''--public-key='' @ pp, ''--manifest='' @ out] fs' = (Exit 0, fs')"
proof -
  define m where "m = \<lparr>version = ver, binary_sha256_hex = sha, url = u, issued_unix_ns = now\<rparr>"
  obtain sig where sig: "SignManifest S m priv = Some sig" "sig \<noteq> []" "VerifyManifestSignature S m sig pub = Some True"
    using sign_verifies[OF keys] by blast
  define fs' where "fs' = fs\<lparr>content := (content fs)(out \<mapsto> SerializeSignedManifest m sig)\<rparr>"
  have s: "cmd_sign S now (no_args\<lparr>private_key_path := kp, arg_version := ver, arg_sha256 := sha, arg_url := u, out_path := out\<rparr>) fs
      = (Exit 0, fs')"
    using files args sig by (simp add: cmd_sign_def ReadFileOrDie_def WriteFileOrDie_def fs'_def flip: m_def)
  have "ParseSignedManifest (SerializeSignedManifest m sig) = Some (Some (m, sig))"
    by (rule Parse_Serialize) (use lines clock sig in \<open>simp_all add: m_def\<close>)
  then have v: "cmd_verify S (no_args\<lparr>public_key_path := pp, manifest_path := out\<rparr>) fs' = (Exit 0, fs')"
    using files args sig by (simp add: cmd_verify_def ReadFileOrDie_def fs'_def)
  show ?thesis using s v by (simp only: ota_main_sign ota_main_verify) blast
qed

text \<open>
  C37: The three commands of \<open>ota_tool\<close> fit together: \<open>genkey\<close> writes a key pair, \<open>sign\<close> with its private
  file writes a manifest, and \<open>verify\<close> with its public file accepts that manifest; each run exits with 0,
  for writable and different paths, arguments without newlines, and an OpenSSL whose generated keys
  survive being written to PEM and read back.
\<close>

theorem ota_genkey_sign_verify:
  fixes ver :: u64
  assumes ssl: "openssl_works S" "EVP_PKEY_keygen S = Some key"
    and pem: "PEM_write_bio_PrivateKey S key = Some priv" "PEM_write_bio_PUBKEY S key = Some pub" "keys_match S priv pub"
    and files: "writable fs (p @ ''.private.pem'')" "writable fs (p @ ''.public.pem'')" "writable fs out" "out \<noteq> p @ ''.public.pem''"
    and args: "p \<noteq> []" "out \<noteq> []" "sha \<noteq> []" "u \<noteq> []" "CHR 0x0A \<notin> set sha" "CHR 0x0A \<notin> set u"
    and clock: "- (2 ^ 63) \<le> now" "now < 2 ^ 63"
  shows "\<exists>fs1 fs2. ota_main S t1 [''genkey'', ''--out-prefix='' @ p] fs = (Exit 0, fs1) \<and>
     ota_main S now [''sign'', ''--private-key='' @ (p @ ''.private.pem''), ''--version='' @ show_nat (unat ver),
       ''--binary-sha256='' @ sha, ''--url='' @ u, ''--out='' @ out] fs1 = (Exit 0, fs2) \<and>
     ota_main S t2 [''verify'', ''--public-key='' @ (p @ ''.public.pem''), ''--manifest='' @ out] fs2 = (Exit 0, fs2)"
proof -
  let ?fs = "fs\<lparr>content := (content fs)(p @ ''.private.pem'' \<mapsto> priv, p @ ''.public.pem'' \<mapsto> pub)\<rparr>"
  have "GenerateOtaKeyPair S = Some \<lparr>private_key_pem = priv, public_key_pem = pub\<rparr>"
    using ssl pem(1,2) by (simp add: GenerateOtaKeyPair_def openssl_works_def PemFromPrivateKey_def PemFromPublicKey_def)
  then have g: "ota_main S t1 [''genkey'', ''--out-prefix='' @ p] fs = (Exit 0, ?fs)"
    using files args by (simp only: ota_main_genkey) (simp add: cmd_genkey_def WriteFileOrDie_def)
  have "\<exists>fs2. ota_main S now [''sign'', ''--private-key='' @ (p @ ''.private.pem''), ''--version='' @ show_nat (unat ver),
       ''--binary-sha256='' @ sha, ''--url='' @ u, ''--out='' @ out] ?fs = (Exit 0, fs2) \<and>
     ota_main S t2 [''verify'', ''--public-key='' @ (p @ ''.public.pem''), ''--manifest='' @ out] fs2 = (Exit 0, fs2)"
    by (rule sign_then_verify[OF ssl(1) pem(3)]) (use files args clock in simp_all)
  with g show ?thesis by blast
qed

text \<open>A library with one key, whose signatures repeat the message.\<close>

definition echo_openssl :: "unit openssl" where
  "echo_openssl = \<lparr>BIO_new = True, BIO_new_mem_buf = (\<lambda>_. True), PEM_read_bio_PrivateKey = (\<lambda>s. if s = ''k'' then Some () else None),
     PEM_read_bio_PUBKEY = (\<lambda>s. if s = ''p'' then Some () else None), PEM_write_bio_PrivateKey = (\<lambda>_. Some ''k''),
     PEM_write_bio_PUBKEY = (\<lambda>_. Some ''p''), EVP_PKEY_CTX_new_id = True, EVP_PKEY_keygen_init = 1, EVP_PKEY_keygen = Some (),
     EVP_MD_CTX_new = True, EVP_DigestSignInit = (\<lambda>_. 1), sign_length = (\<lambda>_ msg. Some (Suc (length msg))),
     EVP_DigestSign = (\<lambda>_ n msg. Some (CHR ''s'' # msg)), EVP_DigestVerifyInit = (\<lambda>_. 1),
     EVP_DigestVerify = (\<lambda>_ sig msg. if sig = CHR ''s'' # msg then 1 else 0)\<rparr>"

theorem ota_genkey_sign_verify_witness:
  "\<exists>fs1 fs2. ota_main echo_openssl 0 [''genkey'', ''--out-prefix='' @ ''dev''] \<lparr>content = Map.empty, writable = (\<lambda>p. True)\<rparr> = (Exit 0, fs1) \<and>
     ota_main echo_openssl 5 [''sign'', ''--private-key='' @ (''dev'' @ ''.private.pem''), ''--version='' @ show_nat (unat (7 :: u64)),
       ''--binary-sha256='' @ ''ab12'', ''--url='' @ ''u'', ''--out='' @ ''m''] fs1 = (Exit 0, fs2) \<and>
     ota_main echo_openssl 9 [''verify'', ''--public-key='' @ (''dev'' @ ''.public.pem''), ''--manifest='' @ ''m''] fs2 = (Exit 0, fs2)"
  by (rule ota_genkey_sign_verify[where key = "()" and priv = "''k''" and pub = "''p''"])
    (simp_all add: echo_openssl_def openssl_works_def keys_match_def)

end
