(* ===== verification/Kafka.thy ===== *)
theory Kafka
  imports Cstd
begin

text \<open>
  Synchronous publishing of kafka/src/kafka_producer.cc.  librdkafka is the environment: a
  message it has accepted stays in its queue until one of the threads inside \<open>poll\<close> runs the
  delivery callback for it, with a verdict of the broker, at any later time (also after the
  publisher has given up).  The shared \<open>PendingDelivery\<close> objects and the heap cells that hold
  the pointers passed as \<open>msg_opaque\<close> are explicit, so that a callback on a freed cell would
  show.
\<close>

section \<open>State\<close>

record KafkaPublishStats =
  published :: u64
  failed :: u64
  timed_out :: u64

record PendingDelivery =
  pd_done :: bool
  pd_success :: bool

text \<open>
  \<open>cells\<close> are the live \<open>PendingDeliveryPtr\<close> cells and the delivery each points to; \<open>queue\<close> the
  cells of the messages librdkafka has accepted and not reported; \<open>threads\<close> what each publishing
  thread is doing.  \<open>verdicts\<close> records every delivery report as the message and the verdict.
\<close>

datatype publisher =
  Waiting nat int
| Returned nat bool

record kafka_state =
  stats :: KafkaPublishStats
  deliveries :: "nat \<rightharpoonup> PendingDelivery"
  messages :: "nat \<rightharpoonup> string \<times> string"
  cells :: "nat \<rightharpoonup> nat"
  queue :: "nat list"
  threads :: "nat \<rightharpoonup> publisher"
  next_id :: nat
  verdicts :: "(nat \<times> bool) list"

definition KafkaProducer :: kafka_state where
  "KafkaProducer = \<lparr>stats = \<lparr>published = 0, failed = 0, timed_out = 0\<rparr>, deliveries = Map.empty,
     messages = Map.empty, cells = Map.empty, queue = [], threads = Map.empty, next_id = 0, verdicts = []\<rparr>"

section \<open>Construction\<close>

record KafkaProducerConfig =
  brokers :: string
  topic :: string
  delivery_timeout_ms :: int
  acks :: string

definition default_kafka_config :: KafkaProducerConfig where
  "default_kafka_config = \<lparr>brokers = ''localhost:19092'', topic = ''detections.v1'', delivery_timeout_ms = 5000, acks = ''all''\<rparr>"

text \<open>
  The constructor passes its settings to librdkafka one by one, then the callback, then creates the
  producer; \<open>Inl\<close> is the key named by the exception.  \<open>conf_set\<close>, \<open>dr_cb_set\<close> and \<open>create\<close> are
  librdkafka's; a producer is created from the settings it was given.
\<close>

definition kafka_settings :: "KafkaProducerConfig \<Rightarrow> (string \<times> string) list" where
  "kafka_settings c =
     [(''bootstrap.servers'', brokers c), (''acks'', acks c), (''message.timeout.ms'', show_int (delivery_timeout_ms c))]"

fun set_all :: "(string \<Rightarrow> string \<Rightarrow> bool) \<Rightarrow> (string \<times> string) list \<Rightarrow> string option" where
  "set_all conf_set [] = None"
| "set_all conf_set ((key, val) # kvs) = (if conf_set key val then set_all conf_set kvs else Some key)"

definition make_producer :: "(string \<Rightarrow> string \<Rightarrow> bool) \<Rightarrow> bool \<Rightarrow> ((string \<times> string) list \<Rightarrow> 'p option) \<Rightarrow> KafkaProducerConfig \<Rightarrow> string + 'p" where
  "make_producer conf_set dr_cb_set create c =
     (case set_all conf_set (kafka_settings c) of
        Some key \<Rightarrow> Inl key
      | None \<Rightarrow> if \<not> dr_cb_set then Inl ''dr_cb''
                else case create (kafka_settings c) of None \<Rightarrow> Inl [] | Some p \<Rightarrow> Inr p)"

text \<open>How long the destructor lets \<open>Flush\<close> wait, in milliseconds.\<close>

definition destructor_flush_ms :: "KafkaProducerConfig \<Rightarrow> int" where
  "destructor_flush_ms c = max 1000 (delivery_timeout_ms c)"

lemma set_all_None: "set_all conf_set kvs = None \<longleftrightarrow> (\<forall>(key, val)\<in>set kvs. conf_set key val)"
  by (induction kvs) (auto split: if_splits)

text \<open>A producer exists only if every setting was taken, and it has exactly these settings.\<close>

lemma make_producer_Inr:
  "make_producer conf_set dr_cb_set create c = Inr p \<longleftrightarrow>
     (\<forall>(key, val)\<in>set (kafka_settings c). conf_set key val) \<and> dr_cb_set \<and> create (kafka_settings c) = Some p"
  by (auto simp: make_producer_def set_all_None split: option.split if_splits)
    (metis option.distinct(1) set_all_None)+

lemma destructor_flush_covers: "delivery_timeout_ms c \<le> destructor_flush_ms c" "1000 \<le> destructor_flush_ms c"
  by (simp_all add: destructor_flush_ms_def)

section \<open>Operations\<close>

text \<open>
  The delivery callback.  \<open>None\<close> is a use of a freed cell.  The cell is freed when the callback
  returns; the delivery it points to lives on as long as the publisher holds it.
\<close>

definition count_report :: "bool \<Rightarrow> KafkaPublishStats \<Rightarrow> KafkaPublishStats" where
  "count_report ok s = (if ok then s\<lparr>published := published s + 1\<rparr> else s\<lparr>failed := failed s + 1\<rparr>)"

definition dr_cb :: "nat \<Rightarrow> bool \<Rightarrow> kafka_state \<Rightarrow> kafka_state option" where
  "dr_cb opaque ok s =
     (case cells s opaque of
        None \<Rightarrow> None
      | Some p \<Rightarrow> Some (s\<lparr>stats := count_report ok (stats s),
                            deliveries := (deliveries s)(p \<mapsto> \<lparr>pd_done = True, pd_success = ok\<rparr>),
                            cells := (cells s)(opaque := None),
                            queue := remove1 opaque (queue s),
                            verdicts := verdicts s @ [(p, ok)]\<rparr>))"

text \<open>
  The first half of \<open>PublishSync\<close>: a new delivery and a new cell for it, and the call of
  \<open>produce\<close>, which either queues the message or fails at once; on failure the cell is freed
  and the call returns.
\<close>

definition publish_begin :: "nat \<Rightarrow> string \<Rightarrow> string \<Rightarrow> bool \<Rightarrow> int \<Rightarrow> kafka_state \<Rightarrow> kafka_state" where
  "publish_begin t key val produced deadline s =
     (let p = next_id s;
          s1 = s\<lparr>deliveries := (deliveries s)(p \<mapsto> \<lparr>pd_done = False, pd_success = False\<rparr>),
                 messages := (messages s)(p \<mapsto> (key, val)), next_id := p + 1\<rparr>
      in if produced
         then s1\<lparr>cells := (cells s)(p \<mapsto> p), queue := queue s @ [p], threads := (threads s)(t \<mapsto> Waiting p deadline)\<rparr>
         else s1\<lparr>stats := (stats s)\<lparr>failed := failed (stats s) + 1\<rparr>, threads := (threads s)(t \<mapsto> Returned p False)\<rparr>)"

text \<open>
  One round of the wait loop, after \<open>poll\<close> has returned and with the delivery's mutex held: the
  loop ends when the delivery is done, and gives up when the deadline has passed.
\<close>

definition publish_check :: "nat \<Rightarrow> int \<Rightarrow> kafka_state \<Rightarrow> kafka_state" where
  "publish_check t now s =
     (case threads s t of
        Some (Waiting p deadline) \<Rightarrow>
          (case deliveries s p of
             None \<Rightarrow> s
           | Some d \<Rightarrow>
               if pd_done d then s\<lparr>threads := (threads s)(t \<mapsto> Returned p (pd_success d))\<rparr>
               else if now \<ge> deadline
               then s\<lparr>stats := (stats s)\<lparr>timed_out := timed_out (stats s) + 1\<rparr>,
                      threads := (threads s)(t \<mapsto> Returned p False)\<rparr>
               else s)
      | _ \<Rightarrow> s)"

text \<open>
  All interleavings: threads start calls and run rounds of the loop, and during anybody's
  \<open>poll\<close> the callback runs for some queued message.
\<close>

definition is_waiting :: "nat \<Rightarrow> kafka_state \<Rightarrow> bool" where
  "is_waiting t s \<longleftrightarrow> (case threads s t of Some (Waiting _ _) \<Rightarrow> True | _ \<Rightarrow> False)"

inductive kafka_step :: "kafka_state \<Rightarrow> kafka_state option \<Rightarrow> bool" where
  step_publish: "\<not> is_waiting t s \<Longrightarrow> kafka_step s (Some (publish_begin t key val produced deadline s))"
| step_check: "kafka_step s (Some (publish_check t now s))"
| step_report: "opaque \<in> set (queue s) \<Longrightarrow> kafka_step s (dr_cb opaque ok s)"

inductive kafka_reach :: "kafka_state option \<Rightarrow> bool" where
  reach_start: "kafka_reach (Some KafkaProducer)"
| reach_next: "kafka_reach (Some s) \<Longrightarrow> kafka_step s s' \<Longrightarrow> kafka_reach s'"

section \<open>Invariant\<close>

text \<open>Queued messages have live cells, each once; nothing else has one.\<close>

definition cells_ok :: "kafka_state \<Rightarrow> bool" where
  "cells_ok s \<longleftrightarrow> distinct (queue s) \<and> dom (cells s) = set (queue s) \<and> (\<forall>o1 \<in> set (queue s). cells s o1 = Some o1 \<and> o1 < next_id s)"

text \<open>A delivery is done exactly when it was reported, once, with the reported verdict.\<close>

definition deliveries_ok :: "kafka_state \<Rightarrow> bool" where
  "deliveries_ok s \<longleftrightarrow>
     distinct (map fst (verdicts s)) \<and> (\<forall>(p, ok) \<in> set (verdicts s). p < next_id s \<and> p \<notin> set (queue s)) \<and>
     (\<forall>p < next_id s. \<exists>d. deliveries s p = Some d \<and> messages s p \<noteq> None \<and>
        (pd_done d \<longrightarrow> (p, pd_success d) \<in> set (verdicts s)) \<and> (\<not> pd_done d \<longrightarrow> p \<notin> fst ` set (verdicts s)))"

definition threads_ok :: "kafka_state \<Rightarrow> bool" where
  "threads_ok s \<longleftrightarrow>
     (\<forall>t p d. threads s t = Some (Waiting p d) \<longrightarrow> p < next_id s \<and> (p \<in> set (queue s) \<or> p \<in> fst ` set (verdicts s))) \<and>
     (\<forall>t p. threads s t = Some (Returned p True) \<longrightarrow> (p, True) \<in> set (verdicts s))"

definition kafka_inv :: "kafka_state \<Rightarrow> bool" where
  "kafka_inv s \<longleftrightarrow> cells_ok s \<and> deliveries_ok s \<and> threads_ok s \<and>
     published (stats s) = word_of_nat (length (filter snd (verdicts s)))"

lemma KafkaProducer_inv: "kafka_inv KafkaProducer"
  by (simp add: kafka_inv_def KafkaProducer_def cells_ok_def deliveries_ok_def threads_ok_def)

lemma threads_okD: "threads_ok s \<Longrightarrow> threads s t = Some (Waiting p d) \<Longrightarrow> p < next_id s"
  unfolding threads_ok_def by blast

lemma publish_begin_inv:
  assumes "kafka_inv s"
  shows "kafka_inv (publish_begin t key val produced deadline s)"
proof -
  have c: "cells_ok s" and d: "deliveries_ok s" and th: "threads_ok s" using assms by (simp_all add: kafka_inv_def)
  let ?s = "publish_begin t key val produced deadline s"
  have fresh: "next_id s \<notin> set (queue s)" "next_id s \<notin> fst ` set (verdicts s)"
    using c d by (fastforce simp: cells_ok_def deliveries_ok_def)+
  have "cells_ok ?s" using c fresh by (auto simp: cells_ok_def publish_begin_def Let_def)
  moreover have "deliveries_ok ?s"
    using d fresh by (auto simp: deliveries_ok_def publish_begin_def Let_def less_Suc_eq image_iff)
  moreover have "threads_ok ?s"
    using th fresh by (auto simp: threads_ok_def publish_begin_def Let_def less_Suc_eq split: if_splits)
  moreover have "published (stats ?s) = word_of_nat (length (filter snd (verdicts ?s)))"
    using assms by (simp add: kafka_inv_def publish_begin_def Let_def)
  ultimately show ?thesis by (simp add: kafka_inv_def)
qed

lemma publish_check_inv:
  assumes "kafka_inv s"
  shows "kafka_inv (publish_check t now s)"
proof (cases "threads s t")
  case (Some th)
  show ?thesis
  proof (cases th)
    case (Waiting p deadline)
    have p: "p < next_id s" using assms Some Waiting threads_okD by (auto simp: kafka_inv_def)
    then obtain d where d: "deliveries s p = Some d" "pd_done d \<longrightarrow> (p, pd_success d) \<in> set (verdicts s)"
      using assms by (auto simp: kafka_inv_def deliveries_ok_def)
    have "cells_ok (publish_check t now s)" "deliveries_ok (publish_check t now s)"
      using assms Some Waiting d(1) by (simp_all add: kafka_inv_def cells_ok_def deliveries_ok_def publish_check_def)
    moreover have "threads_ok (publish_check t now s)"
      using assms Some Waiting d by (auto simp: kafka_inv_def threads_ok_def publish_check_def)
    ultimately show ?thesis using assms Some Waiting d(1) by (simp add: kafka_inv_def publish_check_def)
  qed (use assms Some in \<open>simp add: publish_check_def\<close>)
qed (use assms in \<open>simp add: publish_check_def\<close>)

lemma dr_cb_inv:
  assumes "kafka_inv s" "opaque \<in> set (queue s)"
  shows "\<exists>s'. dr_cb opaque ok s = Some s' \<and> kafka_inv s'"
proof -
  have c: "cells_ok s" and d: "deliveries_ok s" and th: "threads_ok s" using assms(1) by (simp_all add: kafka_inv_def)
  have o: "cells s opaque = Some opaque" "opaque < next_id s" using c assms(2) by (auto simp: cells_ok_def)
  have new: "opaque \<notin> fst ` set (verdicts s)" using d assms(2) by (fastforce simp: deliveries_ok_def)
  define s' where "s' = the (dr_cb opaque ok s)"
  have s': "dr_cb opaque ok s = Some s'" using o by (simp add: s'_def dr_cb_def)
  note e = s'[unfolded dr_cb_def o(1) option.case option.inject, symmetric]
  have "cells_ok s'" using c o by (auto simp: cells_ok_def e)
  moreover have "deliveries_ok s'" using d o(2) new c by (auto simp: deliveries_ok_def cells_ok_def e image_iff)
  moreover have "threads_ok s'" using th c by (auto simp: threads_ok_def cells_ok_def e image_iff)
  moreover have "published (stats s') = word_of_nat (length (filter snd (verdicts s')))"
    using assms(1) by (simp add: kafka_inv_def e count_report_def)
  ultimately show ?thesis using s' by (simp add: kafka_inv_def)
qed

lemma kafka_reach_inv: "kafka_reach r \<Longrightarrow> \<exists>s. r = Some s \<and> kafka_inv s"
proof (induction rule: kafka_reach.induct)
  case (reach_next s s')
  then have "kafka_inv s" by simp
  with \<open>kafka_step s s'\<close> show ?case
    by (cases rule: kafka_step.cases) (use publish_begin_inv publish_check_inv dr_cb_inv in blast)+
qed (simp add: KafkaProducer_inv)

section \<open>Properties\<close>

text \<open>
  C7: under every interleaving of publishing threads and delivery reports, late reports
  included, no callback touches a freed cell, and each message is reported at most once.  A
  call that returns true has had its own message confirmed by the broker, never somebody
  else's, and \<open>published\<close> counts the confirmed messages.
\<close>
theorem kafka_publish_confirmed:
  assumes "kafka_reach r"
  shows "\<exists>s. r = Some s \<and> distinct (map fst (verdicts s)) \<and>
    published (stats s) = word_of_nat (length (filter snd (verdicts s))) \<and>
    (\<forall>t p. threads s t = Some (Returned p True) \<longrightarrow> (p, True) \<in> set (verdicts s) \<and> messages s p \<noteq> None)"
proof -
  obtain s where s: "r = Some s" "kafka_inv s" using kafka_reach_inv[OF assms] by blast
  have "(p, True) \<in> set (verdicts s) \<and> messages s p \<noteq> None" if "threads s t = Some (Returned p True)" for t p
  proof -
    have m: "(p, True) \<in> set (verdicts s)" using s(2) that by (simp add: kafka_inv_def threads_ok_def)
    then have "p < next_id s" using s(2) by (auto simp: kafka_inv_def deliveries_ok_def)
    then show ?thesis using m s(2) by (auto simp: kafka_inv_def deliveries_ok_def)
  qed
  then show ?thesis using s by (simp add: kafka_inv_def deliveries_ok_def)
qed

text \<open>Two threads publish, the first gives up, and both messages are reported later.\<close>

definition late_report :: "kafka_state option" where
  "late_report =
     (let s1 = publish_begin 1 ''cam'' ''e1'' True 50 KafkaProducer;
          s2 = publish_begin 2 ''cam'' ''e2'' True 90 s1;
          s3 = publish_check 1 60 s2
      in case dr_cb 1 True s3 of None \<Rightarrow> None | Some s4 \<Rightarrow> dr_cb 0 True (publish_check 2 60 s4))"

lemma late_report_reach: "kafka_reach late_report"
proof -
  define s1 where "s1 = publish_begin 1 ''cam'' ''e1'' True 50 KafkaProducer"
  define s2 where "s2 = publish_begin 2 ''cam'' ''e2'' True 90 s1"
  define s3 where "s3 = publish_check 1 60 s2"
  define s4 where "s4 = the (dr_cb 1 True s3)"
  note defs = s1_def s2_def s3_def publish_begin_def publish_check_def KafkaProducer_def Let_def
  have r1: "kafka_reach (Some s1)" unfolding s1_def
    by (rule reach_next[OF reach_start step_publish]) (simp add: is_waiting_def KafkaProducer_def)
  have r2: "kafka_reach (Some s2)" unfolding s2_def
    by (rule reach_next[OF r1 step_publish]) (simp add: is_waiting_def defs)
  have r3: "kafka_reach (Some s3)" unfolding s3_def by (rule reach_next[OF r2 step_check])
  have s4: "dr_cb 1 True s3 = Some s4" by (simp add: s4_def defs dr_cb_def)
  have r4: "kafka_reach (Some s4)"
    using reach_next[OF r3 step_report[of 1 s3 True]] s4 by (simp add: defs)
  have r5: "kafka_reach (Some (publish_check 2 60 s4))" by (rule reach_next[OF r4 step_check])
  have "0 \<in> set (queue (publish_check 2 60 s4))" by (simp add: s4_def defs dr_cb_def)
  then have "kafka_reach (dr_cb 0 True (publish_check 2 60 s4))" by (rule reach_next[OF r5 step_report])
  then show ?thesis by (simp only: late_report_def Let_def s4 option.case flip: s1_def s2_def s3_def)
qed

theorem kafka_publish_confirmed_witness:
  "\<exists>s. late_report = Some s \<and> distinct (map fst (verdicts s)) \<and>
    published (stats s) = word_of_nat (length (filter snd (verdicts s))) \<and>
    (\<forall>t p. threads s t = Some (Returned p True) \<longrightarrow> (p, True) \<in> set (verdicts s) \<and> messages s p \<noteq> None)"
  by (rule kafka_publish_confirmed[OF late_report_reach])

text \<open>
  C26: a publishing call never waits past its deadline: from every reachable state, the first
  round of the wait loop at or after the deadline makes the waiting call return, with true
  exactly when its message has been confirmed by then.
\<close>
theorem kafka_publish_returns:
  assumes "kafka_reach (Some s)" "threads s t = Some (Waiting p deadline)" "deadline \<le> now"
  shows "threads (publish_check t now s) t = Some (Returned p ((p, True) \<in> set (verdicts s)))"
proof -
  have i: "kafka_inv s" using kafka_reach_inv[OF assms(1)] by simp
  then have "p < next_id s" using assms(2) threads_okD by (auto simp: kafka_inv_def)
  then obtain d where d: "deliveries s p = Some d" "pd_done d \<longrightarrow> (p, pd_success d) \<in> set (verdicts s)"
      "\<not> pd_done d \<longrightarrow> p \<notin> fst ` set (verdicts s)"
    using i by (auto simp: kafka_inv_def deliveries_ok_def)
  have u: "x = y" if "(p, x) \<in> set (verdicts s)" "(p, y) \<in> set (verdicts s)" for x y
    using i that eq_key_imp_eq_value[of "verdicts s" p] by (simp add: kafka_inv_def deliveries_ok_def)
  show ?thesis
  proof (cases "pd_done d")
    case True
    then have "(p, True) \<in> set (verdicts s) \<longleftrightarrow> pd_success d" using d(2) u by (metis (full_types))
    then show ?thesis using True d(1) assms(2) by (simp add: publish_check_def)
  next
    case False
    then have "(p, True) \<notin> set (verdicts s)" using d(3) by force
    then show ?thesis using False d(1) assms(2,3) by (simp add: publish_check_def)
  qed
qed

theorem kafka_publish_returns_witness:
  "threads (publish_check 1 60 (publish_begin 1 ''cam'' ''e1'' True 50 KafkaProducer)) 1 =
   Some (Returned 0 ((0, True) \<in> set (verdicts (publish_begin 1 ''cam'' ''e1'' True 50 KafkaProducer))))"
proof (rule kafka_publish_returns[where deadline = 50])
  show "kafka_reach (Some (publish_begin 1 ''cam'' ''e1'' True 50 KafkaProducer))"
    by (rule reach_next[OF reach_start step_publish]) (simp add: is_waiting_def KafkaProducer_def)
qed (simp_all add: publish_begin_def KafkaProducer_def Let_def)

end
