(* ===== verification/Onnx.thy ===== *)
theory Onnx
  imports Capture Cstd "HOL-Library.Multiset"
begin

text \<open>
  The YOLOX detector, inference/src/onnx_cpu_detector.cc: the letterbox resize that fills the input
  tensor, the decoding of the model's rows, and greedy non-maximum suppression.  ONNX Runtime is a
  parameter (the model's shapes, and what a run makes of a tensor), and so are \<open>std::exp\<close> and the order
  in which \<open>std::sort\<close> leaves elements with equal keys.
\<close>

section \<open>Data\<close>

record OnnxDetectorConfig =
  input_size :: int
  score_threshold :: fp
  nms_iou_threshold :: fp
  target_class_ids :: "int list"

record Detection =
  class_id :: int
  score :: fp
  x1 :: fp
  y1 :: fp
  x2 :: fp
  y2 :: fp

text \<open>How a call ends: a value, an exception, or undefined behaviour.\<close>

datatype 'a outcome = Value 'a | Throws | UB

fun and_then :: "'a outcome \<Rightarrow> ('a \<Rightarrow> 'b outcome) \<Rightarrow> 'b outcome" where
  "and_then (Value x) f = f x"
| "and_then Throws f = Throws"
| "and_then UB f = UB"

fun iterate :: "('a \<Rightarrow> 's \<Rightarrow> 's outcome) \<Rightarrow> 'a list \<Rightarrow> 's \<Rightarrow> 's outcome" where
  "iterate f [] s = Value s"
| "iterate f (x # xs) s = and_then (f x s) (iterate f xs)"

section \<open>Intersection over union\<close>

abbreviation add32 :: "fp \<Rightarrow> fp \<Rightarrow> fp" where "add32 \<equiv> fp_add binary32"
abbreviation sub32 :: "fp \<Rightarrow> fp \<Rightarrow> fp" where "sub32 \<equiv> fp_sub binary32"
abbreviation mul32 :: "fp \<Rightarrow> fp \<Rightarrow> fp" where "mul32 \<equiv> fp_mul binary32"
abbreviation div32 :: "fp \<Rightarrow> fp \<Rightarrow> fp" where "div32 \<equiv> fp_div binary32"

definition IoU :: "Detection \<Rightarrow> Detection \<Rightarrow> fp" where
  "IoU a b =
     (let ix1 = std_max (x1 a) (x1 b);
          iy1 = std_max (y1 a) (y1 b);
          ix2 = std_min (x2 a) (x2 b);
          iy2 = std_min (y2 a) (y2 b);
          iw = std_max (Fin 0) (sub32 ix2 ix1);
          ih = std_max (Fin 0) (sub32 iy2 iy1);
          inter = mul32 iw ih;
          area_a = mul32 (std_max (Fin 0) (sub32 (x2 a) (x1 a))) (std_max (Fin 0) (sub32 (y2 a) (y1 a)));
          area_b = mul32 (std_max (Fin 0) (sub32 (x2 b) (x1 b))) (std_max (Fin 0) (sub32 (y2 b) (y1 b)));
          uni = sub32 (add32 area_a area_b) inter
      in if fp_less (Fin 0) uni then div32 inter uni else Fin 0)"

section \<open>Preprocessing\<close>

text \<open>Conversion to \<open>int\<close>, which is undefined when the truncated value does not fit.\<close>

fun to_int32 :: "fp \<Rightarrow> int outcome" where
  "to_int32 (Fin x) = (if - (2 ^ 31) \<le> trunc x \<and> trunc x < 2 ^ 31 then Value (trunc x) else UB)"
| "to_int32 _ = UB"

fun fp_floor :: "fp \<Rightarrow> fp" where
  "fp_floor (Fin x) = Fin (of_int \<lfloor>x\<rfloor>)"
| "fp_floor y = y"

text \<open>\<open>std::round\<close>: halves away from zero.\<close>

fun fp_round :: "fp \<Rightarrow> fp" where
  "fp_round (Fin x) = Fin (of_int (if 0 \<le> x then \<lfloor>x + 1/2\<rfloor> else - \<lfloor>- x + 1/2\<rfloor>))"
| "fp_round y = y"

definition axis_position :: "int \<Rightarrow> int \<Rightarrow> nat \<Rightarrow> fp" where
  "axis_position src_len dst_len d =
     (let scale = fp_div binary64 (fp_of_int binary64 src_len) (fp_of_int binary64 dst_len);
          f0 = fp_sub binary64 (fp_mul binary64 (fp_add binary64 (fp_of_int binary64 (int d)) (Fin (1/2))) scale) (Fin (1/2))
      in if fp_less f0 (Fin 0) then Fin 0 else f0)"

definition axis_entry :: "int \<Rightarrow> int \<Rightarrow> nat \<Rightarrow> (int \<times> int \<times> fp) outcome" where
  "axis_entry src_len dst_len d =
     (let f = axis_position src_len dst_len d in
      and_then (to_int32 (fp_floor f)) (\<lambda>l.
        let lo = (if l > src_len - 1 then src_len - 1 else l);
            hi = min (lo + 1) (src_len - 1)
        in Value (lo, hi, to_float (fp_sub binary64 f (fp_of_int binary64 lo)))))"

definition BuildAxisTable :: "int \<Rightarrow> int \<Rightarrow> (int \<times> int \<times> fp) list outcome" where
  "BuildAxisTable src_len dst_len =
     iterate (\<lambda>d tab. and_then (axis_entry src_len dst_len d) (\<lambda>e. Value (tab @ [e]))) [0..<nat dst_len] []"

text \<open>A pixel read, and the write of a tensor element; outside their arrays both are undefined.\<close>

definition src_at :: "byte list \<Rightarrow> nat \<Rightarrow> fp outcome" where
  "src_at src i = (if i < length src then Value (fp_of_int binary32 (int (unat (src ! i)))) else UB)"

definition put :: "nat \<Rightarrow> fp \<Rightarrow> fp list \<Rightarrow> fp list outcome" where
  "put i v t = (if i < length t then Value (t[i := v]) else UB)"

definition lerp :: "fp \<Rightarrow> fp \<Rightarrow> fp \<Rightarrow> fp" where
  "lerp w a b = add32 (mul32 (sub32 (Fin 1) w) a) (mul32 w b)"

definition sample :: "byte list \<Rightarrow> nat \<Rightarrow> nat \<Rightarrow> nat \<Rightarrow> nat \<Rightarrow> fp \<Rightarrow> fp \<Rightarrow> fp outcome" where
  "sample src p00 p01 p10 p11 wx wy =
     and_then (src_at src p00) (\<lambda>a. and_then (src_at src p01) (\<lambda>b.
     and_then (src_at src p10) (\<lambda>c. and_then (src_at src p11) (\<lambda>d.
       Value (fp_round (lerp wy (lerp wx a b) (lerp wx c d)))))))"

text \<open>One channel of one pixel of the resized picture; \<open>ytab\<close> and \<open>xtab\<close> are the axis tables.\<close>

definition resize_step :: "byte list \<Rightarrow> nat \<Rightarrow> nat \<Rightarrow> (int \<times> int \<times> fp) list \<Rightarrow> (int \<times> int \<times> fp) list \<Rightarrow> nat \<Rightarrow> nat \<Rightarrow> nat \<Rightarrow> fp list \<Rightarrow>
    fp list outcome" where
  "resize_step src S stride_bytes ytab xtab dy dx c t =
     (case ytab ! dy of (ya, yb, wy) \<Rightarrow> case xtab ! dx of (xa, xb, wx) \<Rightarrow>
        and_then (sample src
          (nat ya * stride_bytes + nat xa * 3 + c) (nat ya * stride_bytes + nat xb * 3 + c)
          (nat yb * stride_bytes + nat xa * 3 + c) (nat yb * stride_bytes + nat xb * 3 + c) wx wy)
        (\<lambda>v. put (c * (S * S) + (dy * S + dx)) v t))"

definition Preprocess :: "OnnxDetectorConfig \<Rightarrow> Frame \<Rightarrow> (fp \<times> fp list) outcome" where
  "Preprocess cfg frame =
     (if format frame \<noteq> kBgr24 \<or> width frame = 0 \<or> height frame = 0 then Throws
      else
        let S = input_size cfg;
            w = sint (width frame);
            h = sint (height frame);
            fl = fp_of_int binary32;
            r = std_min (div32 (fl S) (fl h)) (div32 (fl S) (fl w));
            stride_bytes = nat w * 3
        in and_then (to_int32 (mul32 (fl w) r)) (\<lambda>tw.
           and_then (to_int32 (mul32 (fl h) r)) (\<lambda>th.
           let nw = (if tw < 1 then 1 else if S < tw then S else tw);
               nh = (if th < 1 then 1 else if S < th then S else th)
           in and_then (BuildAxisTable w nw) (\<lambda>xtab.
              and_then (BuildAxisTable h nh) (\<lambda>ytab.
              and_then (iterate (\<lambda>dy. iterate (\<lambda>dx. iterate (resize_step (data frame) (nat S) stride_bytes ytab xtab dy dx)
                  [0..<3]) [0..<nat nw]) [0..<nat nh] (replicate (3 * (nat S * nat S)) (Fin 114)))
              (\<lambda>t. Value (r, t)))))))"

section \<open>The detector\<close>

text \<open>The grid of one stride, rows before columns, and of the three strides.\<close>

definition grid_of :: "int \<Rightarrow> int \<Rightarrow> (fp \<times> fp \<times> fp) list" where
  "grid_of sz stride =
     concat (map (\<lambda>y. map (\<lambda>x. (fp_of_int binary32 (int x), fp_of_int binary32 (int y), fp_of_int binary32 stride))
       [0..<nat (sz div stride)]) [0..<nat (sz div stride)])"

definition grid :: "int \<Rightarrow> (fp \<times> fp \<times> fp) list" where
  "grid sz = concat (map (grid_of sz) [8, 16, 32])"

record onnx_detector =
  config :: OnnxDetectorConfig
  cells :: "(fp \<times> fp \<times> fp) list"

definition OnnxCpuDetector :: "nat \<Rightarrow> nat \<Rightarrow> int list \<Rightarrow> OnnxDetectorConfig \<Rightarrow> onnx_detector outcome" where
  "OnnxCpuDetector inputs outputs in_shape cfg =
     (if inputs \<noteq> 1 \<or> outputs \<noteq> 1 then Throws
      else if length in_shape \<noteq> 4 \<or> in_shape ! 1 \<noteq> 3 \<or> in_shape ! 2 \<noteq> input_size cfg \<or> in_shape ! 3 \<noteq> input_size cfg then Throws
      else Value \<lparr>config = cfg, cells = grid (input_size cfg)\<rparr>)"

definition best_class :: "fp list \<Rightarrow> nat \<Rightarrow> nat \<times> fp" where
  "best_class p num_classes =
     foldl (\<lambda>(bc, bs) c. if fp_less bs (p ! (5 + c)) then (c, p ! (5 + c)) else (bc, bs)) (0, p ! 5) [1..<num_classes]"

definition decode_row :: "OnnxDetectorConfig \<Rightarrow> (fp \<Rightarrow> fp) \<Rightarrow> fp \<Rightarrow> fp \<Rightarrow> fp \<Rightarrow> nat \<Rightarrow> (fp \<times> fp \<times> fp) \<Rightarrow> fp list \<Rightarrow> Detection option" where
  "decode_row cfg expf img_w img_h r num_classes cell p =
     (case cell of (gx, gy, gs) \<Rightarrow>
      let objectness = p ! 4 in
      if fp_le objectness (score_threshold cfg) then None
      else
        let (bc, bs) = best_class p num_classes;
            sc = mul32 objectness bs
        in if fp_le sc (score_threshold cfg) then None
           else
             let cx = mul32 (add32 (p ! 0) gx) gs;
                 cy = mul32 (add32 (p ! 1) gy) gs;
                 bw = mul32 (expf (p ! 2)) gs;
                 bh = mul32 (expf (p ! 3)) gs
             in Some \<lparr>class_id = int bc, score = sc,
                  x1 = std_clamp (div32 (sub32 cx (div32 bw (Fin 2))) r) (Fin 0) img_w,
                  y1 = std_clamp (div32 (sub32 cy (div32 bh (Fin 2))) r) (Fin 0) img_h,
                  x2 = std_clamp (div32 (add32 cx (div32 bw (Fin 2))) r) (Fin 0) img_w,
                  y2 = std_clamp (div32 (add32 cy (div32 bh (Fin 2))) r) (Fin 0) img_h\<rparr>)"

definition row :: "nat \<Rightarrow> fp list \<Rightarrow> nat \<Rightarrow> fp list" where
  "row dims out i = take dims (drop (i * dims) out)"

definition candidates :: "onnx_detector \<Rightarrow> (fp \<Rightarrow> fp) \<Rightarrow> Frame \<Rightarrow> fp \<Rightarrow> nat \<Rightarrow> fp list \<Rightarrow> Detection list" where
  "candidates det expf frame r dims out =
     List.map_filter (\<lambda>i. decode_row (config det) expf (fp_of_int binary32 (uint (width frame))) (fp_of_int binary32 (uint (height frame)))
       r (dims - 5) (cells det ! i) (row dims out i)) [0..<length (cells det)]"

definition nms :: "fp \<Rightarrow> Detection list \<Rightarrow> Detection list" where
  "nms threshold cands =
     foldl (\<lambda>kept cand. if list_ex (\<lambda>k. fp_less threshold (IoU cand k)) kept then kept else kept @ [cand]) [] cands"

text \<open>A run of the session gives the output's shape and data; the data has a value for every index of the shape.\<close>

definition DetectAll :: "(Detection list \<Rightarrow> Detection list) \<Rightarrow> (fp list \<Rightarrow> int list \<times> fp list) \<Rightarrow> (fp \<Rightarrow> fp) \<Rightarrow> onnx_detector \<Rightarrow> Frame \<Rightarrow>
    Detection list outcome" where
  "DetectAll srt run expf det frame =
     and_then (Preprocess (config det) frame) (\<lambda>(r, tensor).
       case run tensor of (shape, out) \<Rightarrow>
         if length shape \<noteq> 3 \<or> (shape ! 1) mod 2 ^ 64 \<noteq> int (length (cells det)) \<or> shape ! 2 < 6 then Throws
         else Value (nms (nms_iou_threshold (config det)) (srt (candidates det expf frame r (nat (shape ! 2)) out))))"

definition Detect :: "(Detection list \<Rightarrow> Detection list) \<Rightarrow> (fp list \<Rightarrow> int list \<times> fp list) \<Rightarrow> (fp \<Rightarrow> fp) \<Rightarrow> onnx_detector \<Rightarrow> Frame \<Rightarrow>
    DetectionResult outcome" where
  "Detect srt run expf det frame =
     and_then (DetectAll srt run expf det frame) (\<lambda>detections.
       let fw = fp_of_int binary32 (uint (width frame)); fh = fp_of_int binary32 (uint (height frame)) in
       Value (case find (\<lambda>d. target_class_ids (config det) = [] \<or> class_id d \<in> set (target_class_ids (config det))) detections of
                None \<Rightarrow> no_detection
              | Some d \<Rightarrow> \<lparr>positive = True, confidence = score d, x_min = div32 (x1 d) fw, y_min = div32 (y1 d) fh,
                          x_max = div32 (x2 d) fw, y_max = div32 (y2 d) fh\<rparr>))"

section \<open>Preprocessing stays in bounds\<close>

text \<open>Rounding a number between zero and a representable bound stays between them.\<close>

lemma rnd_between:
  assumes "0 \<le> x" "x \<le> b" "representable f b" "0 < fst f"
  obtains y where "rnd f x = Fin y" "0 \<le> y" "y \<le> b"
proof -
  have "fp_le (Fin 0) (rnd f x)" using rnd_mono[OF assms(1,4)] by simp
  moreover have "fp_le (rnd f x) (Fin b)" using rnd_mono[OF assms(2,4)] rnd_exact[OF assms(3)] by simp
  ultimately show ?thesis using that by (cases "rnd f x") auto
qed

lemma iterate_inv:
  assumes "\<And>x s. x \<in> set xs \<Longrightarrow> P s \<Longrightarrow> \<exists>s'. f x s = Value s' \<and> P s'" "P s"
  shows "\<exists>s'. iterate f xs s = Value s' \<and> P s'"
  using assms
proof (induction xs arbitrary: s)
  case (Cons x xs)
  obtain s1 where "f x s = Value s1" "P s1" using Cons.prems by fastforce
  then show ?case using Cons.IH[of s1] Cons.prems(1) by fastforce
qed simp

lemma iterate_append:
  assumes "\<And>x. x \<in> set xs \<Longrightarrow> \<exists>e. g x = Value e \<and> Q e"
  shows "\<exists>es. iterate (\<lambda>x tab. and_then (g x) (\<lambda>e. Value (tab @ [e]))) xs acc = Value (acc @ es) \<and> length es = length xs \<and> (\<forall>e\<in>set es. Q e)"
  using assms
proof (induction xs arbitrary: acc)
  case (Cons x xs)
  obtain e where e: "g x = Value e" "Q e" using Cons.prems by fastforce
  obtain es where "iterate (\<lambda>x tab. and_then (g x) (\<lambda>e. Value (tab @ [e]))) xs (acc @ [e]) = Value ((acc @ [e]) @ es)"
    "length es = length xs" "\<forall>e\<in>set es. Q e" using Cons.IH[of "acc @ [e]"] Cons.prems by fastforce
  then show ?case using e by (intro exI[of _ "e # es"]) simp
qed simp

lemma int_representable:
  "0 \<le> i \<Longrightarrow> i < 2 ^ 53 \<Longrightarrow> representable binary64 (of_int i)" "0 \<le> i \<Longrightarrow> i < 2 ^ 24 \<Longrightarrow> representable binary32 (of_int i)"
  by (rule representable_int; simp add: binary64_def binary32_def)+

lemma fp_of_int_exact:
  "0 \<le> i \<Longrightarrow> i < 2 ^ 53 \<Longrightarrow> fp_of_int binary64 i = Fin (of_int i)" "0 \<le> i \<Longrightarrow> i < 2 ^ 24 \<Longrightarrow> fp_of_int binary32 i = Fin (of_int i)"
  unfolding fp_of_int_def by (rule rnd_exact, rule int_representable; assumption)+

lemma fst_fmt [simp]: "0 < fst binary64" "0 < fst binary32"
  by (simp_all add: binary64_def binary32_def)

text \<open>A non-negative sample position, whatever the subtraction of one half rounds to.\<close>

lemma position_between:
  assumes "0 \<le> m" "m \<le> of_int b" "0 \<le> b" "b < 2 ^ 53"
  obtains v where "(let f0 = fp_sub binary64 (Fin m) (Fin (1/2)) in if fp_less f0 (Fin 0) then Fin 0 else f0) = Fin v" "0 \<le> v" "v \<le> of_int b"
proof (cases "0 \<le> m - 1/2")
  case True
  have "m - 1/2 \<le> of_int b" using assms(2) by linarith
  then obtain y where "rnd binary64 (m - 1/2) = Fin y" "0 \<le> y" "y \<le> of_int b"
    using rnd_between[OF True _ int_representable(1)[OF assms(3,4)]] by auto
  then show ?thesis using that[of y] by (simp add: fp_sub_def)
next
  case False
  have "fp_le (rnd binary64 (m - 1/2)) (Fin 0)" using rnd_mono[of "m - 1/2" 0 binary64] False by simp
  then have "(let f0 = fp_sub binary64 (Fin m) (Fin (1/2)) in if fp_less f0 (Fin 0) then Fin 0 else f0) = Fin 0"
    by (cases "rnd binary64 (m - 1/2)") (auto simp: fp_sub_def)
  then show ?thesis using that[of 0] assms(3) by simp
qed

lemma to_int32_between: "0 \<le> y \<Longrightarrow> y \<le> of_int b \<Longrightarrow> b < 2 ^ 31 \<Longrightarrow> to_int32 (Fin y) = Value \<lfloor>y\<rfloor>"
proof -
  assume y: "0 \<le> y" "y \<le> of_int b" and "b < 2 ^ 31"
  then have "(of_int b :: rat) < of_int (2 ^ 31)" by (simp only: of_int_less_iff)
  with y have "y < 2147483648" by simp
  with y(1) show ?thesis by (simp add: trunc_def)
qed

definition axis_ok :: "int \<Rightarrow> int \<times> int \<times> fp \<Rightarrow> bool" where
  "axis_ok src_len e \<longleftrightarrow> (case e of (lo, hi, w) \<Rightarrow> 0 \<le> lo \<and> lo < src_len \<and> 0 \<le> hi \<and> hi < src_len)"

lemma axis_entry_ok:
  assumes "0 < src_len" "src_len \<le> 4096" "0 < dst_len" "dst_len \<le> 4096" "int d < dst_len"
  shows "\<exists>e. axis_entry src_len dst_len d = Value e \<and> axis_ok src_len e"
proof -
  let ?b = "(int d + 1) * src_len"
  have "?b \<le> 4096 * 4096" by (rule mult_mono) (use assms in auto)
  then have b: "0 \<le> ?b" "?b \<le> 16777216" using assms by auto
  obtain s where s: "rnd binary64 (of_int src_len / of_int dst_len) = Fin s" "0 \<le> s" "s \<le> of_int src_len"
  proof (rule rnd_between[of "of_int src_len / of_int dst_len" "of_int src_len" binary64])
    have "(1 :: rat) \<le> of_int dst_len" using assms(3) by simp
    then show "of_int src_len / of_int dst_len \<le> (of_int src_len :: rat)" using assms(1) by (simp add: divide_le_eq mult_le_cancel_left1)
  qed (use assms in \<open>auto intro: int_representable\<close>)
  obtain h where h: "rnd binary64 (of_int (int d) + 1/2) = Fin h" "0 \<le> h" "h \<le> of_int (int d + 1)"
  proof (rule rnd_between[of "of_int (int d) + 1/2" "of_int (int d + 1)" binary64])
    show "representable binary64 (of_int (int d + 1))" by (rule int_representable(1)) (use assms in auto)
  qed auto
  have "h * s \<le> of_int (int d + 1) * of_int src_len" by (rule mult_mono) (use h s in auto)
  then obtain m where m: "rnd binary64 (h * s) = Fin m" "0 \<le> m" "m \<le> of_int ?b"
    using rnd_between[of "h * s" "of_int ?b" binary64] int_representable(1)[of ?b] b h s by auto
  obtain v where v: "(let f0 = fp_sub binary64 (Fin m) (Fin (1/2)) in if fp_less f0 (Fin 0) then Fin 0 else f0) = Fin v" "0 \<le> v" "v \<le> of_int ?b"
    by (rule position_between[OF m(2,3) b(1)]) (use b in auto)
  have fl: "0 \<le> \<lfloor>v\<rfloor>" "\<lfloor>v\<rfloor> \<le> ?b" using v(2,3) by (auto simp: floor_le_iff intro: order.strict_trans1)
  have "of_int \<lfloor>v\<rfloor> \<le> (of_int ?b :: rat)" using fl(2) by (simp only: of_int_le_iff)
  then have t: "to_int32 (fp_floor (Fin v)) = Value \<lfloor>v\<rfloor>" using to_int32_between[of "of_int \<lfloor>v\<rfloor>" ?b] fl(1) b by simp
  have "axis_position src_len dst_len d = Fin v"
    using assms s h m v(1) by (auto simp: axis_position_def fp_of_int_exact Let_def split: if_splits)
  then show ?thesis using assms(1) fl(1) t by (auto simp: axis_entry_def axis_ok_def Let_def simp del: to_int32.simps fp_floor.simps)
qed

lemma BuildAxisTable_ok:
  assumes "0 < src_len" "src_len \<le> 4096" "0 < dst_len" "dst_len \<le> 4096"
  shows "\<exists>tab. BuildAxisTable src_len dst_len = Value tab \<and> length tab = nat dst_len \<and> (\<forall>e\<in>set tab. axis_ok src_len e)"
proof -
  have "\<exists>e. axis_entry src_len dst_len d = Value e \<and> axis_ok src_len e" if "d \<in> set [0..<nat dst_len]" for d
    by (rule axis_entry_ok) (use assms that in auto)
  from iterate_append[of "[0..<nat dst_len]" "axis_entry src_len dst_len" "axis_ok src_len" "[]", OF this]
  show ?thesis by (auto simp: BuildAxisTable_def)
qed

lemma scaled_side:
  assumes "0 < w" "w \<le> 4096" "1 \<le> S" "S \<le> 4095" "0 \<le> r" "r \<le> of_int S"
  shows "\<exists>t. to_int32 (mul32 (fp_of_int binary32 w) (Fin r)) = Value t"
proof -
  have "w * S \<le> 4096 * 4095" by (rule mult_mono) (use assms in auto)
  then have ws: "0 \<le> w * S" "w * S < 2 ^ 24" using assms by auto
  have "of_int w * r \<le> of_int (w * S)" using assms by simp
  then obtain y where y: "rnd binary32 (of_int w * r) = Fin y" "0 \<le> y" "y \<le> of_int (w * S)"
    using rnd_between[of "of_int w * r" "of_int (w * S)" binary32] int_representable(2)[OF ws] assms by auto
  have "w * S < 2 ^ 31" using ws(2) by simp
  then have "to_int32 (Fin y) = Value \<lfloor>y\<rfloor>" by (rule to_int32_between[OF y(2,3)])
  moreover have "mul32 (fp_of_int binary32 w) (Fin r) = Fin y" using assms y(1) by (simp add: fp_of_int_exact)
  ultimately show ?thesis by auto
qed

lemma ratio_bounds:
  assumes "0 < w" "w \<le> 4096" "1 \<le> S" "S \<le> 4095"
  shows "\<exists>r. div32 (fp_of_int binary32 S) (fp_of_int binary32 w) = Fin r \<and> 0 \<le> r \<and> r \<le> of_int S"
proof -
  have "(1 :: rat) \<le> of_int w" using assms(1) by simp
  then have "of_int S / of_int w \<le> (of_int S :: rat)" using assms(3) by (simp add: divide_le_eq mult_le_cancel_left1)
  then obtain r where "rnd binary32 (of_int S / of_int w) = Fin r" "0 \<le> r" "r \<le> of_int S"
    using rnd_between[of "of_int S / of_int w" "of_int S" binary32] int_representable(2)[of S] assms by auto
  then show ?thesis using assms by (simp add: fp_of_int_exact)
qed

lemma src_index:
  assumes "0 \<le> y" "y < h" "0 \<le> x" "x < w" "c < 3" "nat w * nat h * 3 \<le> n"
  shows "nat y * (nat w * 3) + nat x * 3 + c < n"
proof -
  have "nat x * 3 + c < nat w * 3" using assms by linarith
  then have "nat y * (nat w * 3) + (nat x * 3 + c) < Suc (nat y) * (nat w * 3)" by simp
  also have "\<dots> \<le> nat h * (nat w * 3)" by (rule mult_le_mono1) (use assms in linarith)
  finally show ?thesis using assms(6) by (simp add: ac_simps)
qed

lemma tensor_index:
  assumes "y < s" "x < s" "c < (3 :: nat)"
  shows "c * (s * s) + (y * s + x) < 3 * (s * s)"
proof -
  have "y * s + x < Suc y * s" using assms(2) by simp
  also have "\<dots> \<le> s * s" by (rule mult_le_mono1) (use assms(1) in simp)
  finally have "c * (s * s) + (y * s + x) < Suc c * (s * s)" by simp
  also have "\<dots> \<le> 3 * (s * s)" by (rule mult_le_mono1) (use assms(3) in simp)
  finally show ?thesis .
qed

definition bgr_ok :: "Frame \<Rightarrow> bool" where
  "bgr_ok f \<longleftrightarrow> format f = kBgr24 \<and> 0 < sint (width f) \<and> sint (width f) \<le> 4096 \<and> 0 < sint (height f) \<and> sint (height f) \<le> 4096 \<and>
     nat (sint (width f)) * nat (sint (height f)) * 3 \<le> length (data f)"

lemma resize_step_ok:
  assumes "axis_ok h (ytab ! dy)" "axis_ok w (xtab ! dx)" "dy < S" "dx < S" "c < 3" "nat w * nat h * 3 \<le> length src"
    "length t = 3 * (S * S)"
  shows "\<exists>t'. resize_step src S (nat w * 3) ytab xtab dy dx c t = Value t' \<and> length t' = 3 * (S * S)"
proof -
  obtain ya yb wy xa xb wx where e: "ytab ! dy = (ya, yb, wy)" "xtab ! dx = (xa, xb, wx)" by (cases "ytab ! dy"; cases "xtab ! dx") auto
  have ok: "0 \<le> ya" "ya < h" "0 \<le> yb" "yb < h" "0 \<le> xa" "xa < w" "0 \<le> xb" "xb < w" using assms(1,2) by (simp_all add: axis_ok_def e)
  have "c * (S * S) + (dy * S + dx) < length t" unfolding assms(7) by (rule tensor_index[OF assms(3-5)])
  then show ?thesis using assms(7)
    by (simp add: resize_step_def e sample_def src_at_def put_def src_index[OF ok(1,2,5,6) assms(5,6)] src_index[OF ok(1,2,7,8) assms(5,6)]
        src_index[OF ok(3,4,5,6) assms(5,6)] src_index[OF ok(3,4,7,8) assms(5,6)])
qed

lemma Preprocess_in_bounds:
  assumes "bgr_ok frame" "1 \<le> input_size cfg" "input_size cfg \<le> 4095"
  shows "\<exists>r t. Preprocess cfg frame = Value (r, t) \<and> length t = 3 * (nat (input_size cfg) * nat (input_size cfg))"
proof -
  let ?S = "input_size cfg" and ?w = "sint (width frame)" and ?h = "sint (height frame)" and ?fl = "fp_of_int binary32"
  have fr: "format frame = kBgr24" "width frame \<noteq> 0" "height frame \<noteq> 0" "0 < ?w" "?w \<le> 4096" "0 < ?h" "?h \<le> 4096"
    "nat ?w * nat ?h * 3 \<le> length (data frame)"
    using assms(1) by (auto simp: bgr_ok_def)
  obtain ra rb where rr: "div32 (?fl ?S) (?fl ?h) = Fin ra" "0 \<le> ra" "ra \<le> of_int ?S" "div32 (?fl ?S) (?fl ?w) = Fin rb" "0 \<le> rb" "rb \<le> of_int ?S"
    using ratio_bounds[OF fr(6,7) assms(2,3)] ratio_bounds[OF fr(4,5) assms(2,3)] by blast
  obtain r where r: "std_min (Fin ra) (Fin rb) = Fin r" "0 \<le> r" "r \<le> of_int ?S"
    using rr by (cases "rb < ra") (auto simp: std_min_def)
  obtain tw th where tt: "to_int32 (mul32 (?fl ?w) (Fin r)) = Value tw" "to_int32 (mul32 (?fl ?h) (Fin r)) = Value th"
    using scaled_side[OF fr(4,5) assms(2,3) r(2,3)] scaled_side[OF fr(6,7) assms(2,3) r(2,3)] by blast
  define nw where "nw = (if tw < 1 then 1 else if ?S < tw then ?S else tw)"
  define nh where "nh = (if th < 1 then 1 else if ?S < th then ?S else th)"
  have n: "0 < nw" "nw \<le> ?S" "0 < nh" "nh \<le> ?S" using assms(2) by (auto simp: nw_def nh_def)
  obtain xtab ytab where tabs: "BuildAxisTable ?w nw = Value xtab" "length xtab = nat nw" "\<forall>e\<in>set xtab. axis_ok ?w e"
    "BuildAxisTable ?h nh = Value ytab" "length ytab = nat nh" "\<forall>e\<in>set ytab. axis_ok ?h e"
    using BuildAxisTable_ok[OF fr(4,5) n(1)] BuildAxisTable_ok[OF fr(6,7) n(3)] n assms(3) by fastforce
  let ?P = "\<lambda>t :: fp list. length t = 3 * (nat ?S * nat ?S)"
  let ?step = "resize_step (data frame) (nat ?S) (nat ?w * 3) ytab xtab"
  have step: "\<exists>t'. ?step dy dx c t = Value t' \<and> ?P t'" if i: "dy < nat nh" "dx < nat nw" "c < 3" "?P t" for dy dx c t
  proof (rule resize_step_ok[where h = ?h])
    show "axis_ok ?h (ytab ! dy)" "axis_ok ?w (xtab ! dx)" using i(1,2) tabs by simp_all
    show "dy < nat ?S" "dx < nat ?S" using i(1,2) n by linarith+
  qed (use i fr(8) in auto)
  have "\<exists>t. iterate (\<lambda>dy. iterate (\<lambda>dx. iterate (?step dy dx) [0..<3]) [0..<nat nw]) [0..<nat nh] (replicate (3 * (nat ?S * nat ?S)) (Fin 114)) = Value t \<and> ?P t"
    by (intro iterate_inv[where P = ?P]) (use step in auto)
  then obtain t where t: "iterate (\<lambda>dy. iterate (\<lambda>dx. iterate (?step dy dx) [0..<3]) [0..<nat nw]) [0..<nat nh]
      (replicate (3 * (nat ?S * nat ?S)) (Fin 114)) = Value t" "?P t" by blast
  have "Preprocess cfg frame = Value (Fin r, t)"
    using fr(1-3) t(1) by (simp add: Preprocess_def Let_def rr(1,4) r(1) tt tabs(1,4) flip: nw_def nh_def)
  then show ?thesis using t(2) by blast
qed

section \<open>Suppression\<close>

text \<open>What the kept boxes are, for any overlap test and candidates in an order \<open>ge\<close>.\<close>

definition greedy :: "('d \<Rightarrow> 'd \<Rightarrow> bool) \<Rightarrow> 'd list \<Rightarrow> 'd list \<Rightarrow> 'd list" where
  "greedy ov kept cs = foldl (\<lambda>kept c. if list_ex (ov c) kept then kept else kept @ [c]) kept cs"

lemma greedy_inv:
  assumes "sorted_wrt ge (kept @ cs)" "sorted_wrt (\<lambda>a b. \<not> ov b a) kept"
  shows "sorted_wrt ge (greedy ov kept cs) \<and> sorted_wrt (\<lambda>a b. \<not> ov b a) (greedy ov kept cs) \<and>
    set kept \<subseteq> set (greedy ov kept cs) \<and> set (greedy ov kept cs) \<subseteq> set kept \<union> set cs \<and>
    (\<forall>c\<in>set cs. c \<in> set (greedy ov kept cs) \<or> (\<exists>k\<in>set (greedy ov kept cs). ov c k \<and> ge k c))"
  using assms
proof (induction cs arbitrary: kept)
  case (Cons c cs)
  show ?case
  proof (cases "list_ex (ov c) kept")
    case True
    then obtain k where k: "k \<in> set kept" "ov c k" by (auto simp: list_ex_iff)
    then have "ge k c" using Cons.prems(1) by (auto simp: sorted_wrt_append)
    moreover have "greedy ov kept (c # cs) = greedy ov kept cs" using True by (simp add: greedy_def)
    moreover have "sorted_wrt ge (kept @ cs)" using Cons.prems(1) by (auto simp: sorted_wrt_append)
    ultimately show ?thesis using Cons.IH[of kept] Cons.prems(2) k by auto
  next
    case False
    have g: "greedy ov kept (c # cs) = greedy ov (kept @ [c]) cs" using False by (simp add: greedy_def)
    have "sorted_wrt (\<lambda>a b. \<not> ov b a) (kept @ [c])" using Cons.prems(2) False by (auto simp: sorted_wrt_append list_ex_iff)
    then show ?thesis using Cons.IH[of "kept @ [c]"] Cons.prems(1) by (auto simp: g)
  qed
qed (auto simp: greedy_def sorted_wrt_append)

lemma nms_greedy: "nms t cs = greedy (\<lambda>c k. fp_less t (IoU c k)) [] cs"
  by (simp add: nms_def greedy_def)

section \<open>What the detector returns\<close>

definition finite_fp :: "fp \<Rightarrow> bool" where
  "finite_fp v \<longleftrightarrow> (case v of Fin q \<Rightarrow> True | _ \<Rightarrow> False)"

lemma finite_fpE: "finite_fp v \<Longrightarrow> (\<And>q. v = Fin q \<Longrightarrow> P) \<Longrightarrow> P"
  by (cases v) (auto simp: finite_fp_def)

definition boxed :: "fp \<Rightarrow> fp \<Rightarrow> bool" where
  "boxed v hi \<longleftrightarrow> \<not> fp_less v (Fin 0) \<and> \<not> fp_less hi v"

lemma clamp_boxed: "fp_le (Fin 0) hi \<Longrightarrow> boxed (std_clamp v (Fin 0) hi) hi"
  by (cases hi; cases v) (auto simp: boxed_def std_clamp_def)

lemma best_class_range:
  assumes "0 < n" "\<And>k. k < n \<Longrightarrow> finite_fp (p ! (5 + k))"
  shows "fst (best_class p n) < n \<and> finite_fp (snd (best_class p n))"
proof -
  have "fst (foldl (\<lambda>(bc, bs) c. if fp_less bs (p ! (5 + c)) then (c, p ! (5 + c)) else (bc, bs)) (a, b) cs) < n \<and>
      finite_fp (snd (foldl (\<lambda>(bc, bs) c. if fp_less bs (p ! (5 + c)) then (c, p ! (5 + c)) else (bc, bs)) (a, b) cs))"
    if "a < n" "finite_fp b" "\<forall>c\<in>set cs. c < n" for a b cs
    using that assms(2) by (induction cs arbitrary: a b) auto
  then show ?thesis using assms(1) assms(2)[of 0] by (simp add: best_class_def)
qed

definition sane :: "OnnxDetectorConfig \<Rightarrow> nat \<Rightarrow> fp \<Rightarrow> fp \<Rightarrow> Detection \<Rightarrow> bool" where
  "sane cfg num_classes img_w img_h d \<longleftrightarrow> fp_less (score_threshold cfg) (score d) \<and> 0 \<le> class_id d \<and> class_id d < int num_classes \<and>
     boxed (x1 d) img_w \<and> boxed (x2 d) img_w \<and> boxed (y1 d) img_h \<and> boxed (y2 d) img_h"

lemma decode_row_sane:
  assumes "decode_row cfg expf img_w img_h r n cell p = Some d" "0 < n" "length p = n + 5" "\<forall>v\<in>set p. finite_fp v"
    "score_threshold cfg \<noteq> NaN" "fp_le (Fin 0) img_w" "fp_le (Fin 0) img_h"
  shows "sane cfg n img_w img_h d \<and> score d \<noteq> NaN"
proof -
  obtain bc bs where bc: "best_class p n = (bc, bs)" by (cases "best_class p n")
  have fin: "finite_fp (p ! k)" if "k < n + 5" for k using that assms(3,4) by simp
  then have b: "bc < n" "finite_fp bs" using best_class_range[OF assms(2), of p] bc by auto
  obtain q b' where ob: "p ! 4 = Fin q" "bs = Fin b'" using fin[of 4] b(2) by (auto elim!: finite_fpE)
  have nn: "mul32 (p ! 4) bs \<noteq> NaN" by (simp add: ob)
  have d: "\<not> fp_le (mul32 (p ! 4) bs) (score_threshold cfg)" "score d = mul32 (p ! 4) bs" "class_id d = int bc"
    "boxed (x1 d) img_w" "boxed (x2 d) img_w" "boxed (y1 d) img_h" "boxed (y2 d) img_h"
    using assms(1) clamp_boxed[OF assms(6)] clamp_boxed[OF assms(7)]
    by (auto simp: decode_row_def Let_def bc split: prod.splits if_splits)
  have "fp_less (score_threshold cfg) (mul32 (p ! 4) bs)"
    using d(1) nn assms(5) by (cases "mul32 (p ! 4) bs"; cases "score_threshold cfg") auto
  then show ?thesis using d b nn by (simp add: sane_def)
qed

text \<open>
  \<open>std::sort\<close> on keys that are numbers, and a session whose output is finite and has an element for
  every index of its shape, with a batch of one.
\<close>

definition std_sort :: "(Detection list \<Rightarrow> Detection list) \<Rightarrow> bool" where
  "std_sort srt \<longleftrightarrow> (\<forall>cs. (\<forall>c\<in>set cs. score c \<noteq> NaN) \<longrightarrow>
     mset (srt cs) = mset cs \<and> sorted_wrt (\<lambda>a b. \<not> fp_less (score a) (score b)) (srt cs))"

definition session_ok :: "(fp list \<Rightarrow> int list \<times> fp list) \<Rightarrow> bool" where
  "session_ok run \<longleftrightarrow> (\<forall>t. case run t of (shape, out) \<Rightarrow> (\<forall>v\<in>set out. finite_fp v) \<and>
     (length shape = 3 \<longrightarrow> shape ! 0 = 1 \<and> 0 \<le> shape ! 1 \<and> shape ! 1 < 2 ^ 63 \<and> length out = nat (shape ! 1) * nat (shape ! 2)))"

lemma fp_of_int_nonneg: "fp_le (Fin 0) (fp_of_int binary32 (uint w))"
proof -
  have a: "(0 :: rat) \<le> of_int (uint w)" by (rule of_int_0_le_iff[THEN iffD2, OF uint_nonnegative])
  have "0 < fst binary32" by (simp add: binary32_def)
  from rnd_mono[OF a this] show ?thesis unfolding fp_of_int_def rnd_0 .
qed

lemma candidates_sane:
  assumes "5 < dims" "length out = length (cells det) * dims" "\<forall>v\<in>set out. finite_fp v" "score_threshold (config det) \<noteq> NaN"
    "c \<in> set (candidates det expf frame r dims out)"
  shows "sane (config det) (dims - 5) (fp_of_int binary32 (uint (width frame))) (fp_of_int binary32 (uint (height frame))) c \<and> score c \<noteq> NaN"
proof -
  obtain i where i: "i < length (cells det)" and c: "decode_row (config det) expf (fp_of_int binary32 (uint (width frame)))
      (fp_of_int binary32 (uint (height frame))) r (dims - 5) (cells det ! i) (row dims out i) = Some c"
    using assms(5) by (auto simp: candidates_def map_filter_def)
  have "Suc i * dims \<le> length out" using i unfolding assms(2) by (intro mult_le_mono1) simp
  then have "length (row dims out i) = (dims - 5) + 5" using assms(1) by (simp add: row_def)
  moreover have "\<forall>v\<in>set (row dims out i). finite_fp v" using assms(3) by (auto simp: row_def dest!: in_set_takeD in_set_dropD)
  ultimately show ?thesis
    using decode_row_sane[OF c _ _ _ assms(4) fp_of_int_nonneg fp_of_int_nonneg] assms(1) by simp
qed

text \<open>What a selection from candidates promises.\<close>

definition well_selected :: "onnx_detector \<Rightarrow> Frame \<Rightarrow> nat \<Rightarrow> Detection list \<Rightarrow> Detection list \<Rightarrow> bool" where
  "well_selected det frame num_classes cands ds \<longleftrightarrow>
     (\<forall>d\<in>set ds. sane (config det) num_classes (fp_of_int binary32 (uint (width frame))) (fp_of_int binary32 (uint (height frame))) d) \<and>
     sorted_wrt (\<lambda>a b. \<not> fp_less (score a) (score b)) ds \<and>
     sorted_wrt (\<lambda>a b. \<not> fp_less (nms_iou_threshold (config det)) (IoU b a)) ds \<and> set ds \<subseteq> set cands \<and>
     (\<forall>c\<in>set cands. c \<in> set ds \<or>
        (\<exists>k\<in>set ds. fp_less (nms_iou_threshold (config det)) (IoU c k) \<and> \<not> fp_less (score k) (score c)))"

lemma nms_well_selected:
  assumes "std_sort srt" "\<And>c. c \<in> set cs \<Longrightarrow> sane (config det) n (fp_of_int binary32 (uint (width frame))) (fp_of_int binary32 (uint (height frame))) c \<and> score c \<noteq> NaN"
  shows "well_selected det frame n cs (nms (nms_iou_threshold (config det)) (srt cs))"
proof -
  let ?th = "nms_iou_threshold (config det)"
  have srt: "mset (srt cs) = mset cs" "sorted_wrt (\<lambda>a b. \<not> fp_less (score a) (score b)) (srt cs)"
    using assms(1)[unfolded std_sort_def, rule_format, of cs] assms(2) by blast+
  have set: "set (srt cs) = set cs" using srt(1) by (metis set_mset_mset)
  note g = greedy_inv[of "\<lambda>a b. \<not> fp_less (score a) (score b)" "[]" "srt cs" "\<lambda>c k. fp_less ?th (IoU c k)", simplified,
      OF srt(2), folded nms_greedy, unfolded set]
  then show ?thesis using assms(2) unfolding well_selected_def by blast
qed

lemma DetectAll_selects:
  assumes "bgr_ok frame" "1 \<le> input_size (config det)" "input_size (config det) \<le> 4095" "std_sort srt" "session_ok run"
    "score_threshold (config det) \<noteq> NaN"
  shows "\<exists>r t. Preprocess (config det) frame = Value (r, t) \<and>
    (case DetectAll srt run expf det frame of
       Value ds \<Rightarrow> well_selected det frame (nat (fst (run t) ! 2) - 5) (candidates det expf frame r (nat (fst (run t) ! 2)) (snd (run t))) ds
     | Throws \<Rightarrow> length (fst (run t)) \<noteq> 3 \<or> fst (run t) ! 1 \<noteq> int (length (cells det)) \<or> fst (run t) ! 2 < 6
     | UB \<Rightarrow> False)"
proof -
  obtain r t where p: "Preprocess (config det) frame = Value (r, t)" using Preprocess_in_bounds[OF assms(1-3)] by blast
  obtain shape out where run: "run t = (shape, out)" by (cases "run t")
  let ?n = "nat (shape ! 2)"
  have ok: "\<forall>v\<in>set out. finite_fp v" "length shape = 3 \<Longrightarrow> shape ! 0 = 1 \<and> 0 \<le> shape ! 1 \<and> shape ! 1 < 2 ^ 63 \<and> length out = nat (shape ! 1) * ?n"
  proof -
    have "(\<forall>v\<in>set out. finite_fp v) \<and> (length shape = 3 \<longrightarrow> shape ! 0 = 1 \<and> 0 \<le> shape ! 1 \<and> shape ! 1 < 2 ^ 63 \<and>
        length out = nat (shape ! 1) * ?n)"
      using spec[OF assms(5)[unfolded session_ok_def], of t] by (simp only: run prod.case)
    then show "\<forall>v\<in>set out. finite_fp v" "length shape = 3 \<Longrightarrow> shape ! 0 = 1 \<and> 0 \<le> shape ! 1 \<and> shape ! 1 < 2 ^ 63 \<and> length out = nat (shape ! 1) * ?n"
      by blast+
  qed
  show ?thesis
  proof (cases "length shape = 3 \<and> (shape ! 1) mod 2 ^ 64 = int (length (cells det)) \<and> \<not> shape ! 2 < 6")
    case True
    then have rng: "0 \<le> shape ! 1" "shape ! 1 < 2 ^ 63" "length out = nat (shape ! 1) * ?n" using ok(2) by blast+
    then have "(shape ! 1) mod 2 ^ 64 = shape ! 1" by (intro mod_pos_pos_trivial) simp_all
    then have "nat (shape ! 1) = length (cells det)" using True by (simp only: nat_int)
    then have len: "length out = length (cells det) * ?n" using rng(3) by simp
    have n: "5 < ?n" using True by linarith
    have "well_selected det frame (?n - 5) (candidates det expf frame r ?n out)
        (nms (nms_iou_threshold (config det)) (srt (candidates det expf frame r ?n out)))"
      by (rule nms_well_selected[OF assms(4) candidates_sane[OF n len ok(1) assms(6)]])
    then show ?thesis using p True by (simp add: DetectAll_def run)
  next
    case False
    have "DetectAll srt run expf det frame = Throws" using p False by (auto simp: DetectAll_def run)
    moreover have "length shape \<noteq> 3 \<or> shape ! 1 \<noteq> int (length (cells det)) \<or> shape ! 2 < 6"
    proof (rule ccontr)
      assume *: "\<not> ?thesis"
      then have "(shape ! 1) mod 2 ^ 64 = shape ! 1" using ok(2) by (intro mod_pos_pos_trivial) auto
      then show False using * False by auto
    qed
    ultimately show ?thesis using p by (simp add: run)
  qed
qed


text \<open>A stable insertion sort, one picture of one pixel, and a session that finds one box.\<close>

fun insert_by_score :: "Detection \<Rightarrow> Detection list \<Rightarrow> Detection list" where
  "insert_by_score x [] = [x]"
| "insert_by_score x (y # ys) = (if fp_less (score y) (score x) then x # y # ys else y # insert_by_score x ys)"

definition insertion_sort :: "Detection list \<Rightarrow> Detection list" where
  "insertion_sort cs = foldr insert_by_score cs []"

lemma mset_insert_by_score [simp]: "mset (insert_by_score x ys) = add_mset x (mset ys)"
  by (induction ys) auto

lemma set_insert_by_score [simp]: "set (insert_by_score x ys) = insert x (set ys)"
  by (induction ys) auto

lemma fp_not_less_trans: "b \<noteq> NaN \<Longrightarrow> \<not> fp_less a b \<Longrightarrow> \<not> fp_less b c \<Longrightarrow> a \<noteq> NaN \<Longrightarrow> \<not> fp_less a c"
  by (cases a; cases b; cases c) auto

lemma fp_less_asym: "fp_less a b \<Longrightarrow> \<not> fp_less b a"
  by (cases a; cases b) auto

lemma sorted_insert_by_score:
  "sorted_wrt (\<lambda>a b. \<not> fp_less (score a) (score b)) ys \<Longrightarrow> score x \<noteq> NaN \<Longrightarrow> \<forall>y\<in>set ys. score y \<noteq> NaN \<Longrightarrow>
    sorted_wrt (\<lambda>a b. \<not> fp_less (score a) (score b)) (insert_by_score x ys)"
proof (induction ys)
  case (Cons y ys)
  then show ?case using fp_not_less_trans[of "score y" "score x"] fp_less_asym[of "score y" "score x"] by auto
qed simp

lemma std_sort_insertion: "std_sort insertion_sort"
proof -
  have "mset (insertion_sort cs) = mset cs \<and> sorted_wrt (\<lambda>a b. \<not> fp_less (score a) (score b)) (insertion_sort cs)"
    if "\<forall>c\<in>set cs. score c \<noteq> NaN" for cs
    using that
  proof (induction cs)
    case (Cons c cs)
    have "set (insertion_sort cs) = set cs" using Cons by (metis list.set_intros(2) set_mset_mset)
    then show ?case using Cons sorted_insert_by_score[of "insertion_sort cs" c] by (simp add: insertion_sort_def)
  qed (simp add: insertion_sort_def)
  then show ?thesis by (simp add: std_sort_def)
qed

definition tiny_frame :: Frame where
  "tiny_frame = \<lparr>width = 8, height = 1, used_bytes = 24, format = kBgr24, capture_time_unix_ns = 0, frame_index = 0, data = replicate 24 9\<rparr>"

definition tiny_config :: OnnxDetectorConfig where
  "tiny_config = \<lparr>input_size = 8, score_threshold = Fin (1/4), nms_iou_threshold = Fin (1/2), target_class_ids = []\<rparr>"

definition tiny_detector :: onnx_detector where
  "tiny_detector = \<lparr>config = tiny_config, cells = grid 8\<rparr>"

definition tiny_run :: "fp list \<Rightarrow> int list \<times> fp list" where
  "tiny_run t = ([1, 1, 6], [Fin 0, Fin 0, Fin 0, Fin 0, Fin 1, Fin (1/2)])"


end
