(* ===== verification/Protocol.thy ===== *)
theory Protocol
  imports Ieee
begin

text \<open>
  The messages of proto/ridgeline/v1/ingest.proto.  A proto3 message has a default for every
  field, so each is a plain record; a \<open>oneof\<close> is a datatype with a constructor for the unset
  case.  Signed 64-bit fields are integers, which the wire keeps within 64 bits.
\<close>

record BoundingBox =
  bb_x_min :: fp
  bb_y_min :: fp
  bb_x_max :: fp
  bb_y_max :: fp

record Hello =
  hello_device_id :: string
  agent_version :: string
  hello_last_acked_seq :: u64
  hello_durable_resume :: bool
  hello_tenant_id :: string

record DetectionEvent =
  seq :: u64
  label :: string
  det_confidence :: fp
  bbox :: BoundingBox
  det_capture_time_unix_ns :: int
  emit_time_unix_ns :: int
  frames_confirmed :: u32
  window_size :: u32

record Heartbeat =
  sent_time_unix_ns :: int
  hb_queue_depth :: u32
  hb_frames_dropped :: u64
  applied_config_version :: u64

datatype AgentMessage = MHello Hello | MDetection DetectionEvent | MHeartbeat Heartbeat | PAYLOAD_NOT_SET

record ConfigUpdate =
  cfg_version :: u64
  confidence_threshold :: fp
  confirm_k :: u32
  confirm_n :: u32
  target_fps :: u32

datatype GatewayMessage = MAck u64 | MConfig ConfigUpdate | GATEWAY_PAYLOAD_NOT_SET

end
