(* ===== verification/Agent.thy ===== *)
theory Agent
  imports Wal Protocol Cstd Backoff EdgePipeline
begin

text \<open>
  The edge agent, agent/src/main.cc: command line, outbox, startup from the log, the commit of
  an event, the reader of acknowledgements and configurations, the two producers, and the
  passes of the connection loop.  The write-ahead log is used through its specification, the
  abstract log of the theory on the log (checkpoint and unacknowledged records), which a crash
  keeps.  Protobuf and the clock are parameters.
\<close>

section \<open>Command line\<close>

record Options =
  opt_gateway :: string
  opt_device_id :: string
  opt_tenant_id :: string
  opt_rate_hz :: fp
  opt_duration_s :: int
  opt_state_dir :: string
  opt_log_commits :: bool
  opt_tls_ca :: string
  opt_tls_cert :: string
  opt_tls_key :: string
  opt_video :: string
  opt_model :: string
  opt_classes :: "int list"
  opt_k :: u32
  opt_n :: u32
  opt_threads :: int
  opt_score :: fp
  opt_loop :: bool

text \<open>The default model path is fixed by the build.\<close>

definition default_options :: "string \<Rightarrow> Options" where
  "default_options model =
     \<lparr>opt_gateway = ''localhost:50051'', opt_device_id = ''cam-0001'', opt_tenant_id = [], opt_rate_hz = Fin 5,
      opt_duration_s = 0, opt_state_dir = [], opt_log_commits = False, opt_tls_ca = [], opt_tls_cert = [], opt_tls_key = [],
      opt_video = [], opt_model = model, opt_classes = [], opt_k = 3, opt_n = 5, opt_threads = 1,
      opt_score = f32 (3/10), opt_loop = False\<rparr>"

function items_of :: "istream \<Rightarrow> string list" where
  "items_of s = (case getline (CHR '','') s of None \<Rightarrow> [] | Some (item, s') \<Rightarrow> item # items_of s')"
  by pat_completeness auto
termination
  by (relation "measure (\<lambda>s. case s of None \<Rightarrow> 0 | Some cs \<Rightarrow> Suc (length cs))")
    (auto split: option.splits if_splits elim!: getline.elims dest!: split_at_char_decreases[OF sym])

declare items_of.simps [simp del]

definition ParseClassList :: "string \<Rightarrow> int list" where
  "ParseClassList s = map atoi (filter (\<lambda>item. item \<noteq> []) (items_of (Some s)))"

definition u32_of_atoi :: "string \<Rightarrow> u32" where
  "u32_of_atoi s = word_of_int (atoi s)"

definition agent_flags :: "(string \<times> (string \<Rightarrow> Options \<Rightarrow> Options)) list" where
  "agent_flags =
    [(''--gateway='', \<lambda>v r. r\<lparr>opt_gateway := v\<rparr>),
     (''--device-id='', \<lambda>v r. r\<lparr>opt_device_id := v\<rparr>),
     (''--tenant-id='', \<lambda>v r. r\<lparr>opt_tenant_id := v\<rparr>),
     (''--tls-ca='', \<lambda>v r. r\<lparr>opt_tls_ca := v\<rparr>),
     (''--tls-cert='', \<lambda>v r. r\<lparr>opt_tls_cert := v\<rparr>),
     (''--tls-key='', \<lambda>v r. r\<lparr>opt_tls_key := v\<rparr>),
     (''--rate-hz='', \<lambda>v r. r\<lparr>opt_rate_hz := atof v\<rparr>),
     (''--duration-s='', \<lambda>v r. r\<lparr>opt_duration_s := atoi v\<rparr>),
     (''--state-dir='', \<lambda>v r. r\<lparr>opt_state_dir := v\<rparr>),
     (''--video='', \<lambda>v r. r\<lparr>opt_video := v\<rparr>),
     (''--model='', \<lambda>v r. r\<lparr>opt_model := v\<rparr>),
     (''--classes='', \<lambda>v r. r\<lparr>opt_classes := ParseClassList v\<rparr>),
     (''--k='', \<lambda>v r. r\<lparr>opt_k := u32_of_atoi v\<rparr>),
     (''--n='', \<lambda>v r. r\<lparr>opt_n := u32_of_atoi v\<rparr>),
     (''--threads='', \<lambda>v r. r\<lparr>opt_threads := atoi v\<rparr>),
     (''--score='', \<lambda>v r. r\<lparr>opt_score := to_float (atof v)\<rparr>)]"

fun agent_args :: "string list \<Rightarrow> Options \<Rightarrow> Options option" where
  "agent_args [] r = Some r"
| "agent_args (a # as) r =
     (if a = ''--log-commits'' then agent_args as (r\<lparr>opt_log_commits := True\<rparr>)
      else if a = ''--loop'' then agent_args as (r\<lparr>opt_loop := True\<rparr>)
      else case apply_flag agent_flags a r of None \<Rightarrow> None | Some r' \<Rightarrow> agent_args as r')"

text \<open>\<open>None\<close> is the exit with code 2.\<close>

definition ParseArgs :: "string \<Rightarrow> string list \<Rightarrow> Options option" where
  "ParseArgs model args =
     (case agent_args args (default_options model) of
        None \<Rightarrow> None
      | Some r \<Rightarrow> if fp_le (opt_rate_hz r) (Fin 0) then None
                 else Some (if opt_state_dir r = [] then r\<lparr>opt_state_dir := ''ridgeline-state/'' @ opt_device_id r\<rparr> else r))"

text \<open>Channel credentials: exit code 2 for a partial TLS configuration, 1 for an unreadable file.\<close>

definition channel_credentials :: "(string \<Rightarrow> string option) \<Rightarrow> Options \<Rightarrow> int + (string \<times> string \<times> string) option" where
  "channel_credentials read_pem r =
     (if opt_tls_ca r = [] \<and> opt_tls_cert r = [] \<and> opt_tls_key r = [] then Inr None
      else if opt_tls_ca r = [] \<or> opt_tls_cert r = [] \<or> opt_tls_key r = [] then Inl 2
      else (case (read_pem (opt_tls_ca r), read_pem (opt_tls_key r), read_pem (opt_tls_cert r)) of
              (Some ca, Some key, Some cert) \<Rightarrow> Inr (Some (ca, key, cert))
            | _ \<Rightarrow> Inl 1))"

section \<open>Outbox\<close>

type_synonym outbox = "(u64 \<times> byte list) list"

definition Outbox_Push :: "u64 \<Rightarrow> byte list \<Rightarrow> outbox \<Rightarrow> outbox" where
  "Outbox_Push sq bytes items = items @ [(sq, bytes)]"

fun AckUpTo :: "u64 \<Rightarrow> outbox \<Rightarrow> outbox" where
  "AckUpTo up_to [] = []"
| "AckUpTo up_to (it # items) = (if fst it \<le> up_to then AckUpTo up_to items else it # items)"

definition Snapshot :: "outbox \<Rightarrow> outbox" where
  "Snapshot items = items"

definition Outbox_Size :: "outbox \<Rightarrow> nat" where
  "Outbox_Size items = length items"

section \<open>State and startup\<close>

record agent =
  alog :: log_spec
  outbox :: outbox
  next_seq :: u64
  pending_config :: ConfigUpdate
  pending_config_set :: bool
  a_applied_config_version :: u64
  current_rate_hz :: fp
  current_confirm_k :: u32
  current_confirm_n :: u32
  current_score_threshold :: fp
  agent_queue_depth :: u64
  agent_frames_dropped :: u64

definition empty_config :: ConfigUpdate where
  "empty_config = \<lparr>cfg_version = 0, confidence_threshold = Fin 0, confirm_k = 0, confirm_n = 0, target_fps = 0\<rparr>"

text \<open>Startup on what the log replays.\<close>

definition agent_start :: "Options \<Rightarrow> log_spec \<Rightarrow> agent" where
  "agent_start opt l =
     (case l of (acked, rs) \<Rightarrow>
        \<lparr>alog = l, outbox = foldl (\<lambda>ob (sq, bytes). Outbox_Push sq bytes ob) [] rs,
         next_seq = foldl (\<lambda>m (sq, bytes). max m sq) acked rs + 1,
         pending_config = empty_config, pending_config_set = False, a_applied_config_version = 0,
         current_rate_hz = opt_rate_hz opt, current_confirm_k = opt_k opt, current_confirm_n = opt_n opt,
         current_score_threshold = opt_score opt, agent_queue_depth = 0, agent_frames_dropped = 0\<rparr>)"

section \<open>Producing events\<close>

definition emit :: "(DetectionEvent \<Rightarrow> byte list) \<Rightarrow> DetectionEvent \<Rightarrow> agent \<Rightarrow> agent" where
  "emit ser d a =
     (let d' = d\<lparr>seq := next_seq a\<rparr>;
          bytes = ser d'
      in a\<lparr>alog := spec_op (OpAppend (next_seq a) bytes) (alog a),
           outbox := Outbox_Push (next_seq a) bytes (outbox a), next_seq := next_seq a + 1\<rparr>)"

definition video_event :: "int \<Rightarrow> ConfirmedEvent \<Rightarrow> DetectionEvent" where
  "video_event now ev =
     \<lparr>seq = 0, label = ''smoke'', det_confidence = ev_confidence ev,
      bbox = (case ev_box ev of (a, b, c, d) \<Rightarrow> \<lparr>bb_x_min = a, bb_y_min = b, bb_x_max = c, bb_y_max = d\<rparr>),
      det_capture_time_unix_ns = ev_capture_time ev, emit_time_unix_ns = now,
      frames_confirmed = ev_frames_confirmed ev, window_size = ev_window_size ev\<rparr>"

definition fake_event :: "int \<Rightarrow> fp \<Rightarrow> DetectionEvent" where
  "fake_event ts conf =
     \<lparr>seq = 0, label = ''smoke'', det_confidence = conf,
      bbox = \<lparr>bb_x_min = f32 (40/100), bb_y_min = f32 (30/100), bb_x_max = f32 (55/100), bb_y_max = f32 (42/100)\<rparr>,
      det_capture_time_unix_ns = ts, emit_time_unix_ns = ts, frames_confirmed = 0, window_size = 0\<rparr>"

text \<open>Applying a pending configuration: a field of zero keeps the current value.\<close>

definition apply_config_video :: "agent \<Rightarrow> agent" where
  "apply_config_video a =
     (if \<not> pending_config_set a then a
      else let cfg = pending_config a in
        a\<lparr>current_confirm_k := (if confirm_k cfg > 0 then confirm_k cfg else current_confirm_k a),
          current_confirm_n := (if confirm_n cfg > 0 then confirm_n cfg else current_confirm_n a),
          current_score_threshold := (if fp_less (Fin 0) (confidence_threshold cfg) then confidence_threshold cfg
                                      else current_score_threshold a),
          a_applied_config_version := cfg_version cfg, pending_config_set := False\<rparr>)"

definition apply_config_fake :: "agent \<Rightarrow> agent" where
  "apply_config_fake a =
     (if \<not> pending_config_set a then a
      else let cfg = pending_config a in
        a\<lparr>current_rate_hz := (if target_fps cfg > 0 then fp_of_int binary64 (int (unat (target_fps cfg))) else current_rate_hz a),
          a_applied_config_version := cfg_version cfg, pending_config_set := False\<rparr>)"

text \<open>
  The video producer.  \<open>build_pipeline\<close> starts a round of its outer loop on a fresh event ring;
  \<open>None\<close> is the abort in the confirmer's constructor.  \<open>video_round\<close> is one round of the inner
  loop; its flag says that a configuration was applied, which leaves the loop.
\<close>

definition build_pipeline :: "'s \<Rightarrow> Frame \<Rightarrow> Frame list \<Rightarrow> ConfirmedEvent list \<Rightarrow> agent \<Rightarrow> 's pipeline option" where
  "build_pipeline src scr frames evs a =
     (case KOfNConfirmer (current_confirm_k a) (current_confirm_n a) of
        None \<Rightarrow> None
      | Some c \<Rightarrow> Some (EdgePipeline True src scr frames (new_ring evs) c))"

definition video_continues :: "bool \<Rightarrow> bool \<Rightarrow> 's pipeline \<Rightarrow> bool" where
  "video_continues stop time_up p \<longleftrightarrow> \<not> stop \<and> \<not> time_up \<and> (\<not> pipe_finished p \<or> SizeApprox (out_events p) > 0)"

definition video_round :: "(DetectionEvent \<Rightarrow> byte list) \<Rightarrow> (ConfirmedEvent \<Rightarrow> ConfirmedEvent) \<Rightarrow> int \<Rightarrow> 's pipeline \<Rightarrow> agent \<Rightarrow>
    bool \<times> 's pipeline \<times> agent" where
  "video_round ser moved now p a =
     (let a1 = a\<lparr>agent_queue_depth := SizeApprox (frame_ring p), agent_frames_dropped := frames_dropped p\<rparr>;
          (got, evs) = TryPop moved (out_events p);
          a2 = (case got of None \<Rightarrow> a1 | Some ev \<Rightarrow> emit ser (video_event now ev) a1)
      in (pending_config_set a2, p\<lparr>out_events := evs\<rparr>, apply_config_video a2))"

text \<open>
  The synthetic producer, with its period and the time the next event is due; \<open>None\<close> is a period
  that does not fit the clock's 64-bit nanoseconds.
\<close>

record schedule =
  sch_period :: int
  next_due :: int

definition period_of :: "fp \<Rightarrow> int option" where
  "period_of rate = to_int64 (fp_mul binary64 (fp_div binary64 (Fin 1) rate) (Fin 1000000000))"

definition fake_wait :: "int \<Rightarrow> schedule \<Rightarrow> agent \<Rightarrow> (schedule \<times> agent) option" where
  "fake_wait now sch a =
     (if pending_config_set a \<and> target_fps (pending_config a) > 0
      then (case period_of (fp_of_int binary64 (int (unat (target_fps (pending_config a))))) of
              None \<Rightarrow> None
            | Some p \<Rightarrow> Some (\<lparr>sch_period = p, next_due = now\<rparr>, apply_config_fake a))
      else Some (sch, apply_config_fake a))"

definition fake_fire :: "(DetectionEvent \<Rightarrow> byte list) \<Rightarrow> int \<Rightarrow> fp \<Rightarrow> schedule \<Rightarrow> agent \<Rightarrow> schedule \<times> agent" where
  "fake_fire ser ts conf sch a =
     (sch\<lparr>next_due := next_due sch + sch_period sch\<rparr>, emit ser (fake_event ts conf) a)"

section \<open>The connection\<close>

definition on_ack :: "u64 \<Rightarrow> agent \<Rightarrow> agent" where
  "on_ack up_to a = a\<lparr>outbox := AckUpTo up_to (outbox a), alog := spec_op (OpAck up_to) (alog a)\<rparr>"

definition on_config :: "ConfigUpdate \<Rightarrow> agent \<Rightarrow> agent" where
  "on_config cfg a =
     (if cfg_version cfg > cfg_version (pending_config a) \<or>
         (\<not> pending_config_set a \<and> a_applied_config_version a < cfg_version cfg)
      then a\<lparr>pending_config := cfg, pending_config_set := True\<rparr> else a)"

fun on_gateway_message :: "GatewayMessage \<Rightarrow> agent \<Rightarrow> agent" where
  "on_gateway_message (MAck n) a = on_ack n a"
| "on_gateway_message (MConfig cfg) a = on_config cfg a"
| "on_gateway_message GATEWAY_PAYLOAD_NOT_SET a = a"

definition make_hello :: "Options \<Rightarrow> string \<Rightarrow> agent \<Rightarrow> Hello" where
  "make_hello opt version a =
     \<lparr>hello_device_id = opt_device_id opt, agent_version = version, hello_last_acked_seq = fst (alog a),
      hello_durable_resume = True, hello_tenant_id = opt_tenant_id opt\<rparr>"

text \<open>
  Writing events to the stream.  \<open>budget\<close> is how many more writes succeed; the result is the
  messages written, the new \<open>last_sent_seq\<close>, the budget left and whether the stream is alive.
\<close>

fun resend :: "(byte list \<Rightarrow> DetectionEvent) \<Rightarrow> nat \<Rightarrow> outbox \<Rightarrow> u64 \<Rightarrow> AgentMessage list \<times> u64 \<times> nat \<times> bool" where
  "resend prs budget [] sent = ([], sent, budget, True)"
| "resend prs 0 (it # items) sent = ([], sent, 0, False)"
| "resend prs (Suc budget) (it # items) sent =
     (case resend prs budget items (max sent (fst it)) of
        (ms, r) \<Rightarrow> (MDetection (prs (snd it)) # ms, r))"

fun send_new :: "(byte list \<Rightarrow> DetectionEvent) \<Rightarrow> nat \<Rightarrow> outbox \<Rightarrow> u64 \<Rightarrow> AgentMessage list \<times> u64 \<times> nat \<times> bool" where
  "send_new prs budget [] sent = ([], sent, budget, True)"
| "send_new prs budget (it # items) sent =
     (if fst it \<le> sent then send_new prs budget items sent
      else case budget of
             0 \<Rightarrow> ([], sent, 0, False)
           | Suc b \<Rightarrow> (case send_new prs b items (max sent (fst it)) of
               (ms, r) \<Rightarrow> (MDetection (prs (snd it)) # ms, r)))"

definition make_heartbeat :: "int \<Rightarrow> agent \<Rightarrow> Heartbeat" where
  "make_heartbeat now a =
     \<lparr>sent_time_unix_ns = now, hb_queue_depth = ucast (agent_queue_depth a), hb_frames_dropped = agent_frames_dropped a,
      applied_config_version = a_applied_config_version a\<rparr>"

text \<open>The start of a connection: hello, then everything in the outbox.\<close>

definition open_stream :: "(byte list \<Rightarrow> DetectionEvent) \<Rightarrow> Options \<Rightarrow> string \<Rightarrow> nat \<Rightarrow> agent \<Rightarrow> AgentMessage list \<times> u64 \<times> nat \<times> bool" where
  "open_stream prs opt version budget a =
     (case budget of
        0 \<Rightarrow> ([], 0, 0, False)
      | Suc b \<Rightarrow> (case resend prs b (Snapshot (outbox a)) 0 of
           (ms, r) \<Rightarrow> (MHello (make_hello opt version a) # ms, r)))"

text \<open>One round of the send loop: new events, then a heartbeat when it is due.\<close>

definition send_round :: "(byte list \<Rightarrow> DetectionEvent) \<Rightarrow> nat \<Rightarrow> int \<Rightarrow> int \<Rightarrow> int \<Rightarrow> u64 \<Rightarrow> agent \<Rightarrow>
    AgentMessage list \<times> u64 \<times> int \<times> bool" where
  "send_round prs budget now next_heartbeat wall sent a =
     (case send_new prs budget (Snapshot (outbox a)) sent of
        (ms, sent', budget', ok) \<Rightarrow>
          if ok \<and> next_heartbeat \<le> now
          then (if budget' = 0 then (ms, sent', next_heartbeat + 1000000000, False)
                else (ms @ [MHeartbeat (make_heartbeat wall a)], sent', next_heartbeat + 1000000000, True))
          else (ms, sent', next_heartbeat, ok))"

text \<open>Whether the loops go on, compaction, the reconnect delay, and the exit code.\<close>

definition keep_running :: "bool \<Rightarrow> bool \<Rightarrow> bool \<Rightarrow> agent \<Rightarrow> bool" where
  "keep_running stop time_up producer_done a \<longleftrightarrow> \<not> stop \<and> \<not> ((time_up \<or> producer_done) \<and> Outbox_Size (outbox a) = 0)"

definition compaction_due :: "nat \<Rightarrow> u64 \<Rightarrow> bool" where
  "compaction_due file_size bytes_since_compact \<longleftrightarrow> word_of_nat file_size > bytes_since_compact + 2 ^ 20"

definition reconnect_delay :: "bool \<Rightarrow> u32 \<Rightarrow> fp \<Rightarrow> u32 \<times> int option" where
  "reconnect_delay got_ack attempt u =
     (let n = (if got_ack then 0 else attempt) in (n + 1, FullJitterBackoff n default_policy u))"

definition unreachable_delay :: "u32 \<Rightarrow> fp \<Rightarrow> u32 \<times> int option" where
  "unreachable_delay attempt u = (attempt + 1, FullJitterBackoff attempt default_policy u)"

definition agent_exit_code :: "Options \<Rightarrow> agent \<Rightarrow> int" where
  "agent_exit_code opt a = (if opt_duration_s opt > 0 \<and> Outbox_Size (outbox a) \<noteq> 0 then 1 else 0)"



section \<open>The outbox is the log\<close>

text \<open>The sequence numbers after \<open>a\<close> and before \<open>b\<close>.\<close>

definition seq_range :: "u64 \<Rightarrow> u64 \<Rightarrow> u64 list" where
  "seq_range a b = map word_of_nat [Suc (unat a)..<unat b]"

lemma set_seq_range: "set (seq_range a b) = {n. a < n \<and> n < b}"
proof -
  have "n \<in> set (seq_range a b)" if "a < n" "n < b" for n
    using that unfolding seq_range_def set_map
    by (intro image_eqI[of _ _ "unat n"]) (auto simp: word_less_nat_alt)
  moreover have "a < n \<and> n < b" if "n \<in> set (seq_range a b)" for n
  proof -
    from that obtain k where k: "n = word_of_nat k" "unat a < k" "k < unat b" by (auto simp: seq_range_def)
    then have "unat n = k" using unat_u64_less[of b] by (simp add: unat_of_nat take_bit_nat_eq_self)
    with k show ?thesis by (simp add: word_less_nat_alt)
  qed
  ultimately show ?thesis by blast
qed

lemma sorted_seq_range: "sorted_wrt (<) (seq_range a b)"
proof -
  have "sorted_wrt (\<lambda>x y. (word_of_nat x :: u64) < word_of_nat y) [Suc (unat a)..<unat b]"
  proof (rule sorted_wrt_mono_rel[OF _ sorted_wrt_upt])
    fix x y assume "x \<in> set [Suc (unat a)..<unat b]" "y \<in> set [Suc (unat a)..<unat b]" "x < y"
    then have "y < 2 ^ 64" using unat_u64_less[of b] by simp
    then show "(word_of_nat x :: u64) < word_of_nat y"
      using \<open>x < y\<close> by (simp add: word_less_nat_alt unat_of_nat take_bit_nat_eq_self)
  qed
  then show ?thesis by (simp add: seq_range_def sorted_wrt_map)
qed

lemma distinct_seq_range: "distinct (seq_range a b)"
  using sorted_seq_range[of a b] by (simp add: strict_sorted_iff)

lemma seq_range_snoc:
  assumes "a < b" "b + 1 \<noteq> 0"
  shows "seq_range a (b + 1) = seq_range a b @ [b]"
proof -
  have "unat (b + 1) = Suc (unat b)" using assms(2) by (metis unatSuc add.commute)
  then show ?thesis using assms(1) by (simp add: seq_range_def word_less_nat_alt)
qed

lemma seq_range_empty: "b \<le> a + 1 \<Longrightarrow> a < b \<Longrightarrow> seq_range a b = []"
  using set_seq_range[of a b] inc_le[of a] by (metis (mono_tags, lifting) Collect_empty_eq inc_le leD order_less_le_trans set_empty)

lemma seq_range_filter: "a \<le> u \<Longrightarrow> filter (\<lambda>n. u < n) (seq_range a b) = seq_range u b"
  by (rule sorted_distinct_set_unique)
    (use sorted_seq_range in \<open>auto simp: set_seq_range strict_sorted_iff intro: sorted_wrt_filter\<close>)

lemma AckUpTo_sorted: "sorted_wrt (<) (map fst items) \<Longrightarrow> AckUpTo u items = filter (\<lambda>it. u < fst it) items"
  by (induction items) (auto intro!: filter_True[symmetric])

lemma unacked_fst: "unacked u rs = filter (\<lambda>it. u < fst it) rs"
  by (simp add: unacked_def case_prod_unfold)

text \<open>
  What the agent relies on of its log: an append above the checkpoint adds one pending record, an
  acknowledgement moves the checkpoint forward and drops what it covers.  \<open>mirrors\<close> relates an outbox,
  a checkpoint and a next number to the pending records.
\<close>

definition mirrors :: "outbox \<Rightarrow> u64 \<Rightarrow> wal_records \<Rightarrow> u64 \<Rightarrow> bool" where
  "mirrors ob c rs n \<longleftrightarrow> ob = rs \<and> c < n \<and> map fst rs = seq_range c n"

locale event_log =
  fixes append_op :: "u64 \<Rightarrow> byte list \<Rightarrow> 'l \<Rightarrow> 'l"
    and ack_op :: "u64 \<Rightarrow> 'l \<Rightarrow> 'l"
    and acked :: "'l \<Rightarrow> u64"
    and pending :: "'l \<Rightarrow> wal_records"
  assumes acked_append: "acked (append_op s p l) = acked l"
    and pending_append: "acked l < s \<Longrightarrow> pending (append_op s p l) = pending l @ [(s, p)]"
    and acked_ack: "acked (ack_op u l) = max (acked l) u"
    and pending_ack: "pending (ack_op u l) = (if u \<le> acked l then pending l else unacked u (pending l))"
begin

lemma mirrors_append:
  assumes "mirrors ob (acked l) (pending l) n" "n + 1 \<noteq> 0"
  shows "mirrors (Outbox_Push n p ob) (acked (append_op n p l)) (pending (append_op n p l)) (n + 1)"
proof -
  have lt: "acked l < n" and m: "ob = pending l" "map fst (pending l) = seq_range (acked l) n"
    using assms(1) by (auto simp: mirrors_def)
  have "n < n + 1" using assms(2) by (simp add: word_less_nat_alt unatSuc add.commute[of _ 1])
  with lt have "acked l < n + 1" by (rule less_trans)
  then show ?thesis
    using m seq_range_snoc[OF lt assms(2)] by (simp add: mirrors_def acked_append pending_append[OF lt] Outbox_Push_def)
qed

lemma pending_ack_max:
  assumes "mirrors ob (acked l) (pending l) n"
  shows "pending (ack_op u l) = unacked (max (acked l) u) (pending l)" "AckUpTo u ob = unacked (max (acked l) u) (pending l)"
proof -
  have m: "ob = pending l" "map fst (pending l) = seq_range (acked l) n" using assms by (auto simp: mirrors_def)
  have above: "unacked (acked l) (pending l) = pending l"
    using m(2) set_seq_range[of "acked l" n] by (auto simp: unacked_fst filter_id_conv simp flip: m(2))
  have "AckUpTo u (pending l) = unacked u (pending l)"
    using sorted_seq_range[of "acked l" n] by (simp add: AckUpTo_sorted unacked_fst m(2))
  also have both: "unacked u (pending l) = unacked (max (acked l) u) (pending l)"
    using arg_cong[OF above, of "unacked u"] by (simp add: max.commute)
  finally show "AckUpTo u ob = unacked (max (acked l) u) (pending l)" by (simp add: m(1))
  show "pending (ack_op u l) = unacked (max (acked l) u) (pending l)"
    using above both by (auto simp: pending_ack max_def)
qed

lemma mirrors_ack:
  assumes "mirrors ob (acked l) (pending l) n" "u < n"
  shows "mirrors (AckUpTo u ob) (acked (ack_op u l)) (pending (ack_op u l)) n"
proof -
  let ?c = "max (acked l) u"
  have m: "map fst (pending l) = seq_range (acked l) n" and lt: "?c < n" using assms by (auto simp: mirrors_def)
  have "map fst (unacked ?c (pending l)) = filter (\<lambda>n. ?c < n) (map fst (pending l))"
    by (simp add: unacked_fst filter_map comp_def)
  also have "\<dots> = seq_range ?c n" unfolding m by (rule seq_range_filter) simp
  finally show ?thesis using lt by (simp add: mirrors_def acked_ack pending_ack_max[OF assms(1)])
qed

end

text \<open>The abstract log, which the write-ahead log implements, is such a log.\<close>

interpretation wlog: event_log "\<lambda>s p. spec_op (OpAppend s p)" "\<lambda>u. spec_op (OpAck u)" fst snd
proof unfold_locales
  fix s u p and l :: log_spec
  show "fst (spec_op (OpAppend s p) l) = fst l" by (cases l) simp
  show "fst l < s \<Longrightarrow> snd (spec_op (OpAppend s p) l) = snd l @ [(s, p)]" by (cases l) (simp add: unacked_Cons)
  show "fst (spec_op (OpAck u) l) = max (fst l) u" by (cases l) (auto simp: max_def)
  show "snd (spec_op (OpAck u) l) = (if u \<le> fst l then snd l else unacked u (snd l))" by (cases l) simp
qed

lemma foldl_push: "foldl (\<lambda>ob (sq, bytes). Outbox_Push sq bytes ob) acc rs = acc @ rs"
  by (induction rs arbitrary: acc) (auto simp: Outbox_Push_def)

lemma foldl_max_sorted:
  "sorted_wrt (<) (a # map fst rs) \<Longrightarrow> foldl (\<lambda>m (sq, bytes). max m sq) (a :: u64) rs = (if rs = [] then a else fst (last rs))"
  by (induction rs arbitrary: a) (auto simp: max_def)

lemma seq_range_last: "a < b \<Longrightarrow> seq_range a b \<noteq> [] \<Longrightarrow> last (seq_range a b) = b - 1"
  by (auto simp: seq_range_def last_map word_less_nat_alt of_nat_diff)

lemma seq_range_Nil: "a < b \<Longrightarrow> seq_range a b = [] \<Longrightarrow> a = b - 1"
proof -
  assume ab: "a < b" and "seq_range a b = []"
  then have "Suc (unat a) = unat b" by (auto simp: seq_range_def word_less_nat_alt)
  then have "word_of_nat (Suc (unat a)) = b" by simp
  then show ?thesis by (simp add: eq_diff_eq add.commute)
qed

definition agent_inv :: "agent \<Rightarrow> bool" where
  "agent_inv a \<longleftrightarrow> outbox a = snd (alog a) \<and> fst (alog a) < next_seq a \<and>
     map fst (outbox a) = seq_range (fst (alog a)) (next_seq a)"

lemma agent_inv_mirrors: "agent_inv a \<longleftrightarrow> mirrors (outbox a) (fst (alog a)) (snd (alog a)) (next_seq a)"
  by (auto simp: agent_inv_def mirrors_def)

lemma agent_start_replays:
  assumes "map fst rs = seq_range c b" "c < b"
  shows "outbox (agent_start opt (c, rs)) = rs" "next_seq (agent_start opt (c, rs)) = b" "alog (agent_start opt (c, rs)) = (c, rs)"
proof -
  have "sorted_wrt (<) (c # map fst rs)"
    using assms(1) sorted_seq_range[of c b] set_seq_range[of c b] by (simp del: set_map)
  then have "foldl (\<lambda>m (sq, bytes). max m sq) c rs = (if rs = [] then c else fst (last rs))"
    by (rule foldl_max_sorted)
  also have "\<dots> = b - 1"
  proof (cases "rs = []")
    case True
    then show ?thesis using seq_range_Nil[OF assms(2)] assms(1) by simp
  next
    case False
    then have "fst (last rs) = last (map fst rs)" by (simp add: last_map)
    moreover have "seq_range c b \<noteq> []" using False assms(1) by (metis map_is_Nil_conv)
    ultimately show ?thesis using False seq_range_last[OF assms(2)] assms(1) by simp
  qed
  finally show "next_seq (agent_start opt (c, rs)) = b" by (simp add: agent_start_def)
qed (simp_all add: agent_start_def foldl_push)

lemma agent_start_inv: "map fst rs = seq_range c b \<Longrightarrow> c < b \<Longrightarrow> agent_inv (agent_start opt (c, rs))"
  by (simp add: agent_inv_def agent_start_replays[of rs c b])

lemma agent_restart:
  assumes "agent_inv a"
  shows "agent_inv (agent_start opt (alog a))" "outbox (agent_start opt (alog a)) = outbox a"
    "next_seq (agent_start opt (alog a)) = next_seq a" "alog (agent_start opt (alog a)) = alog a"
proof -
  obtain c rs where l: "alog a = (c, rs)" by (cases "alog a")
  with assms have "map fst rs = seq_range c (next_seq a)" "c < next_seq a" "outbox a = rs"
    by (auto simp: agent_inv_def)
  then show "agent_inv (agent_start opt (alog a))" "outbox (agent_start opt (alog a)) = outbox a"
    "next_seq (agent_start opt (alog a)) = next_seq a" "alog (agent_start opt (alog a)) = alog a"
    using agent_start_replays[of rs c "next_seq a" opt] agent_start_inv[of rs c "next_seq a" opt] l by simp_all
qed

lemma emit_effect:
  assumes "agent_inv a"
  shows "alog (emit ser d a) = (fst (alog a), outbox a @ [(next_seq a, ser (d\<lparr>seq := next_seq a\<rparr>))])"
    "outbox (emit ser d a) = outbox a @ [(next_seq a, ser (d\<lparr>seq := next_seq a\<rparr>))]"
    "next_seq (emit ser d a) = next_seq a + 1"
  using assms by (cases "alog a"; simp add: agent_inv_def emit_def Let_def Outbox_Push_def unacked_Cons)+

lemma emit_inv: "agent_inv a \<Longrightarrow> next_seq a + 1 \<noteq> 0 \<Longrightarrow> agent_inv (emit ser d a)"
  using wlog.mirrors_append by (simp add: agent_inv_mirrors emit_def Let_def)

lemma on_ack_effect:
  assumes "agent_inv a"
  shows "alog (on_ack u a) = (max (fst (alog a)) u, unacked (max (fst (alog a)) u) (outbox a))"
    "outbox (on_ack u a) = unacked (max (fst (alog a)) u) (outbox a)" "next_seq (on_ack u a) = next_seq a"
proof -
  have m: "mirrors (outbox a) (fst (alog a)) (snd (alog a)) (next_seq a)" using assms by (simp add: agent_inv_mirrors)
  then have ob: "outbox a = snd (alog a)" by (simp add: mirrors_def)
  show "outbox (on_ack u a) = unacked (max (fst (alog a)) u) (outbox a)"
    using wlog.pending_ack_max(2)[OF m, of u] by (simp add: on_ack_def ob)
  show "alog (on_ack u a) = (max (fst (alog a)) u, unacked (max (fst (alog a)) u) (outbox a))"
    using wlog.pending_ack_max(1)[OF m, of u] wlog.acked_ack[of u "alog a"] by (simp add: on_ack_def ob prod_eq_iff)
qed (simp add: on_ack_def)

lemma on_ack_inv: "agent_inv a \<Longrightarrow> u < next_seq a \<Longrightarrow> agent_inv (on_ack u a)"
  using wlog.mirrors_ack by (simp add: agent_inv_mirrors on_ack_def)

lemma config_keeps [simp]:
  "alog (on_config cfg a) = alog a" "outbox (on_config cfg a) = outbox a" "next_seq (on_config cfg a) = next_seq a"
  "alog (apply_config_video a) = alog a" "outbox (apply_config_video a) = outbox a" "next_seq (apply_config_video a) = next_seq a"
  "alog (apply_config_fake a) = alog a" "outbox (apply_config_fake a) = outbox a" "next_seq (apply_config_fake a) = next_seq a"
  by (simp_all add: on_config_def apply_config_video_def apply_config_fake_def Let_def)

lemma config_inv [simp]:
  "agent_inv (on_config cfg a) = agent_inv a" "agent_inv (apply_config_video a) = agent_inv a"
  "agent_inv (apply_config_fake a) = agent_inv a" "agent_inv (a\<lparr>alog := spec_op OpCompact (alog a)\<rparr>) = agent_inv a"
  by (simp_all add: agent_inv_def) (cases "alog a"; simp)

text \<open>
  What the process does over its life: it commits events, handles what the gateway sends (the
  gateway acknowledges only what was sent), applies configurations, compacts the log, and restarts from the
  log after a crash.  Fewer than \<open>2 ^ 64 - 1\<close> events are committed.
\<close>

inductive agent_run :: "(DetectionEvent \<Rightarrow> byte list) \<Rightarrow> agent \<Rightarrow> bool" for ser where
  run_start: "agent_run ser (agent_start opt (0, []))"
| run_emit: "agent_run ser a \<Longrightarrow> next_seq a + 1 \<noteq> 0 \<Longrightarrow> agent_run ser (emit ser d a)"
| run_ack: "agent_run ser a \<Longrightarrow> u < next_seq a \<Longrightarrow> agent_run ser (on_gateway_message (MAck u) a)"
| run_config: "agent_run ser a \<Longrightarrow> agent_run ser (on_gateway_message (MConfig cfg) a)"
| run_video: "agent_run ser a \<Longrightarrow> agent_run ser (apply_config_video a)"
| run_fake: "agent_run ser a \<Longrightarrow> agent_run ser (apply_config_fake a)"
| run_compact: "agent_run ser a \<Longrightarrow> agent_run ser (a\<lparr>alog := spec_op OpCompact (alog a)\<rparr>)"
| run_restart: "agent_run ser a \<Longrightarrow> agent_run ser (agent_start opt (alog a))"

lemma agent_run_inv: "agent_run ser a \<Longrightarrow> agent_inv a"
proof (induction rule: agent_run.induct)
  case (run_start opt)
  show ?case by (rule agent_start_inv[of _ _ 1]) (simp_all add: seq_range_def)
qed (simp_all add: emit_inv on_ack_inv agent_restart(1))

text \<open>
  C8: at every moment of the agent's life the outbox holds exactly the unacknowledged records of the
  log, their sequence numbers are the consecutive ones between the checkpoint and the next number, and
  a restart from the log finds the same outbox, the same checkpoint and the same next number.
\<close>

theorem agent_outbox_is_log:
  assumes "agent_run ser a"
  shows "outbox a = snd (alog a) \<and> map fst (outbox a) = seq_range (fst (alog a)) (next_seq a) \<and>
    outbox (agent_start opt (alog a)) = outbox a \<and> next_seq (agent_start opt (alog a)) = next_seq a"
  using agent_run_inv[OF assms] agent_restart[OF agent_run_inv[OF assms], of opt] by (simp add: agent_inv_def)

definition demo_options :: Options where
  "demo_options = default_options ''yolov8n.onnx''"

theorem agent_outbox_is_log_witness:
  "\<exists>a. agent_run (\<lambda>d. []) a \<and> outbox a = [(2, [])] \<and> outbox a = snd (alog a) \<and>
     map fst (outbox a) = seq_range (fst (alog a)) (next_seq a) \<and>
     outbox (agent_start demo_options (alog a)) = outbox a \<and> next_seq (agent_start demo_options (alog a)) = next_seq a"
proof (rule exI, rule conjI)
  let ?start = "agent_start demo_options (0, [])"
  let ?a = "on_gateway_message (MAck 1) (emit (\<lambda>d. []) (fake_event 0 (Fin 0)) (emit (\<lambda>d. []) (fake_event 0 (Fin 0)) ?start))"
  have n: "next_seq ?start = 1" by (simp add: agent_start_def)
  have n2: "next_seq (emit ser d a) = next_seq a + 1" for ser d a by (simp add: emit_def Let_def)
  show run: "agent_run (\<lambda>d. []) ?a"
    by (intro run_ack run_emit run_start) (simp_all add: n n2)
  have "outbox ?a = [(2, [])]"
    by (simp add: agent_start_def emit_def on_ack_def Let_def Outbox_Push_def word_le_nat_alt)
  then show "outbox ?a = [(2, [])] \<and> outbox ?a = snd (alog ?a) \<and> map fst (outbox ?a) = seq_range (fst (alog ?a)) (next_seq ?a) \<and>
     outbox (agent_start demo_options (alog ?a)) = outbox ?a \<and> next_seq (agent_start demo_options (alog ?a)) = next_seq ?a"
    using agent_outbox_is_log[OF run] by blast
qed

end
