(* ===== verification/Redis.thy ===== *)
theory Redis
  imports Cstd "HOL-Library.Signed_Division" "HOL-Library.AList"
begin

text \<open>
  The hot-state cache of redis/src/redis_hot_state_store.cc.  hiredis is a parameter: opening a
  connection, setting its timeout, and sending a command (given as its list of arguments, the
  way \<open>redisCommand\<close> splits the format), which answers a reply or a null pointer.
\<close>

section \<open>Operations\<close>

record DeviceHotState =
  last_seen_unix_ns :: int
  queue_depth :: u32
  hot_frames_dropped :: u64

record RedisConfig =
  host :: string
  port :: int
  connect_timeout_ms :: int
  command_timeout_ms :: int

datatype reply = RError | RArray "string option list" | ROther

record 'c hiredis =
  redisConnectWithTimeout :: "string \<Rightarrow> int \<Rightarrow> int \<times> int \<Rightarrow> 'c option"
  redisSetTimeout :: "int \<times> int \<Rightarrow> 'c \<Rightarrow> 'c"
  redisCommand :: "string list \<Rightarrow> 'c \<Rightarrow> reply option \<times> 'c"

definition timeval :: "int \<Rightarrow> int \<times> int" where
  "timeval ms = (ms sdiv 1000, (ms smod 1000) * 1000)"

text \<open>The constructor of a connection; \<open>None\<close> is an exception.\<close>

definition Connection :: "'c hiredis \<Rightarrow> RedisConfig \<Rightarrow> 'c option" where
  "Connection H cfg =
     (case redisConnectWithTimeout H (c_str (host cfg)) (port cfg) (timeval (connect_timeout_ms cfg)) of
        None \<Rightarrow> None
      | Some c \<Rightarrow> Some (redisSetTimeout H (timeval (command_timeout_ms cfg)) c))"

definition hot_key :: "string \<Rightarrow> string" where
  "hot_key device_id = c_str (''device:'' @ device_id)"

definition hset_args :: "string \<Rightarrow> DeviceHotState \<Rightarrow> string list" where
  "hset_args device_id st =
     [''HSET'', hot_key device_id, ''last_seen_unix_ns'', show_int (last_seen_unix_ns st),
      ''queue_depth'', show_nat (unat (queue_depth st)), ''frames_dropped'', show_nat (unat (hot_frames_dropped st))]"

definition hot_Update :: "'c hiredis \<Rightarrow> string \<Rightarrow> DeviceHotState \<Rightarrow> 'c \<Rightarrow> bool \<times> 'c" where
  "hot_Update H device_id st conn =
     (case redisCommand H (hset_args device_id st) conn of
        (None, conn') \<Rightarrow> (False, conn')
      | (Some RError, conn') \<Rightarrow> (False, conn')
      | (Some _, conn') \<Rightarrow> (True, conn'))"

text \<open>One field of the reply; a value that does not parse leaves the field as it is.\<close>

definition set_field :: "string \<Rightarrow> string \<Rightarrow> DeviceHotState \<Rightarrow> DeviceHotState" where
  "set_field field val st =
     (if field = ''last_seen_unix_ns'' then (case stoll val of None \<Rightarrow> st | Some v \<Rightarrow> st\<lparr>last_seen_unix_ns := v\<rparr>)
      else if field = ''queue_depth'' then (case stoull val of None \<Rightarrow> st | Some v \<Rightarrow> st\<lparr>queue_depth := ucast v\<rparr>)
      else if field = ''frames_dropped'' then (case stoull val of None \<Rightarrow> st | Some v \<Rightarrow> st\<lparr>hot_frames_dropped := v\<rparr>)
      else st)"

fun element_str :: "string option \<Rightarrow> string" where
  "element_str None = ''''"
| "element_str (Some s) = c_str s"

fun read_fields :: "string option list \<Rightarrow> DeviceHotState \<Rightarrow> DeviceHotState" where
  "read_fields (f # v # rest) st = read_fields rest (set_field (element_str f) (element_str v) st)"
| "read_fields _ st = st"

definition default_hot :: DeviceHotState where
  "default_hot = \<lparr>last_seen_unix_ns = 0, queue_depth = 0, hot_frames_dropped = 0\<rparr>"

definition hot_Get :: "'c hiredis \<Rightarrow> string \<Rightarrow> 'c \<Rightarrow> DeviceHotState option \<times> 'c" where
  "hot_Get H device_id conn =
     (case redisCommand H [''HGETALL'', hot_key device_id] conn of
        (Some (RArray es), conn') \<Rightarrow> (if es = [] then None else Some (read_fields es default_hot), conn')
      | (_, conn') \<Rightarrow> (None, conn'))"

definition Reconnect :: "'c hiredis \<Rightarrow> RedisConfig \<Rightarrow> 'c \<Rightarrow> bool \<times> 'c" where
  "Reconnect H cfg conn = (case Connection H cfg of None \<Rightarrow> (False, conn) | Some c \<Rightarrow> (True, c))"

section \<open>Reading back\<close>

text \<open>A hash as the server lists it: field, value, field, value.\<close>

definition flat_pairs :: "(string \<times> string) list \<Rightarrow> string option list" where
  "flat_pairs kvs = concat (map (\<lambda>(k, v). [Some k, Some v]) kvs)"

lemma flat_pairs_simps [simp]:
  "flat_pairs [] = []" "flat_pairs ((k, v) # kvs) = Some k # Some v # flat_pairs kvs"
  by (simp_all add: flat_pairs_def)

definition known :: "string list" where
  "known = [''last_seen_unix_ns'', ''queue_depth'', ''frames_dropped'']"

lemma set_field_sel:
  "last_seen_unix_ns (set_field k v st) =
    (if k = ''last_seen_unix_ns'' then (case stoll v of None \<Rightarrow> last_seen_unix_ns st | Some i \<Rightarrow> i) else last_seen_unix_ns st)"
  "queue_depth (set_field k v st) =
    (if k = ''queue_depth'' then (case stoull v of None \<Rightarrow> queue_depth st | Some i \<Rightarrow> ucast i) else queue_depth st)"
  "hot_frames_dropped (set_field k v st) =
    (if k = ''frames_dropped'' then (case stoull v of None \<Rightarrow> hot_frames_dropped st | Some i \<Rightarrow> i) else hot_frames_dropped st)"
  by (simp_all add: set_field_def split: option.split)

text \<open>Every field of the result is what the hash holds under its name, wherever it is listed.\<close>

lemma read_fields_lookup:
  assumes "distinct (map fst kvs)" "\<forall>k \<in> fst ` set kvs. c_str k = k"
  shows "last_seen_unix_ns (read_fields (flat_pairs kvs) st) =
      (case map_of kvs ''last_seen_unix_ns'' of None \<Rightarrow> last_seen_unix_ns st
       | Some v \<Rightarrow> (case stoll (c_str v) of None \<Rightarrow> last_seen_unix_ns st | Some i \<Rightarrow> i))" (is ?A)
    and "queue_depth (read_fields (flat_pairs kvs) st) =
      (case map_of kvs ''queue_depth'' of None \<Rightarrow> queue_depth st
       | Some v \<Rightarrow> (case stoull (c_str v) of None \<Rightarrow> queue_depth st | Some i \<Rightarrow> ucast i))" (is ?B)
    and "hot_frames_dropped (read_fields (flat_pairs kvs) st) =
      (case map_of kvs ''frames_dropped'' of None \<Rightarrow> hot_frames_dropped st
       | Some v \<Rightarrow> (case stoull (c_str v) of None \<Rightarrow> hot_frames_dropped st | Some i \<Rightarrow> i))" (is ?C)
proof -
  have "?A \<and> ?B \<and> ?C" using assms
  proof (induction kvs arbitrary: st)
    case (Cons kv kvs)
    obtain k v where kv: "kv = (k, v)" by fastforce
    have no: "map_of kvs k = None" using Cons.prems(1) kv by (simp add: map_of_eq_None_iff)
    have ck: "c_str k = k" using Cons.prems(2) kv by simp
    have "distinct (map fst kvs)" "\<forall>k \<in> fst ` set kvs. c_str k = k" using Cons.prems by simp_all
    note IH = Cons.IH[OF this, of "set_field k (c_str v) st"]
    have step: "read_fields (flat_pairs (kv # kvs)) st = read_fields (flat_pairs kvs) (set_field k (c_str v) st)"
      by (simp add: kv ck)
    have pick: "(case map_of (kv # kvs) f of None \<Rightarrow> a | Some w \<Rightarrow> g w) = (if f = k then g v else case map_of kvs f of None \<Rightarrow> a | Some w \<Rightarrow> g w)"
      for f and a :: 'x and g by (simp add: kv)
    show ?case
      unfolding step pick using IH no by (simp only: set_field_sel) (cases "k \<in> set known"; auto simp: known_def)
  qed simp
  then show ?A ?B ?C by blast+
qed

lemma c_str_id: "CHR 0x00 \<notin> set s \<Longrightarrow> c_str s = s"
  unfolding c_str_def by (simp add: takeWhile_eq_all_conv) metis

lemma show_nat_no_null: "CHR 0x00 \<notin> set (show_nat n)"
  using show_nat_digits[of "CHR 0x00" n] by (auto simp: is_digit_def)

lemma c_str_show [simp]: "c_str (show_nat n) = show_nat n" "c_str (show_int i) = show_int i"
  using show_nat_no_null by (auto intro!: c_str_id simp: show_int_def)

section \<open>Properties\<close>

text \<open>
  C39: with a server that keeps hashes (a successful HSET sets exactly the given fields of the
  hash, HGETALL lists its fields in any order), reading a device's state right after a
  successful update returns exactly the state written, whatever was stored before and however
  the hash is listed.
\<close>
theorem hot_state_roundtrip:
  fixes hash :: "'c \<Rightarrow> string \<Rightarrow> (string \<times> string) list"
  assumes hset: "\<And>k f1 v1 f2 v2 f3 v3 c r c'.
      redisCommand H [''HSET'', k, f1, v1, f2, v2, f3, v3] c = (Some r, c') \<Longrightarrow> r \<noteq> RError \<Longrightarrow>
      map_of (hash c' k) = (map_of (hash c k))(f1 \<mapsto> v1, f2 \<mapsto> v2, f3 \<mapsto> v3)"
    and hgetall: "\<And>k c. fst (redisCommand H [''HGETALL'', k] c) = Some (RArray (flat_pairs (hash c k)))"
    and fields: "\<And>k c. distinct (map fst (hash c k))" "\<And>k c f. f \<in> fst ` set (hash c k) \<Longrightarrow> CHR 0x00 \<notin> set f"
    and time: "- (2 ^ 63) \<le> last_seen_unix_ns st" "last_seen_unix_ns st < 2 ^ 63"
    and upd: "hot_Update H dev st conn = (True, conn')"
  shows "fst (hot_Get H dev conn') = Some st"
proof -
  obtain r where r: "redisCommand H (hset_args dev st) conn = (Some r, conn')" "r \<noteq> RError"
    using upd by (auto simp: hot_Update_def split: prod.splits option.splits reply.splits)
  let ?h = "hash conn' (hot_key dev)"
  have m: "map_of ?h = (map_of (hash conn (hot_key dev)))(''last_seen_unix_ns'' \<mapsto> show_int (last_seen_unix_ns st),
      ''queue_depth'' \<mapsto> show_nat (unat (queue_depth st)), ''frames_dropped'' \<mapsto> show_nat (unat (hot_frames_dropped st)))"
    by (rule hset[OF _ r(2)]) (use r(1) in \<open>simp add: hset_args_def\<close>)
  have d: "distinct (map fst ?h)" "\<forall>k \<in> fst ` set ?h. c_str k = k" using fields c_str_id by blast+
  have "map_of ?h ''queue_depth'' \<noteq> None" by (simp add: m)
  then have ne: "flat_pairs ?h \<noteq> []" by (cases ?h) auto
  have u: "unat (queue_depth st) < 2 ^ 64" "unat (hot_frames_dropped st) < 2 ^ 64"
    using order.strict_trans2[OF unat_u32_less[of "queue_depth st"], of "2 ^ 64"] unat_u64_less by simp_all
  have "read_fields (flat_pairs ?h) default_hot = st"
  proof (rule DeviceHotState.equality)
    show "last_seen_unix_ns (read_fields (flat_pairs ?h) default_hot) = last_seen_unix_ns st"
      using read_fields_lookup(1)[OF d] time by (simp add: m stoll_show)
    show "queue_depth (read_fields (flat_pairs ?h) default_hot) = queue_depth st"
      using read_fields_lookup(2)[OF d] by (simp add: m stoull_show[OF u(1)] u32_through_u64)
    show "hot_frames_dropped (read_fields (flat_pairs ?h) default_hot) = hot_frames_dropped st"
      using read_fields_lookup(3)[OF d] by (simp add: m stoull_show[OF u(2)])
  qed simp
  then show ?thesis using hgetall[of "hot_key dev" conn'] ne by (auto simp: hot_Get_def split: prod.splits)
qed

text \<open>A server with one hash, listed newest field first.\<close>

definition cam_hash :: "(string \<times> string) list \<Rightarrow> string \<Rightarrow> (string \<times> string) list" where
  "cam_hash c k = (if k = ''device:cam'' then AList.clearjunk (filter (\<lambda>(f, v). CHR 0x00 \<notin> set f) c) else [])"

definition one_hash :: "(string \<times> string) list hiredis" where
  "one_hash = \<lparr>redisConnectWithTimeout = (\<lambda>_ _ _. Some []), redisSetTimeout = (\<lambda>_ c. c),
     redisCommand = (\<lambda>args c. case args of
        [cmd, k, f1, v1, f2, v2, f3, v3] \<Rightarrow>
          if cmd = ''HSET'' \<and> CHR 0x00 \<notin> set (f1 @ f2 @ f3) \<and> k = ''device:cam''
          then (Some ROther, (f3, v3) # (f2, v2) # (f1, v1) # c) else (Some RError, c)
      | [cmd, k] \<Rightarrow> (Some (RArray (flat_pairs (cam_hash c k))), c)
      | _ \<Rightarrow> (Some RError, c))\<rparr>"

theorem hot_state_roundtrip_witness:
  "fst (hot_Get one_hash ''cam'' (snd (hot_Update one_hash ''cam''
     \<lparr>last_seen_unix_ns = 5, queue_depth = 2, hot_frames_dropped = 9\<rparr> [(''queue_depth'', ''77'')]))) =
   Some \<lparr>last_seen_unix_ns = 5, queue_depth = 2, hot_frames_dropped = 9\<rparr>"
proof (rule hot_state_roundtrip[where hash = cam_hash])
  show "hot_Update one_hash ''cam'' \<lparr>last_seen_unix_ns = 5, queue_depth = 2, hot_frames_dropped = 9\<rparr> [(''queue_depth'', ''77'')] =
      (True, snd (hot_Update one_hash ''cam'' \<lparr>last_seen_unix_ns = 5, queue_depth = 2, hot_frames_dropped = 9\<rparr> [(''queue_depth'', ''77'')]))"
    by (simp add: hot_Update_def hset_args_def one_hash_def hot_key_def c_str_def)
  show "map_of (cam_hash c' k) = (map_of (cam_hash c k))(f1 \<mapsto> v1, f2 \<mapsto> v2, f3 \<mapsto> v3)"
    if "redisCommand one_hash [''HSET'', k, f1, v1, f2, v2, f3, v3] c = (Some r, c')" "r \<noteq> RError" for k f1 v1 f2 v2 f3 v3 c r c'
    using that by (auto simp: one_hash_def cam_hash_def map_of_clearjunk fun_eq_iff split: if_splits)
  show "fst (redisCommand one_hash [''HGETALL'', k] c) = Some (RArray (flat_pairs (cam_hash c k)))" for k c
    by (simp add: one_hash_def)
  show "distinct (map fst (cam_hash c k))" for k c by (simp add: cam_hash_def distinct_clearjunk)
  show "CHR 0x00 \<notin> set f" if "f \<in> fst ` set (cam_hash c k)" for k c f
  proof (cases "k = ''device:cam''")
    case True
    then have "f \<in> fst ` set (filter (\<lambda>(f, v). CHR 0x00 \<notin> set f) c)" using that by (simp only: cam_hash_def refl if_True dom_clearjunk)
    then show ?thesis by auto
  qed (use that in \<open>simp add: cam_hash_def\<close>)
qed simp_all

end
