(* ===== verification/Gateway.thy ===== *)
theory Gateway
  imports Protocol TokenBucket Weather Shadow Redis
begin

text \<open>
  The ingest gateway, gateway/src/main.cc.  The handler of a stream threads the state of its
  connection, the rate limiters that all connections share, and a world, which stands for
  everything the gateway calls: the clock, the stream, and the optional Kafka, Redis and
  DynamoDB integrations.  The integrations are the operations of the components that
  implement them; a null pointer is \<open>None\<close>.  \<open>trace\<close> records what the handler did.
\<close>

section \<open>State\<close>

datatype StatusCode = OK | INVALID_ARGUMENT | PERMISSION_DENIED | FAILED_PRECONDITION | UNAVAILABLE

record 'w GatewayIntegrations =
  kafka :: "(string \<Rightarrow> string \<Rightarrow> 'w \<Rightarrow> bool \<times> 'w) option"
  redis :: "(string \<Rightarrow> DeviceHotState \<Rightarrow> 'w \<Rightarrow> bool \<times> 'w) option"
  shadow_store :: "(string \<Rightarrow> string \<Rightarrow> 'w \<Rightarrow> put_outcome \<times> 'w) option"
  desired_configs_path :: string
  weather_cache :: "('w \<Rightarrow> WeatherConditions option) option"
  rate_limit_capacity :: fp
  rate_limit_tokens_per_second :: fp

text \<open>
  What the process runs on: the clock, writing to the stream, reading a file, the common
  names of the peer's certificate, and the serializers of protobuf and JSON.
\<close>

record 'w platform =
  NowUnixNs :: "'w \<Rightarrow> int \<times> 'w"
  stream_Write :: "GatewayMessage \<Rightarrow> 'w \<Rightarrow> bool \<times> 'w"
  open_file :: "string \<Rightarrow> 'w \<Rightarrow> string option"
  cn_values :: "string list"
  SerializeAsString :: "DetectionEvent \<Rightarrow> string"
  dump_reported :: "u32 \<Rightarrow> u64 \<Rightarrow> int \<Rightarrow> string"

datatype gw_event =
  Resumed u64
| Dup u64
| Limited u64
| Published u64
| Unpublished u64
| Accepted u64
| Alerted AlertSeverity
| Acked u64
| ConfigPushed u64

record connection =
  device_id :: string
  tenant_id :: string
  last_seq :: u64
  received :: u64
  duplicates :: u64
  gap_events :: u64
  rate_limited :: u64
  durable_resume :: bool
  awaiting_resync :: bool
  kafka_published :: u64
  kafka_failed :: u64
  max_transit_ns :: int
  trace :: "gw_event list"

definition new_connection :: connection where
  "new_connection = \<lparr>device_id = [], tenant_id = [], last_seq = 0, received = 0, duplicates = 0, gap_events = 0,
     rate_limited = 0, durable_resume = True, awaiting_resync = False, kafka_published = 0, kafka_failed = 0,
     max_transit_ns = 0, trace = []\<rparr>"

record 'w gw =
  conn :: connection
  rate_limiters :: "string \<rightharpoonup> token_bucket"
  world :: 'w

definition upd :: "(connection \<Rightarrow> connection) \<Rightarrow> 'w gw \<Rightarrow> 'w gw" where
  "upd f s = s\<lparr>conn := f (conn s)\<rparr>"

definition log_event :: "gw_event \<Rightarrow> connection \<Rightarrow> connection" where
  "log_event e c = c\<lparr>trace := trace c @ [e]\<rparr>"

text \<open>
  How handling one message goes on: the loop continues, the call returns a status, an exception
  leaves the handler, or the behaviour is undefined (overflow of a signed difference).
\<close>

datatype 'w rpc =
  Continue "'w gw"
| Return StatusCode "'w gw"
| Threw "'w gw"
| Undefined

section \<open>Desired configurations\<close>

definition strtoul32 :: "string \<Rightarrow> u32" where
  "strtoul32 s = ucast (strtoull s)"

fun line_fields :: "nat \<Rightarrow> istream \<Rightarrow> string list option" where
  "line_fields 0 s = Some []"
| "line_fields (Suc n) s =
     (case getline (CHR '','') s of
        None \<Rightarrow> None
      | Some (f, s') \<Rightarrow> (case line_fields n s' of None \<Rightarrow> None | Some fs \<Rightarrow> Some (f # fs)))"

fun config_line :: "string \<Rightarrow> (string \<times> ConfigUpdate) option" where
  "config_line line =
     (if line = [] \<or> hd line = CHR ''#'' then None
      else case line_fields 6 (Some line) of
             Some [dev, version_s, k_s, n_s, conf_s, fps_s] \<Rightarrow>
               Some (dev, \<lparr>cfg_version = strtoull version_s, confidence_threshold = to_float (atof conf_s),
                           confirm_k = strtoul32 k_s, confirm_n = strtoul32 n_s, target_fps = strtoul32 fps_s\<rparr>)
           | _ \<Rightarrow> None)"

definition LoadDesiredConfigs :: "string option \<Rightarrow> string \<rightharpoonup> ConfigUpdate" where
  "LoadDesiredConfigs file_text =
     (case file_text of
        None \<Rightarrow> Map.empty
      | Some text \<Rightarrow> foldl (\<lambda>m line. case config_line line of None \<Rightarrow> m | Some (dev, cfg) \<Rightarrow> m(dev \<mapsto> cfg))
                      Map.empty (file_lines (Some text)))"

section \<open>Rate limiting\<close>

text \<open>The bucket of a key, made on first use.\<close>

definition find_bucket :: "'w platform \<Rightarrow> 'w GatewayIntegrations \<Rightarrow> string \<Rightarrow> 'w gw \<Rightarrow> token_bucket \<times> 'w" where
  "find_bucket E I key s =
     (case rate_limiters s key of
        Some b \<Rightarrow> (b, world s)
      | None \<Rightarrow> (case NowUnixNs E (world s) of
          (t, w) \<Rightarrow> (TokenBucket (rate_limit_capacity I) (rate_limit_tokens_per_second I) t, w)))"

text \<open>\<open>None\<close> is an overflow inside the bucket.\<close>

definition CheckRateLimit :: "'w platform \<Rightarrow> 'w GatewayIntegrations \<Rightarrow> string \<Rightarrow> 'w gw \<Rightarrow> (bool \<times> 'w gw) option" where
  "CheckRateLimit E I key s =
     (if fp_le (rate_limit_capacity I) (Fin 0) then Some (True, s)
      else
        let (b, w1) = find_bucket E I key s;
            (t2, w2) = NowUnixNs E w1
        in case TryConsume (Fin 1) t2 b of
             None \<Rightarrow> None
           | Some (ok, b') \<Rightarrow> Some (ok, s\<lparr>rate_limiters := (rate_limiters s)(key \<mapsto> b'), world := w2\<rparr>))"

definition rate_key :: "connection \<Rightarrow> string" where
  "rate_key c = (if tenant_id c = [] then ''device:'' @ device_id c else ''tenant:'' @ tenant_id c)"

section \<open>Message handlers\<close>

definition expected_cn :: "Hello \<Rightarrow> string" where
  "expected_cn h = (if hello_tenant_id h = [] then hello_device_id h else hello_tenant_id h @ '':'' @ hello_device_id h)"

definition on_hello :: "'w platform \<Rightarrow> Hello \<Rightarrow> 'w gw \<Rightarrow> 'w rpc" where
  "on_hello E h s =
     (if hello_device_id h = [] then Return INVALID_ARGUMENT s
      else if (case cn_values E of [] \<Rightarrow> False | cert_cn # _ \<Rightarrow> cert_cn \<noteq> expected_cn h) then Return PERMISSION_DENIED s
      else Continue (upd (\<lambda>c. log_event (Resumed (hello_last_acked_seq h))
             (c\<lparr>device_id := hello_device_id h, tenant_id := hello_tenant_id h, last_seq := hello_last_acked_seq h,
                durable_resume := hello_durable_resume h, awaiting_resync := \<not> hello_durable_resume h\<rparr>)) s))"

text \<open>Publishing to Kafka, when it is configured; the flag says whether to go on.\<close>

definition publish :: "'w platform \<Rightarrow> 'w GatewayIntegrations \<Rightarrow> DetectionEvent \<Rightarrow> 'w gw \<Rightarrow> bool \<times> 'w gw" where
  "publish E I d s =
     (case kafka I of
        None \<Rightarrow> (True, s)
      | Some PublishSync \<Rightarrow>
          (case PublishSync (device_id (conn s)) (SerializeAsString E d) (world s) of
             (ok, w) \<Rightarrow>
               (ok, upd (\<lambda>c. if ok then log_event (Published (seq d)) (c\<lparr>kafka_published := kafka_published c + 1\<rparr>)
                            else log_event (Unpublished (seq d)) (c\<lparr>kafka_failed := kafka_failed c + 1\<rparr>))
                       (s\<lparr>world := w\<rparr>))))"

definition advance :: "u64 \<Rightarrow> connection \<Rightarrow> connection" where
  "advance n c =
     (let c1 = (if awaiting_resync c then c\<lparr>awaiting_resync := False\<rparr>
                else if n \<noteq> last_seq c + 1 then c\<lparr>gap_events := gap_events c + (n - last_seq c - 1)\<rparr> else c)
      in log_event (Accepted n) (c1\<lparr>last_seq := n, received := received c1 + 1\<rparr>))"

definition alert :: "'w GatewayIntegrations \<Rightarrow> DetectionEvent \<Rightarrow> 'w gw \<Rightarrow> 'w gw" where
  "alert I d s =
     (case weather_cache I of
        None \<Rightarrow> s
      | Some Current \<Rightarrow>
          (let severity = ComputeAlertSeverity (det_confidence d) (Current (world s)) default_thresholds
           in if severity \<noteq> kNone then upd (log_event (Alerted severity)) s else s))"

text \<open>A new event: count it, measure its transit time, raise the alert.\<close>

definition accept :: "'w platform \<Rightarrow> 'w GatewayIntegrations \<Rightarrow> DetectionEvent \<Rightarrow> 'w gw \<Rightarrow> 'w gw option" where
  "accept E I d s =
     (let s1 = upd (advance (seq d)) s;
          (now, w) = NowUnixNs E (world s1);
          transit = now - emit_time_unix_ns d
      in if transit < - (2 ^ 63) \<or> 2 ^ 63 \<le> transit then None
         else Some (alert I d (upd (\<lambda>c. c\<lparr>max_transit_ns := max (max_transit_ns c) transit\<rparr>) (s1\<lparr>world := w\<rparr>))))"

definition write_ack :: "'w platform \<Rightarrow> 'w gw \<Rightarrow> 'w rpc" where
  "write_ack E s =
     (case stream_Write E (MAck (last_seq (conn s))) (world s) of
        (ok, w) \<Rightarrow> if ok then Continue (upd (log_event (Acked (last_seq (conn s)))) (s\<lparr>world := w\<rparr>))
                  else Return UNAVAILABLE (s\<lparr>world := w\<rparr>))"

definition on_detection :: "'w platform \<Rightarrow> 'w GatewayIntegrations \<Rightarrow> DetectionEvent \<Rightarrow> 'w gw \<Rightarrow> 'w rpc" where
  "on_detection E I d s =
     (if device_id (conn s) = [] then Return FAILED_PRECONDITION s
      else if seq d \<le> last_seq (conn s)
      then write_ack E (upd (\<lambda>c. log_event (Dup (seq d)) (c\<lparr>duplicates := duplicates c + 1\<rparr>)) s)
      else case CheckRateLimit E I (rate_key (conn s)) s of
             None \<Rightarrow> Undefined
           | Some (admitted, s1) \<Rightarrow>
               if \<not> admitted
               then Continue (upd (\<lambda>c. log_event (Limited (seq d)) (c\<lparr>rate_limited := rate_limited c + 1\<rparr>)) s1)
               else (case publish E I d s1 of
                       (ok, s2) \<Rightarrow>
                         if \<not> ok then Continue s2
                         else (case accept E I d s2 of None \<Rightarrow> Undefined | Some s3 \<Rightarrow> write_ack E s3)))"

text \<open>The heartbeat: best-effort hot state, the device shadow, and the desired configuration.\<close>

definition update_hot :: "'w platform \<Rightarrow> 'w GatewayIntegrations \<Rightarrow> Heartbeat \<Rightarrow> 'w gw \<Rightarrow> 'w gw" where
  "update_hot E I hb s =
     (case redis I of
        None \<Rightarrow> s
      | Some up \<Rightarrow>
          (case NowUnixNs E (world s) of
             (now, w) \<Rightarrow>
               s\<lparr>world := snd (up (device_id (conn s)) \<lparr>last_seen_unix_ns = now, queue_depth = hb_queue_depth hb,
                                                   hot_frames_dropped = hb_frames_dropped hb\<rparr> w)\<rparr>))"

definition update_shadow :: "'w platform \<Rightarrow> 'w GatewayIntegrations \<Rightarrow> Heartbeat \<Rightarrow> 'w gw \<Rightarrow> 'w rpc" where
  "update_shadow E I hb s =
     (case shadow_store I of
        None \<Rightarrow> Continue s
      | Some upsert \<Rightarrow>
          (case NowUnixNs E (world s) of
             (now, w) \<Rightarrow>
               (case upsert (device_id (conn s)) (dump_reported E (hb_queue_depth hb) (hb_frames_dropped hb) now) w of
                  (PutReturns _, w') \<Rightarrow> Continue (s\<lparr>world := w'\<rparr>)
                | (PutThrows, w') \<Rightarrow> Threw (s\<lparr>world := w'\<rparr>)
                | (PutUndefined, _) \<Rightarrow> Undefined)))"

definition push_config :: "'w platform \<Rightarrow> 'w GatewayIntegrations \<Rightarrow> Heartbeat \<Rightarrow> 'w gw \<Rightarrow> 'w rpc" where
  "push_config E I hb s =
     (if desired_configs_path I = [] then Continue s
      else case LoadDesiredConfigs (open_file E (desired_configs_path I) (world s)) (device_id (conn s)) of
             None \<Rightarrow> Continue s
           | Some cfg \<Rightarrow>
               if cfg_version cfg > applied_config_version hb
               then (case stream_Write E (MConfig cfg) (world s) of
                       (ok, w) \<Rightarrow> if ok then Continue (upd (log_event (ConfigPushed (cfg_version cfg))) (s\<lparr>world := w\<rparr>))
                                 else Return UNAVAILABLE (s\<lparr>world := w\<rparr>))
               else Continue s)"

definition on_heartbeat :: "'w platform \<Rightarrow> 'w GatewayIntegrations \<Rightarrow> Heartbeat \<Rightarrow> 'w gw \<Rightarrow> 'w rpc" where
  "on_heartbeat E I hb s =
     (if device_id (conn s) = [] then Return FAILED_PRECONDITION s
      else case update_shadow E I hb (update_hot E I hb s) of
             Continue s1 \<Rightarrow> push_config E I hb s1
           | r \<Rightarrow> r)"

fun handle :: "'w platform \<Rightarrow> 'w GatewayIntegrations \<Rightarrow> AgentMessage \<Rightarrow> 'w gw \<Rightarrow> 'w rpc" where
  "handle E I (MHello h) s = on_hello E h s"
| "handle E I (MDetection d) s = on_detection E I d s"
| "handle E I (MHeartbeat hb) s = on_heartbeat E I hb s"
| "handle E I PAYLOAD_NOT_SET s = Return INVALID_ARGUMENT s"

text \<open>
  \<open>Connect\<close>: the messages the stream delivers until it closes.  The closing log line reports
  \<open>attributed_lost\<close>.
\<close>

fun Connect :: "'w platform \<Rightarrow> 'w GatewayIntegrations \<Rightarrow> AgentMessage list \<Rightarrow> 'w gw \<Rightarrow> 'w rpc" where
  "Connect E I [] s = Return OK s"
| "Connect E I (m # ms) s = (case handle E I m s of Continue s' \<Rightarrow> Connect E I ms s' | r \<Rightarrow> r)"

definition logged_identity :: "connection \<Rightarrow> string" where
  "logged_identity c =
     (if device_id c = [] then ''<no hello>''
      else if tenant_id c = [] then device_id c else tenant_id c @ '':'' @ device_id c)"

definition attributed_lost :: "connection \<Rightarrow> u64" where
  "attributed_lost c = (if gap_events c > rate_limited c then gap_events c - rate_limited c else 0)"

section \<open>All connections together\<close>

datatype stream = Open connection | Closed connection

fun stream_conn :: "stream \<Rightarrow> connection" where
  "stream_conn (Open c) = c"
| "stream_conn (Closed c) = c"

record 'w gateway =
  streams :: "nat \<rightharpoonup> stream"
  limiters :: "string \<rightharpoonup> token_bucket"
  gworld :: 'w

definition after :: "nat \<Rightarrow> stream \<Rightarrow> 'w gw \<Rightarrow> 'w gateway \<Rightarrow> 'w gateway" where
  "after i st s g = g\<lparr>streams := (streams g)(i \<mapsto> st), limiters := rate_limiters s, gworld := world s\<rparr>"

text \<open>
  The synchronous server runs one handler thread per stream.  Between two messages of a stream
  any other stream may be served and the world may change; \<open>platform\<close> differs per stream in the
  peer's certificate.
\<close>

inductive gateway_step :: "(nat \<Rightarrow> 'w platform) \<Rightarrow> 'w GatewayIntegrations \<Rightarrow> 'w gateway \<Rightarrow> 'w gateway \<Rightarrow> bool"
  for E I where
  gw_connect: "streams g i = None \<Longrightarrow> gateway_step E I g (g\<lparr>streams := (streams g)(i \<mapsto> Open new_connection)\<rparr>)"
| gw_continue: "streams g i = Some (Open c) \<Longrightarrow>
    handle (E i) I m \<lparr>conn = c, rate_limiters = limiters g, world = gworld g\<rparr> = Continue s \<Longrightarrow>
    gateway_step E I g (after i (Open (conn s)) s g)"
| gw_return: "streams g i = Some (Open c) \<Longrightarrow>
    handle (E i) I m \<lparr>conn = c, rate_limiters = limiters g, world = gworld g\<rparr> = Return code s \<Longrightarrow>
    gateway_step E I g (after i (Closed (conn s)) s g)"
| gw_throw: "streams g i = Some (Open c) \<Longrightarrow>
    handle (E i) I m \<lparr>conn = c, rate_limiters = limiters g, world = gworld g\<rparr> = Threw s \<Longrightarrow>
    gateway_step E I g (after i (Closed (conn s)) s g)"
| gw_hangup: "streams g i = Some (Open c) \<Longrightarrow> gateway_step E I g (g\<lparr>streams := (streams g)(i \<mapsto> Closed c)\<rparr>)"
| gw_world: "gateway_step E I g (g\<lparr>gworld := w\<rparr>)"

definition gateway_start :: "'w \<Rightarrow> 'w gateway" where
  "gateway_start w = \<lparr>streams = Map.empty, limiters = Map.empty, gworld = w\<rparr>"

inductive gateway_reach :: "(nat \<Rightarrow> 'w platform) \<Rightarrow> 'w GatewayIntegrations \<Rightarrow> 'w gateway \<Rightarrow> bool"
  for E I where
  gw_init: "gateway_reach E I (gateway_start w)"
| gw_more: "gateway_reach E I g \<Longrightarrow> gateway_step E I g g' \<Longrightarrow> gateway_reach E I g'"

section \<open>Invariant of a connection\<close>

text \<open>The position a trace has reached: what it last resumed from or accepted.\<close>

definition mark :: "gw_event list \<Rightarrow> u64 option" where
  "mark tr = foldl (\<lambda>m e. case e of Resumed n \<Rightarrow> Some n | Accepted n \<Rightarrow> Some n | _ \<Rightarrow> m) None tr"

lemma mark_Nil [simp]: "mark [] = None"
  by (simp add: mark_def)

lemma mark_snoc [simp]:
  "mark (tr @ [e]) = (case e of Resumed n \<Rightarrow> Some n | Accepted n \<Rightarrow> Some n | _ \<Rightarrow> mark tr)"
  by (simp add: mark_def split: gw_event.split)

inductive trace_ok :: "bool \<Rightarrow> gw_event list \<Rightarrow> bool" for K where
  ok_Nil: "trace_ok K []"
| ok_Resumed: "trace_ok K tr \<Longrightarrow> trace_ok K (tr @ [Resumed n])"
| ok_Dup: "trace_ok K tr \<Longrightarrow> mark tr = Some m \<Longrightarrow> n \<le> m \<Longrightarrow> trace_ok K (tr @ [Dup n])"
| ok_Limited: "trace_ok K tr \<Longrightarrow> mark tr = Some m \<Longrightarrow> m < n \<Longrightarrow> trace_ok K (tr @ [Limited n])"
| ok_Unpublished: "trace_ok K tr \<Longrightarrow> mark tr = Some m \<Longrightarrow> m < n \<Longrightarrow> K \<Longrightarrow> trace_ok K (tr @ [Unpublished n])"
| ok_Published: "trace_ok K tr \<Longrightarrow> mark tr = Some m \<Longrightarrow> m < n \<Longrightarrow> K \<Longrightarrow> trace_ok K (tr @ [Published n])"
| ok_Accepted: "trace_ok K tr \<Longrightarrow> mark tr = Some m \<Longrightarrow> m < n \<Longrightarrow> (K \<Longrightarrow> tr \<noteq> [] \<and> last tr = Published n) \<Longrightarrow>
    trace_ok K (tr @ [Accepted n])"
| ok_Alerted: "trace_ok K tr \<Longrightarrow> trace_ok K (tr @ [Alerted a])"
| ok_Acked: "trace_ok K tr \<Longrightarrow> mark tr = Some n \<Longrightarrow> trace_ok K (tr @ [Acked n])"
| ok_ConfigPushed: "trace_ok K tr \<Longrightarrow> mark tr \<noteq> None \<Longrightarrow> trace_ok K (tr @ [ConfigPushed v])"

fun is_Accepted :: "gw_event \<Rightarrow> bool" where "is_Accepted (Accepted n) = True" | "is_Accepted _ = False"
fun is_Dup :: "gw_event \<Rightarrow> bool" where "is_Dup (Dup n) = True" | "is_Dup _ = False"
fun is_Limited :: "gw_event \<Rightarrow> bool" where "is_Limited (Limited n) = True" | "is_Limited _ = False"
fun is_Published :: "gw_event \<Rightarrow> bool" where "is_Published (Published n) = True" | "is_Published _ = False"
fun is_Unpublished :: "gw_event \<Rightarrow> bool" where "is_Unpublished (Unpublished n) = True" | "is_Unpublished _ = False"
fun is_Resumed :: "gw_event \<Rightarrow> bool" where "is_Resumed (Resumed n) = True" | "is_Resumed _ = False"

definition num :: "(gw_event \<Rightarrow> bool) \<Rightarrow> gw_event list \<Rightarrow> nat" where
  "num P tr = length (filter P tr)"

lemma num_simps [simp]: "num P [] = 0" "num P (tr @ [e]) = num P tr + (if P e then 1 else 0)"
  by (simp_all add: num_def)

definition counters_ok :: "connection \<Rightarrow> bool" where
  "counters_ok c \<longleftrightarrow>
     received c = word_of_nat (num is_Accepted (trace c)) \<and> duplicates c = word_of_nat (num is_Dup (trace c)) \<and>
     rate_limited c = word_of_nat (num is_Limited (trace c)) \<and>
     kafka_published c = word_of_nat (num is_Published (trace c)) \<and>
     kafka_failed c = word_of_nat (num is_Unpublished (trace c))"

definition conn_inv :: "bool \<Rightarrow> connection \<Rightarrow> bool" where
  "conn_inv K c \<longleftrightarrow> trace_ok K (trace c) \<and> counters_ok c \<and>
     (device_id c \<noteq> [] \<longrightarrow> mark (trace c) = Some (last_seq c))"

lemma new_connection_inv [simp]: "conn_inv K new_connection"
  by (simp add: conn_inv_def counters_ok_def new_connection_def ok_Nil)

text \<open>What a handler leaves behind, however it ends.\<close>

fun rpc_all :: "('w gw \<Rightarrow> bool) \<Rightarrow> 'w rpc \<Rightarrow> bool" where
  "rpc_all P (Continue s) = P s"
| "rpc_all P (Return code s) = P s"
| "rpc_all P (Threw s) = P s"
| "rpc_all P Undefined = True"

lemma conn_upd [simp]:
  "conn (upd f s) = f (conn s)" "world (upd f s) = world s" "rate_limiters (upd f s) = rate_limiters s"
  by (simp_all add: upd_def)

lemma log_event_sel [simp]:
  "trace (log_event e c) = trace c @ [e]" "device_id (log_event e c) = device_id c" "last_seq (log_event e c) = last_seq c"
  "tenant_id (log_event e c) = tenant_id c" "received (log_event e c) = received c" "duplicates (log_event e c) = duplicates c"
  "gap_events (log_event e c) = gap_events c" "rate_limited (log_event e c) = rate_limited c"
  "kafka_published (log_event e c) = kafka_published c" "kafka_failed (log_event e c) = kafka_failed c"
  "awaiting_resync (log_event e c) = awaiting_resync c" "durable_resume (log_event e c) = durable_resume c"
  by (simp_all add: log_event_def)

lemma advance_sel [simp]:
  "trace (advance n c) = trace c @ [Accepted n]" "device_id (advance n c) = device_id c" "last_seq (advance n c) = n"
  "received (advance n c) = received c + 1" "duplicates (advance n c) = duplicates c"
  "rate_limited (advance n c) = rate_limited c" "kafka_published (advance n c) = kafka_published c"
  "kafka_failed (advance n c) = kafka_failed c" "awaiting_resync (advance n c) = False" "tenant_id (advance n c) = tenant_id c"
  "gap_events (advance n c) = gap_events c + (if awaiting_resync c then 0 else n - last_seq c - 1)"
  by (simp_all add: advance_def Let_def)

lemma CheckRateLimit_conn [simp]: "CheckRateLimit E I key s = Some (b, s1) \<Longrightarrow> conn s1 = conn s"
  by (auto simp: CheckRateLimit_def Let_def split: if_splits option.splits prod.splits)

lemma update_hot_conn [simp]: "conn (update_hot E I hb s) = conn s"
  by (simp add: update_hot_def split: option.split prod.split)

lemma write_ack_inv:
  assumes "conn_inv K (conn s)" "device_id (conn s) \<noteq> []"
  shows "rpc_all (\<lambda>s'. conn_inv K (conn s')) (write_ack E s)"
  using assms by (auto simp: write_ack_def conn_inv_def counters_ok_def intro: ok_Acked split: prod.split)

lemma alert_inv: "conn_inv K (conn s) \<Longrightarrow> conn_inv K (conn (alert I d s))"
  by (auto simp: alert_def conn_inv_def counters_ok_def Let_def intro: ok_Alerted split: option.split)

lemma alert_sel [simp]:
  "device_id (conn (alert I d s)) = device_id (conn s)" "last_seq (conn (alert I d s)) = last_seq (conn s)"
  "received (conn (alert I d s)) = received (conn s)" "gap_events (conn (alert I d s)) = gap_events (conn s)"
  "awaiting_resync (conn (alert I d s)) = awaiting_resync (conn s)" "rate_limiters (alert I d s) = rate_limiters s"
  "rate_limited (conn (alert I d s)) = rate_limited (conn s)" "kafka_failed (conn (alert I d s)) = kafka_failed (conn s)"
  "tenant_id (conn (alert I d s)) = tenant_id (conn s)" "duplicates (conn (alert I d s)) = duplicates (conn s)"
  by (simp_all add: alert_def Let_def split: option.split)

lemma accept_inv:
  assumes "conn_inv K (conn s)" "device_id (conn s) \<noteq> []" "last_seq (conn s) < seq d"
    "K \<Longrightarrow> trace (conn s) \<noteq> [] \<and> last (trace (conn s)) = Published (seq d)" "accept E I d s = Some s'"
  shows "conn_inv K (conn s') \<and> device_id (conn s') \<noteq> []"
proof -
  have "trace_ok K (trace (conn s) @ [Accepted (seq d)])"
    by (rule ok_Accepted[where m = "last_seq (conn s)"]) (use assms(1-4) in \<open>auto simp: conn_inv_def\<close>)
  then have "conn_inv K (advance (seq d) (conn s))" using assms(1) by (simp add: conn_inv_def counters_ok_def)
  then have c: "conn_inv K ((advance (seq d) (conn s))\<lparr>max_transit_ns := t\<rparr>)" for t by (simp add: conn_inv_def counters_ok_def)
  then show ?thesis using assms(2,5) c
    by (auto simp: accept_def Let_def split: prod.splits if_splits intro!: alert_inv)
qed

lemma publish_inv:
  assumes "conn_inv (kafka I \<noteq> None) (conn s)" "device_id (conn s) \<noteq> []" "last_seq (conn s) < seq d"
    "publish E I d s = (ok, s')"
  shows "conn_inv (kafka I \<noteq> None) (conn s') \<and> device_id (conn s') = device_id (conn s) \<and> last_seq (conn s') = last_seq (conn s) \<and>
    (ok \<longrightarrow> kafka I \<noteq> None \<longrightarrow> trace (conn s') \<noteq> [] \<and> last (trace (conn s')) = Published (seq d))"
proof (cases "kafka I")
  case (Some f)
  obtain ok' w where f: "f (device_id (conn s)) (SerializeAsString E d) (world s) = (ok', w)" by fastforce
  have "trace_ok True (trace (conn s))" "mark (trace (conn s)) = Some (last_seq (conn s))"
    using assms(1,2) Some by (simp_all add: conn_inv_def)
  then have "trace_ok True (trace (conn s) @ [Published (seq d)])" "trace_ok True (trace (conn s) @ [Unpublished (seq d)])"
    using assms(3) by (auto intro: ok_Published ok_Unpublished)
  then show ?thesis using assms Some f by (auto simp: publish_def conn_inv_def counters_ok_def)
qed (use assms in \<open>simp add: publish_def\<close>)

lemma on_detection_inv:
  assumes "conn_inv (kafka I \<noteq> None) (conn s)"
  shows "rpc_all (\<lambda>s'. conn_inv (kafka I \<noteq> None) (conn s')) (on_detection E I d s)"
proof (cases "device_id (conn s) = []")
  case False
  let ?K = "kafka I \<noteq> None"
  have m: "mark (trace (conn s)) = Some (last_seq (conn s))" "trace_ok ?K (trace (conn s))"
    using assms False by (simp_all add: conn_inv_def)
  show ?thesis
  proof (cases "seq d \<le> last_seq (conn s)")
    case True
    have "conn_inv ?K (log_event (Dup (seq d)) ((conn s)\<lparr>duplicates := duplicates (conn s) + 1\<rparr>))"
      using assms m True by (auto simp: conn_inv_def counters_ok_def intro: ok_Dup)
    then show ?thesis using True False by (simp add: on_detection_def write_ack_inv)
  next
    case gt: False
    show ?thesis
    proof (cases "CheckRateLimit E I (rate_key (conn s)) s")
      case (Some r)
      obtain admitted s1 where r: "r = (admitted, s1)" by fastforce
      have c1: "conn s1 = conn s" using Some r by simp
      have lim: "conn_inv ?K (log_event (Limited (seq d)) ((conn s)\<lparr>rate_limited := rate_limited (conn s) + 1\<rparr>))"
        using assms m gt by (auto simp: conn_inv_def counters_ok_def intro: ok_Limited)
      obtain ok s2 where p: "publish E I d s1 = (ok, s2)" by fastforce
      have p2: "conn_inv ?K (conn s2) \<and> device_id (conn s2) = device_id (conn s1) \<and> last_seq (conn s2) = last_seq (conn s1) \<and>
          (ok \<longrightarrow> ?K \<longrightarrow> trace (conn s2) \<noteq> [] \<and> last (trace (conn s2)) = Published (seq d))"
        by (rule publish_inv[OF _ _ _ p]) (use assms False gt c1 in auto)
      have "rpc_all (\<lambda>s'. conn_inv ?K (conn s')) (case accept E I d s2 of None \<Rightarrow> Undefined | Some s3 \<Rightarrow> write_ack E s3)" if ok
      proof (cases "accept E I d s2")
        case (Some s3)
        have "conn_inv ?K (conn s3) \<and> device_id (conn s3) \<noteq> []"
          by (rule accept_inv[OF _ _ _ _ Some]) (use p2 that False gt c1 in auto)
        then show ?thesis using Some write_ack_inv by fastforce
      qed simp
      then show ?thesis using Some r False gt lim p p2 c1 by (simp add: on_detection_def)
    qed (use False gt in \<open>simp add: on_detection_def\<close>)
  qed
qed (use assms in \<open>simp add: on_detection_def\<close>)

lemma on_heartbeat_inv:
  assumes "conn_inv K (conn s)"
  shows "rpc_all (\<lambda>s'. conn_inv K (conn s')) (on_heartbeat E I hb s)"
proof -
  have sh: "rpc_all (\<lambda>s'. conn s' = conn s) (update_shadow E I hb (update_hot E I hb s))"
    by (simp add: update_shadow_def split: option.split prod.split put_outcome.split)
  have pc: "rpc_all (\<lambda>s'. conn_inv K (conn s')) (push_config E I hb s1)"
    if "conn s1 = conn s" "device_id (conn s) \<noteq> []" for s1
    using that assms by (auto simp: push_config_def conn_inv_def counters_ok_def intro: ok_ConfigPushed split: option.split prod.split)
  show ?thesis
  proof (cases "device_id (conn s) = []")
    case False
    then show ?thesis using sh pc assms
      by (cases "update_shadow E I hb (update_hot E I hb s)") (simp_all add: on_heartbeat_def)
  qed (use assms in \<open>simp add: on_heartbeat_def\<close>)
qed

lemma handle_inv:
  assumes "conn_inv (kafka I \<noteq> None) (conn s)"
  shows "rpc_all (\<lambda>s'. conn_inv (kafka I \<noteq> None) (conn s')) (handle E I m s)"
proof (cases m)
  case (MHello h)
  show ?thesis using assms
    by (auto simp: MHello on_hello_def conn_inv_def counters_ok_def intro: ok_Resumed)
next
  case (MDetection d)
  show ?thesis using on_detection_inv[OF assms] by (simp only: MDetection handle.simps)
next
  case (MHeartbeat hb)
  show ?thesis using on_heartbeat_inv[OF assms] by (simp only: MHeartbeat handle.simps)
qed (use assms in simp)

lemma gateway_reach_inv:
  assumes "gateway_reach E I g" "streams g i = Some st"
  shows "conn_inv (kafka I \<noteq> None) (stream_conn st)"
  using assms
proof (induction arbitrary: i st rule: gateway_reach.induct)
  case (gw_init w)
  then show ?case by (simp add: gateway_start_def)
next
  case (gw_more g g')
  let ?K = "kafka I \<noteq> None"
  have h: "rpc_all (\<lambda>s'. conn_inv ?K (conn s')) (handle (E j) I m \<lparr>conn = c, rate_limiters = limiters g, world = gworld g\<rparr>)"
    if "streams g j = Some (Open c)" for j c m
    by (rule handle_inv) (use gw_more.IH[OF that] in simp)
  from gw_more.hyps(2) show ?case
  proof cases
    case (gw_continue j c m s)
    then show ?thesis using h[of j c m] gw_more.IH[of i st] gw_more.prems by (cases "i = j") (auto simp: after_def)
  next
    case (gw_return j c m code s)
    then show ?thesis using h[of j c m] gw_more.IH[of i st] gw_more.prems by (cases "i = j") (auto simp: after_def)
  next
    case (gw_throw j c m s)
    then show ?thesis using h[of j c m] gw_more.IH[of i st] gw_more.prems by (cases "i = j") (auto simp: after_def)
  next
    case (gw_hangup j c)
    then show ?thesis using gw_more.IH[of i st] gw_more.IH[of j "Open c"] gw_more.prems by (cases "i = j") auto
  next
    case (gw_connect j)
    then show ?thesis using gw_more.IH[of i st] gw_more.prems by (cases "i = j") auto
  next
    case (gw_world w)
    then show ?thesis using gw_more.IH[of i st] gw_more.prems by simp
  qed
qed

section \<open>Acknowledgements\<close>

inductive_cases trace_ok_snoc: "trace_ok K (tr @ [e])"

lemma trace_ok_butlast: "trace_ok K (tr @ [e]) \<Longrightarrow> trace_ok K tr"
  by (erule trace_ok_snoc) simp_all

lemma trace_ok_prefix: "trace_ok K (pre @ post) \<Longrightarrow> trace_ok K pre"
proof (induction post rule: rev_induct)
  case (snoc e post)
  then show ?case using trace_ok_butlast[of K "pre @ post" e] by simp
qed simp

lemma trace_ok_Acked: "trace_ok K (pre @ Acked n # post) \<Longrightarrow> mark pre = Some n"
proof -
  assume "trace_ok K (pre @ Acked n # post)"
  then have "trace_ok K (pre @ [Acked n])" using trace_ok_prefix[of K "pre @ [Acked n]" post] by simp
  then show ?thesis by (rule trace_ok_snoc) simp_all
qed

lemma mark_source:
  "trace_ok K tr \<Longrightarrow> mark tr = Some n \<Longrightarrow> Resumed n \<in> set tr \<or> Accepted n \<in> set tr \<and> (K \<longrightarrow> Published n \<in> set tr)"
proof (induction rule: trace_ok.induct)
  case (ok_Accepted tr m n')
  then have "K \<longrightarrow> Published n' \<in> set tr" using last_in_set[of tr] by metis
  then show ?case using ok_Accepted.prems by auto
qed auto

lemma mark_mono:
  assumes "trace_ok K (pre @ mid)" "mark pre = Some m" "\<forall>e \<in> set mid. \<not> is_Resumed e"
  shows "\<exists>n. mark (pre @ mid) = Some n \<and> m \<le> n"
  using assms
proof (induction mid rule: rev_induct)
  case (snoc e mid)
  have e: "trace_ok K ((pre @ mid) @ [e])" using snoc.prems(1) by simp
  then have "\<exists>n. mark (pre @ mid) = Some n \<and> m \<le> n" using snoc trace_ok_butlast by simp
  then obtain n where n: "mark (pre @ mid) = Some n" "m \<le> n" by blast
  have "mark ((pre @ mid) @ [e]) = mark (pre @ mid) \<or> (\<exists>k. mark ((pre @ mid) @ [e]) = Some k \<and> n < k)"
    using e by (rule trace_ok_snoc) (use n snoc.prems(3) in \<open>simp_all del: append_assoc\<close>)
  then show ?case using n by (auto simp del: append_assoc simp flip: append_assoc)
qed simp

text \<open>
  C6: whatever the streams of a gateway do and however they interleave, an acknowledgement of
  \<open>n\<close> is sent only if the stream resumed from \<open>n\<close> or accepted the event \<open>n\<close> before, and with Kafka
  configured only after event \<open>n\<close> was published; between two resumptions acknowledgements
  never go back.
\<close>
theorem gateway_ack_sound:
  assumes "gateway_reach E I g" "streams g i = Some st"
  shows "(trace (stream_conn st) = pre @ Acked n # post \<longrightarrow>
      Resumed n \<in> set pre \<or> Accepted n \<in> set pre \<and> (kafka I \<noteq> None \<longrightarrow> Published n \<in> set pre)) \<and>
    (trace (stream_conn st) = pre @ Acked m # mid @ Acked n # post \<and> (\<forall>e \<in> set mid. \<not> is_Resumed e) \<longrightarrow> m \<le> n)"
proof (intro conjI impI)
  have ok: "trace_ok (kafka I \<noteq> None) (trace (stream_conn st))" using gateway_reach_inv[OF assms] by (simp only: conn_inv_def)
  show "Resumed n \<in> set pre \<or> Accepted n \<in> set pre \<and> (kafka I \<noteq> None \<longrightarrow> Published n \<in> set pre)"
    if "trace (stream_conn st) = pre @ Acked n # post"
    using ok unfolding that by (intro mark_source) (erule trace_ok_prefix, erule trace_ok_Acked)
  show "m \<le> n" if t: "trace (stream_conn st) = pre @ Acked m # mid @ Acked n # post \<and> (\<forall>e \<in> set mid. \<not> is_Resumed e)"
  proof -
    have a: "mark pre = Some m" using ok trace_ok_Acked t by metis
    have b: "mark (pre @ Acked m # mid) = Some n" using ok trace_ok_Acked[of _ "pre @ Acked m # mid"] t by simp
    have c: "trace_ok (kafka I \<noteq> None) (pre @ Acked m # mid)"
      using ok trace_ok_prefix[of _ "pre @ Acked m # mid" "Acked n # post"] t by simp
    show ?thesis using mark_mono[OF c a] b t by auto
  qed
qed

text \<open>A gateway with a working broker, and one device that resumes after 4 and sends event 5.\<close>

definition demo_platform :: "unit platform" where
  "demo_platform = \<lparr>NowUnixNs = (\<lambda>w. (100, w)), stream_Write = (\<lambda>_ w. (True, w)), open_file = (\<lambda>_ _. None),
     cn_values = [], SerializeAsString = label, dump_reported = (\<lambda>_ _ _. [])\<rparr>"

definition demo_integrations :: "unit GatewayIntegrations" where
  "demo_integrations = \<lparr>kafka = Some (\<lambda>_ _ w. (True, w)), redis = None, shadow_store = None, desired_configs_path = [],
     weather_cache = None, rate_limit_capacity = Fin 0, rate_limit_tokens_per_second = Fin 0\<rparr>"

definition demo_hello :: Hello where
  "demo_hello = \<lparr>hello_device_id = ''cam'', agent_version = [], hello_last_acked_seq = 4, hello_durable_resume = True, hello_tenant_id = []\<rparr>"

definition demo_event :: "u64 \<Rightarrow> DetectionEvent" where
  "demo_event n = \<lparr>seq = n, label = [], det_confidence = Fin 0, bbox = \<lparr>bb_x_min = Fin 0, bb_y_min = Fin 0, bb_x_max = Fin 0, bb_y_max = Fin 0\<rparr>,
     det_capture_time_unix_ns = 0, emit_time_unix_ns = 40, frames_confirmed = 3, window_size = 5\<rparr>"

definition demo_conn :: connection where
  "demo_conn = new_connection\<lparr>device_id := ''cam'', last_seq := 5, received := 1, kafka_published := 1, max_transit_ns := 60,
     trace := [Resumed 4, Published 5, Accepted 5, Acked 5]\<rparr>"

lemmas demo_defs = demo_platform_def demo_integrations_def demo_hello_def demo_event_def demo_conn_def new_connection_def

definition demo_greeted :: connection where
  "demo_greeted = new_connection\<lparr>device_id := ''cam'', last_seq := 4, trace := [Resumed 4]\<rparr>"

lemma demo_hello_handled:
  "handle demo_platform demo_integrations (MHello demo_hello) \<lparr>conn = new_connection, rate_limiters = L, world = w\<rparr> =
    Continue \<lparr>conn = demo_greeted, rate_limiters = L, world = w\<rparr>"
  by (simp add: demo_defs demo_greeted_def on_hello_def upd_def log_event_def)

lemma demo_event_handled:
  "handle demo_platform demo_integrations (MDetection (demo_event 5)) \<lparr>conn = demo_greeted, rate_limiters = L, world = w\<rparr> =
    Continue \<lparr>conn = demo_conn, rate_limiters = L, world = w\<rparr>"
proof -
  let ?s = "\<lambda>c. \<lparr>conn = c, rate_limiters = L, world = w\<rparr>"
  let ?p = "demo_greeted\<lparr>kafka_published := 1, trace := [Resumed 4, Published 5]\<rparr>"
  let ?a = "?p\<lparr>last_seq := 5, received := 1, max_transit_ns := 60, trace := [Resumed 4, Published 5, Accepted 5]\<rparr>"
  have g: "device_id demo_greeted = ''cam''" "last_seq demo_greeted = 4" by (simp_all add: demo_greeted_def)
  have 1: "CheckRateLimit demo_platform demo_integrations k (?s demo_greeted) = Some (True, ?s demo_greeted)" for k
    by (simp add: CheckRateLimit_def demo_integrations_def)
  have 2: "publish demo_platform demo_integrations (demo_event 5) (?s demo_greeted) = (True, ?s ?p)"
    by (simp add: publish_def demo_integrations_def demo_event_def upd_def log_event_def demo_greeted_def new_connection_def)
  have 3: "accept demo_platform demo_integrations (demo_event 5) (?s ?p) = Some (?s ?a)"
    by (simp add: accept_def advance_def demo_platform_def demo_integrations_def demo_event_def upd_def log_event_def
        alert_def demo_greeted_def new_connection_def)
  have 4: "write_ack demo_platform (?s ?a) = Continue (?s demo_conn)"
    by (simp add: write_ack_def demo_platform_def upd_def log_event_def demo_conn_def demo_greeted_def new_connection_def)
  have "seq (demo_event 5) = 5" by (simp add: demo_event_def)
  then show ?thesis by (simp only: handle.simps on_detection_def gw.simps g 1 2 3 4 option.case prod.case) simp
qed

lemma demo_reach:
  "gateway_reach (\<lambda>_. demo_platform) demo_integrations \<lparr>streams = [0 \<mapsto> Open demo_conn], limiters = Map.empty, gworld = ()\<rparr>"
proof -
  let ?E = "\<lambda>_ :: nat. demo_platform" and ?g = "\<lambda>c. \<lparr>streams = [0 \<mapsto> Open c], limiters = Map.empty, gworld = ()\<rparr>"
  have "gateway_reach ?E demo_integrations (?g new_connection)"
    using gw_more[OF gw_init[of _ _ "()"] gw_connect[of _ 0]] by (simp add: gateway_start_def)
  then have "gateway_reach ?E demo_integrations (?g demo_greeted)"
    using gw_continue[of "?g new_connection" 0 new_connection ?E demo_integrations "MHello demo_hello"
        "\<lparr>conn = demo_greeted, rate_limiters = Map.empty, world = ()\<rparr>"] demo_hello_handled[of Map.empty "()"]
    by (auto simp: after_def intro: gw_more)
  then show ?thesis
    using gw_continue[of "?g demo_greeted" 0 demo_greeted ?E demo_integrations "MDetection (demo_event 5)"
        "\<lparr>conn = demo_conn, rate_limiters = Map.empty, world = ()\<rparr>"] demo_event_handled[of Map.empty "()"]
    by (auto simp: after_def intro: gw_more)
qed

theorem gateway_ack_sound_witness:
  "Resumed 5 \<in> set [Resumed 4, Published 5, Accepted 5] \<or>
   Accepted 5 \<in> set [Resumed 4, Published 5, Accepted 5] \<and>
     (kafka demo_integrations \<noteq> None \<longrightarrow> Published 5 \<in> set [Resumed 4, Published 5, Accepted 5])"
  using gateway_ack_sound[OF demo_reach, of 0 "Open demo_conn" "[Resumed 4, Published 5, Accepted 5]" 5 "[]"]
  by (simp add: demo_conn_def)

end
