(* ===== verification/Ledger.thy ===== *)
theory Ledger
  imports Gateway
begin

text \<open>
  What the counters of a gateway connection say about the events of its stream, what its rate
  limiters share, and what a certificate says about the identity a device claims.
\<close>

section \<open>Accounting\<close>

definition nums :: "connection \<Rightarrow> nat \<times> nat \<times> nat \<times> nat" where
  "nums c = (num is_Accepted (trace c), num is_Dup (trace c), num is_Limited (trace c), num is_Unpublished (trace c))"

text \<open>The part of a connection that a message other than a detection leaves alone.\<close>

definition position :: "connection \<Rightarrow> u64 \<times> u64 \<times> bool" where
  "position c = (last_seq c, gap_events c, awaiting_resync c)"

text \<open>What handling event \<open>n\<close> does to a connection that has said hello.\<close>

definition detection_effect :: "u64 \<Rightarrow> connection \<Rightarrow> connection \<Rightarrow> bool" where
  "detection_effect n c c' \<longleftrightarrow>
     device_id c' = device_id c \<and>
     (case nums c of (a, u, l, f) \<Rightarrow>
        n \<le> last_seq c \<and> position c' = position c \<and> nums c' = (a, u + 1, l, f) \<or>
        last_seq c < n \<and> position c' = position c \<and> nums c' = (a, u, l + 1, f) \<or>
        last_seq c < n \<and> position c' = position c \<and> nums c' = (a, u, l, f + 1) \<or>
        last_seq c < n \<and> nums c' = (a + 1, u, l, f) \<and>
          position c' = (n, gap_events c + (if awaiting_resync c then 0 else n - last_seq c - 1), False))"

lemma write_ack_effect: "rpc_all (\<lambda>s'. device_id (conn s') = device_id (conn s) \<and> position (conn s') = position (conn s) \<and>
    nums (conn s') = nums (conn s)) (write_ack E s)"
  by (simp add: write_ack_def position_def nums_def split: prod.split)

lemma write_ack_detection:
  assumes "detection_effect n c (conn s)"
  shows "rpc_all (\<lambda>s'. detection_effect n c (conn s')) (write_ack E s)"
  using write_ack_effect[of s E] assms by (cases "write_ack E s") (auto simp: detection_effect_def)

lemma accept_effect:
  assumes "accept E I d s = Some s'"
  shows "device_id (conn s') = device_id (conn s) \<and> position (conn s') = position (advance (seq d) (conn s)) \<and>
    nums (conn s') = nums (advance (seq d) (conn s))"
proof -
  have a: "nums (conn (alert I d t)) = nums (conn t)" for t :: "'a gw"
    by (simp add: nums_def alert_def Let_def split: option.split)
  show ?thesis using assms
    by (auto simp: accept_def Let_def position_def a split: prod.splits if_splits) (simp_all add: nums_def)
qed

lemma publish_effect:
  assumes "publish E I d s = (ok, s')"
  shows "device_id (conn s') = device_id (conn s) \<and> position (conn s') = position (conn s) \<and>
    (case nums (conn s) of (a, u, l, f) \<Rightarrow> nums (conn s') = (a, u, l, if ok then f else f + 1))"
  using assms by (auto simp: publish_def position_def nums_def split: option.splits prod.splits)

lemma on_detection_effect:
  assumes "device_id (conn s) \<noteq> []"
  shows "rpc_all (\<lambda>s'. detection_effect (seq d) (conn s) (conn s')) (on_detection E I d s)"
proof (cases "seq d \<le> last_seq (conn s)")
  case True
  then have "detection_effect (seq d) (conn s)
      (conn (upd (\<lambda>c. log_event (Dup (seq d)) (c\<lparr>duplicates := duplicates c + 1\<rparr>)) s))"
    by (simp add: detection_effect_def nums_def position_def)
  then show ?thesis using True assms by (simp add: on_detection_def write_ack_detection del: conn_upd)
next
  case gt: False
  show ?thesis
  proof (cases "CheckRateLimit E I (rate_key (conn s)) s")
    case (Some r)
    obtain admitted s1 where r: "r = (admitted, s1)" by fastforce
    have c1: "conn s1 = conn s" using Some r by simp
    obtain ok s2 where p: "publish E I d s1 = (ok, s2)" by fastforce
    note pe = publish_effect[OF p]
    have l: "detection_effect (seq d) (conn s) (log_event (Limited (seq d)) ((conn s)\<lparr>rate_limited := rate_limited (conn s) + 1\<rparr>))"
      using gt by (simp add: detection_effect_def nums_def position_def)
    have u: "detection_effect (seq d) (conn s) (conn s2)" if "\<not> ok"
      using gt pe that by (auto simp: detection_effect_def c1 split: prod.splits)
    have a: "rpc_all (\<lambda>s'. detection_effect (seq d) (conn s) (conn s')) (write_ack E s3)"
      if "ok" "accept E I d s2 = Some s3" for s3
    proof (rule write_ack_detection)
      show "detection_effect (seq d) (conn s) (conn s3)"
        using accept_effect[OF that(2)] pe that(1) gt unfolding detection_effect_def c1
        by (simp add: nums_def position_def)
    qed
    have body: "on_detection E I d s =
        (if \<not> admitted then Continue (upd (\<lambda>c. log_event (Limited (seq d)) (c\<lparr>rate_limited := rate_limited c + 1\<rparr>)) s1)
         else if \<not> ok then Continue s2
         else case accept E I d s2 of None \<Rightarrow> Undefined | Some s3 \<Rightarrow> write_ack E s3)"
      using Some r gt assms p by (simp add: on_detection_def)
    show ?thesis
    proof (cases "admitted \<and> ok")
      case True
      then show ?thesis using a by (cases "accept E I d s2") (simp_all add: body)
    next
      case False
      then show ?thesis using l u by (auto simp: body c1)
    qed
  qed (use gt assms in \<open>simp add: on_detection_def\<close>)
qed

lemma on_heartbeat_effect:
  "rpc_all (\<lambda>s'. device_id (conn s') = device_id (conn s) \<and> position (conn s') = position (conn s) \<and> nums (conn s') = nums (conn s))
     (on_heartbeat E I hb s)"
proof -
  have sh: "rpc_all (\<lambda>s'. conn s' = conn s) (update_shadow E I hb (update_hot E I hb s))"
    by (simp add: update_shadow_def split: option.split prod.split put_outcome.split)
  have pc: "rpc_all (\<lambda>s'. device_id (conn s') = device_id (conn s) \<and> position (conn s') = position (conn s) \<and> nums (conn s') = nums (conn s))
      (push_config E I hb s1)" if "conn s1 = conn s" for s1
    using that by (simp add: push_config_def position_def nums_def split: option.split prod.split)
  show ?thesis
    by (cases "update_shadow E I hb (update_hot E I hb s)") (use sh pc in \<open>auto simp: on_heartbeat_def\<close>)
qed

fun seqs_of :: "AgentMessage list \<Rightarrow> u64 list" where
  "seqs_of [] = []"
| "seqs_of (MDetection d # ms) = seq d # seqs_of ms"
| "seqs_of (_ # ms) = seqs_of ms"

fun is_hello :: "AgentMessage \<Rightarrow> bool" where
  "is_hello (MHello h) = True"
| "is_hello _ = False"

lemma not_OK: "handle E I m s \<noteq> Return OK s'"
proof -
  have "write_ack E t \<noteq> Return OK s'" "push_config E I hb t \<noteq> Return OK s'" "update_shadow E I hb t \<noteq> Return OK s'" for t hb
    by (simp_all add: write_ack_def push_config_def update_shadow_def split: prod.split option.split put_outcome.split)
  then show ?thesis
    by (cases m) (auto simp: on_hello_def on_detection_def on_heartbeat_def split: option.split prod.split rpc.split)
qed

text \<open>
  A relation between the number of events of a stream handled so far and the connection is kept
  to the end of the stream, if it is kept by the effect of one event.
\<close>

lemma Connect_ledger:
  assumes step: "\<And>k c c'. P k c \<Longrightarrow> k < length ns \<Longrightarrow> detection_effect (ns ! k) c c' \<Longrightarrow> P (Suc k) c'"
    and frame: "\<And>k c c'. P k c \<Longrightarrow> device_id c' = device_id c \<Longrightarrow> position c' = position c \<Longrightarrow> nums c' = nums c \<Longrightarrow> P k c'"
    and dev: "\<And>k c. P k c \<Longrightarrow> device_id c \<noteq> []"
  shows "P k (conn s) \<Longrightarrow> drop k ns = seqs_of ms \<Longrightarrow> k \<le> length ns \<Longrightarrow> \<forall>m \<in> set ms. \<not> is_hello m \<Longrightarrow>
    Connect E I ms s = Return code s' \<Longrightarrow> \<exists>j. P j (conn s') \<and> (code = OK \<longrightarrow> j = length ns)"
proof (induction ms arbitrary: k s)
  case (Cons m ms)
  have nh: "\<forall>m \<in> set ms. \<not> is_hello m" using Cons.prems(4) by simp
  have go: "\<exists>j. P j (conn s') \<and> (code = OK \<longrightarrow> j = length ns)"
    if r: "rpc_all (\<lambda>s'. P k' (conn s')) (handle E I m s)" and k': "drop k' ns = seqs_of ms" "k' \<le> length ns" for k'
  proof (cases "handle E I m s")
    case (Continue t)
    then have "P k' (conn t)" "Connect E I ms t = Return code s'" using r Cons.prems(5) by simp_all
    then show ?thesis using Cons.IH[OF _ k' nh] by blast
  next
    case (Return code' t)
    then have "code \<noteq> OK" "P k' (conn s')" using r Cons.prems(5) not_OK[of E I m s t] by auto
    then show ?thesis by blast
  qed (use Cons.prems(5) in auto)
  show ?case
  proof (cases m)
    case (MDetection d)
    have k: "k < length ns" "ns ! k = seq d" "drop (Suc k) ns = seqs_of ms"
      using Cons.prems(2,3) MDetection by (cases "k < length ns"; simp add: Cons_nth_drop_Suc[symmetric])+
    have "rpc_all (\<lambda>s'. P (Suc k) (conn s')) (on_detection E I d s)"
      using on_detection_effect[OF dev[OF Cons.prems(1)], of d E I] step[OF Cons.prems(1) k(1)] k(2)
      by (cases "on_detection E I d s") auto
    then show ?thesis using go[of "Suc k"] k by (simp add: MDetection)
  next
    case (MHeartbeat hb)
    have "rpc_all (\<lambda>s'. P k (conn s')) (on_heartbeat E I hb s)"
      using on_heartbeat_effect[of s E I hb] frame[OF Cons.prems(1)] by (cases "on_heartbeat E I hb s") auto
    then show ?thesis using go[of k] Cons.prems(2,3) by (simp add: MHeartbeat)
  next
    case (MHello h)
    then show ?thesis using Cons.prems(4) by simp
  next
    case PAYLOAD_NOT_SET
    then show ?thesis using go[of k] Cons.prems(1-3) by simp
  qed
qed auto

definition acc_inv :: "u64 \<Rightarrow> nat \<Rightarrow> connection \<Rightarrow> bool" where
  "acc_inv b k c \<longleftrightarrow> device_id c \<noteq> [] \<and> \<not> awaiting_resync c \<and>
     (case nums c of (a, u, l, f) \<Rightarrow> unat (last_seq c) = unat b + a + unat (gap_events c) \<and> k = a + u + l + f)"

lemma gap_step:
  fixes m n g :: u64
  assumes "m < n" "unat m = x + unat g"
  shows "unat n = Suc x + unat (g + (n - m - 1))"
proof -
  have mn: "unat m < unat n" using assms(1) by (simp add: word_less_nat_alt)
  have d: "n - m \<noteq> 0" using assms(1) by auto
  have "unat (n - m) = unat n - unat m" using assms(1) by (simp add: unat_sub)
  then have e: "unat (n - m - 1) = unat n - unat m - 1" using d by (simp add: unat_minus_one)
  have "unat g + unat (n - m - 1) < 2 ^ 64" using mn assms(2) unat_u64_less[of n] unfolding e by linarith
  then have "unat (g + (n - m - 1)) = unat g + (unat n - unat m - 1)"
    using e by (simp add: unat_word_ariths)
  then show ?thesis using mn assms(2) by linarith
qed

lemma acc_step:
  assumes "acc_inv b k c" "detection_effect n c c'"
  shows "acc_inv b (Suc k) c'"
proof -
  obtain a u l f where c: "nums c = (a, u, l, f)" by (metis prod_cases4)
  have i: "device_id c \<noteq> []" "\<not> awaiting_resync c" "unat (last_seq c) = (unat b + a) + unat (gap_events c)" "k = a + u + l + f"
    using assms(1) c by (simp_all add: acc_inv_def)
  show ?thesis
    using assms(2) i gap_step[OF _ i(3), of n]
    by (auto simp: acc_inv_def detection_effect_def c position_def)
qed

lemma Connect_inv:
  "conn_inv (kafka I \<noteq> None) (conn s) \<Longrightarrow> Connect E I ms s = Return code s' \<Longrightarrow> conn_inv (kafka I \<noteq> None) (conn s')"
proof (induction ms arbitrary: s)
  case (Cons m ms)
  show ?case using handle_inv[OF Cons.prems(1), of E m] Cons by (cases "handle E I m s") auto
qed simp

lemma on_hello_conn:
  assumes "on_hello E h \<lparr>conn = new_connection, rate_limiters = L, world = w\<rparr> = Continue s"
  shows "acc_inv (hello_last_acked_seq h) 0 (conn s) \<or> \<not> hello_durable_resume h"
    and "conn_inv K (conn s)" and "device_id (conn s) = hello_device_id h \<and> tenant_id (conn s) = hello_tenant_id h"
    and "rate_limiters s = L \<and> world s = w"
  using assms
  by (auto simp: on_hello_def acc_inv_def nums_def num_def new_connection_def conn_inv_def counters_ok_def mark_def
      intro: ok_Resumed[OF ok_Nil, simplified] split: if_splits)

lemma acc_frame:
  "acc_inv b k c \<Longrightarrow> device_id c' = device_id c \<Longrightarrow> position c' = position c \<Longrightarrow> nums c' = nums c \<Longrightarrow> acc_inv b k c'"
  by (simp add: acc_inv_def position_def)

lemma acc_received:
  assumes "acc_inv b k c" "conn_inv K c"
  shows "unat (received c) = num is_Accepted (trace c)"
proof -
  have "num is_Accepted (trace c) \<le> unat (last_seq c)" using assms(1) by (simp add: acc_inv_def nums_def)
  then have "num is_Accepted (trace c) < 2 ^ 64" using unat_u64_less[of "last_seq c"] by linarith
  then show ?thesis using assms(2) by (simp only: conn_inv_def counters_ok_def unat_u64_of_nat)
qed

text \<open>
  C9: on a stream that opens with a hello from durable state, the last sequence number is at
  every point the number resumed from, plus the events accepted, plus the gap counter, exactly
  and without wrap-around; and when the stream ends every event it delivered was counted once,
  as received, duplicate, rate-limited or not published.
\<close>
theorem gateway_accounting:
  assumes "on_hello E h \<lparr>conn = new_connection, rate_limiters = L, world = w\<rparr> = Continue s1"
    and "hello_durable_resume h" "\<forall>m \<in> set ms. \<not> is_hello m" "Connect E I ms s1 = Return code s"
  shows "unat (last_seq (conn s)) = unat (hello_last_acked_seq h) + unat (received (conn s)) + unat (gap_events (conn s)) \<and>
    (code = OK \<longrightarrow> received (conn s) + duplicates (conn s) + rate_limited (conn s) + kafka_failed (conn s) =
       word_of_nat (length (seqs_of ms)))"
proof -
  let ?b = "hello_last_acked_seq h"
  have "\<exists>j. acc_inv ?b j (conn s) \<and> (code = OK \<longrightarrow> j = length (seqs_of ms))"
    by (rule Connect_ledger[where P = "acc_inv ?b" and k = 0 and s = s1 and ms = ms, OF acc_step acc_frame])
      (use on_hello_conn(1)[OF assms(1)] assms(2-4) in \<open>auto simp: acc_inv_def\<close>)
  then obtain j where j: "acc_inv ?b j (conn s)" "code = OK \<longrightarrow> j = length (seqs_of ms)" by blast
  have inv: "conn_inv (kafka I \<noteq> None) (conn s)" by (rule Connect_inv[OF on_hello_conn(2)[OF assms(1)] assms(4)])
  have "unat (last_seq (conn s)) = unat ?b + unat (received (conn s)) + unat (gap_events (conn s))"
    using j(1) acc_received[OF j(1) inv] by (simp add: acc_inv_def nums_def)
  moreover have "received (conn s) + duplicates (conn s) + rate_limited (conn s) + kafka_failed (conn s) = word_of_nat j"
    using j(1) inv by (simp add: acc_inv_def nums_def conn_inv_def counters_ok_def)
  ultimately show ?thesis using j(2) by simp
qed

text \<open>A sender that numbers its events one after the other from where it resumed.\<close>

definition consecutive :: "u64 \<Rightarrow> u64 list \<Rightarrow> bool" where
  "consecutive b ns \<longleftrightarrow> (\<forall>i < length ns. unat (ns ! i) = unat b + 1 + i)"

definition cons_inv :: "u64 \<Rightarrow> nat \<Rightarrow> connection \<Rightarrow> bool" where
  "cons_inv b k c \<longleftrightarrow> acc_inv b k c \<and> fst (snd (nums c)) = 0 \<and> unat (last_seq c) \<le> unat b + k"

lemma cons_step:
  assumes "cons_inv b k c" "detection_effect n c c'" "unat n = unat b + 1 + k"
  shows "cons_inv b (Suc k) c'"
proof -
  have "acc_inv b (Suc k) c'" using assms(1,2) by (auto simp: cons_inv_def intro: acc_step)
  moreover have "\<not> n \<le> last_seq c" using assms(1,3) by (simp add: cons_inv_def word_le_nat_alt)
  ultimately show ?thesis
    using assms by (auto simp: cons_inv_def detection_effect_def position_def split: prod.splits)
qed

text \<open>
  On a stream whose sender numbers its events consecutively, nothing is counted as a
  duplicate, and the loss reported at the end is at most the number of events that Kafka did
  not take: with a broker that confirms everything, rate limiting alone is never reported as
  loss.
\<close>
lemma gateway_loss_report:
  assumes "on_hello E h \<lparr>conn = new_connection, rate_limiters = L, world = w\<rparr> = Continue s1"
    and "hello_durable_resume h" "\<forall>m \<in> set ms. \<not> is_hello m" "consecutive (hello_last_acked_seq h) (seqs_of ms)"
    and "Connect E I ms s1 = Return code s" "length (seqs_of ms) < 2 ^ 64"
  shows "duplicates (conn s) = 0 \<and> attributed_lost (conn s) \<le> kafka_failed (conn s)"
proof -
  let ?b = "hello_last_acked_seq h" and ?n = "length (seqs_of ms)"
  have "\<exists>j. (cons_inv ?b j (conn s) \<and> j \<le> ?n) \<and> (code = OK \<longrightarrow> j = ?n)"
  proof (rule Connect_ledger[where P = "\<lambda>k c. cons_inv ?b k c \<and> k \<le> ?n" and k = 0 and s = s1 and ms = ms])
    show "cons_inv ?b (Suc k) c' \<and> Suc k \<le> ?n"
      if "cons_inv ?b k c \<and> k \<le> ?n" "k < ?n" "detection_effect (seqs_of ms ! k) c c'" for k c c'
      using that cons_step[of ?b k c "seqs_of ms ! k" c'] assms(4) by (simp add: consecutive_def)
    show "cons_inv ?b k c' \<and> k \<le> ?n"
      if "cons_inv ?b k c \<and> k \<le> ?n" "device_id c' = device_id c" "position c' = position c" "nums c' = nums c" for k c c'
      using that acc_frame[of ?b k c c'] by (simp add: cons_inv_def position_def)
    show "device_id c \<noteq> []" if "cons_inv ?b k c \<and> k \<le> ?n" for k c using that by (simp add: cons_inv_def acc_inv_def)
    have "acc_inv ?b 0 (conn s1)" using on_hello_conn(1)[OF assms(1)] assms(2) by simp
    moreover have "last_seq (conn s1) = ?b" using assms(1) by (auto simp: on_hello_def split: if_splits)
    ultimately show "cons_inv ?b 0 (conn s1) \<and> 0 \<le> ?n" by (auto simp: cons_inv_def acc_inv_def)
  qed (use assms in simp_all)
  then obtain j where j: "cons_inv ?b j (conn s)" "j \<le> ?n" by blast
  have inv: "conn_inv (kafka I \<noteq> None) (conn s)" by (rule Connect_inv[OF on_hello_conn(2)[OF assms(1)] assms(5)])
  obtain a u l f where c: "nums (conn s) = (a, u, l, f)" by (metis prod_cases4)
  have n: "unat (last_seq (conn s)) = unat ?b + a + unat (gap_events (conn s))" "j = a + u + l + f" "u = 0"
      "unat (last_seq (conn s)) \<le> unat ?b + j"
    using j(1) c by (simp_all add: cons_inv_def acc_inv_def)
  have cnt: "duplicates (conn s) = word_of_nat u" "rate_limited (conn s) = word_of_nat l" "kafka_failed (conn s) = word_of_nat f"
    using inv c by (simp_all add: conn_inv_def counters_ok_def nums_def)
  have small: "l < 2 ^ 64" "f < 2 ^ 64" using n(2) j(2) assms(6) by linarith+
  have g: "unat (gap_events (conn s)) \<le> l + f" using n by linarith
  have "attributed_lost (conn s) \<le> word_of_nat f"
  proof (cases "gap_events (conn s) > rate_limited (conn s)")
    case True
    then have "unat (gap_events (conn s) - rate_limited (conn s)) = unat (gap_events (conn s)) - l"
      using small by (simp add: unat_sub cnt)
    then show ?thesis using True g small by (simp add: attributed_lost_def word_le_nat_alt)
  qed (simp add: attributed_lost_def)
  then show ?thesis using cnt n(3) by simp
qed

section \<open>Demonstration\<close>

text \<open>The device of \<^const>\<open>demo_hello\<close> sends one event and hangs up.\<close>

lemma demo_stream:
  "on_hello demo_platform demo_hello \<lparr>conn = new_connection, rate_limiters = Map.empty, world = ()\<rparr> =
     Continue \<lparr>conn = demo_greeted, rate_limiters = Map.empty, world = ()\<rparr>"
  "Connect demo_platform demo_integrations [MDetection (demo_event 5)] \<lparr>conn = demo_greeted, rate_limiters = Map.empty, world = ()\<rparr> =
     Return OK \<lparr>conn = demo_conn, rate_limiters = Map.empty, world = ()\<rparr>"
  using demo_hello_handled[of Map.empty "()"] demo_event_handled[of Map.empty "()"] by simp_all

theorem gateway_accounting_witness:
  "unat (last_seq demo_conn) = unat (hello_last_acked_seq demo_hello) + unat (received demo_conn) + unat (gap_events demo_conn) \<and>
   received demo_conn + duplicates demo_conn + rate_limited demo_conn + kafka_failed demo_conn = 1"
  using gateway_accounting[OF demo_stream(1) _ _ demo_stream(2)] by (simp add: demo_hello_def)

lemma gateway_loss_report_example:
  "duplicates demo_conn = 0 \<and> attributed_lost demo_conn \<le> kafka_failed demo_conn"
  using gateway_loss_report[OF demo_stream(1) _ _ _ demo_stream(2)]
  by (simp add: demo_hello_def demo_event_def consecutive_def)

section \<open>Rate limiters of different tenants\<close>

lemma rate_key_eq:
  "rate_key c = rate_key c' \<longleftrightarrow>
     tenant_id c = tenant_id c' \<and> (tenant_id c = [] \<longrightarrow> device_id c = device_id c')"
  by (auto simp: rate_key_def)

text \<open>A state with other limiters.\<close>

definition with_limiters :: "(string \<rightharpoonup> token_bucket) \<Rightarrow> 'w gw \<Rightarrow> 'w gw" where
  "with_limiters L s = s\<lparr>rate_limiters := L\<rparr>"

fun rpc_limiters :: "((string \<rightharpoonup> token_bucket) \<Rightarrow> string \<rightharpoonup> token_bucket) \<Rightarrow> 'w rpc \<Rightarrow> 'w rpc" where
  "rpc_limiters f (Continue s) = Continue (with_limiters (f (rate_limiters s)) s)"
| "rpc_limiters f (Return code s) = Return code (with_limiters (f (rate_limiters s)) s)"
| "rpc_limiters f (Threw s) = Threw (with_limiters (f (rate_limiters s)) s)"
| "rpc_limiters f Undefined = Undefined"

lemma with_limiters_sel [simp]:
  "conn (with_limiters L s) = conn s" "world (with_limiters L s) = world s" "rate_limiters (with_limiters L s) = L"
  by (simp_all add: with_limiters_def)

text \<open>Everything but the rate check leaves the limiters alone and does not read them.\<close>

lemma write_ack_limiters: "write_ack E (with_limiters L s) = rpc_limiters (\<lambda>_. L) (write_ack E s)"
  by (simp add: write_ack_def with_limiters_def upd_def split: prod.split)

lemma publish_limiters: "publish E I d (with_limiters L s) = map_prod id (with_limiters L) (publish E I d s)"
  by (simp add: publish_def with_limiters_def upd_def split: prod.split option.split)

lemma accept_limiters: "accept E I d (with_limiters L s) = map_option (with_limiters L) (accept E I d s)"
  by (simp add: accept_def alert_def with_limiters_def upd_def Let_def split: prod.split option.split)

lemma limiters_kept [simp]:
  "publish E I d s = (ok, s') \<Longrightarrow> rate_limiters s' = rate_limiters s"
  "accept E I d s = Some s' \<Longrightarrow> rate_limiters s' = rate_limiters s"
  "rate_limiters (update_hot E I hb s) = rate_limiters s"
  by (auto simp: publish_def accept_def alert_def update_hot_def Let_def split: prod.splits option.splits if_splits)

lemma with_limiters_same [simp]: "with_limiters (rate_limiters s) s = s" "with_limiters L (with_limiters M s) = with_limiters L s"
  by (simp_all add: with_limiters_def)

lemma CheckRateLimit_limiters:
  assumes "L key = rate_limiters s key"
  shows "CheckRateLimit E I key (with_limiters L s) =
    map_option (map_prod id (\<lambda>s'. with_limiters (L(key := rate_limiters s' key)) s')) (CheckRateLimit E I key s)"
proof (cases "fp_le (rate_limit_capacity I) (Fin 0)")
  case True
  have "L(key := rate_limiters s key) = L" using assms by (metis fun_upd_triv)
  then show ?thesis using True by (simp add: CheckRateLimit_def)
next
  case False
  obtain b w1 where b: "find_bucket E I key s = (b, w1)" by fastforce
  obtain t2 w2 where t2: "NowUnixNs E w1 = (t2, w2)" by fastforce
  have e: "CheckRateLimit E I key (with_limiters M s) = (case TryConsume (Fin 1) t2 b of None \<Rightarrow> None
      | Some (ok, b') \<Rightarrow> Some (ok, (with_limiters M s)\<lparr>rate_limiters := M(key \<mapsto> b'), world := w2\<rparr>))"
    if "M key = rate_limiters s key" for M
  proof -
    have "find_bucket E I key (with_limiters M s) = (b, w1)" using b that by (simp add: find_bucket_def cong: option.case_cong)
    then show ?thesis using False t2 by (simp add: CheckRateLimit_def cong: option.case_cong split: option.split)
  qed
  have e0: "CheckRateLimit E I key s = (case TryConsume (Fin 1) t2 b of None \<Rightarrow> None
      | Some (ok, b') \<Rightarrow> Some (ok, s\<lparr>rate_limiters := (rate_limiters s)(key \<mapsto> b'), world := w2\<rparr>))"
    using e[of "rate_limiters s", OF refl] unfolding with_limiters_same .
  show ?thesis
    unfolding e[of L, OF assms] e0 by (simp add: with_limiters_def split: option.split prod.split)
qed

lemma rpc_limiters_const:
  "rpc_all (\<lambda>s'. rate_limiters s' = R) r \<Longrightarrow> rpc_limiters f r = rpc_limiters (\<lambda>_. f R) r"
  by (cases r) simp_all

lemma write_ack_kept: "rpc_all (\<lambda>s'. rate_limiters s' = rate_limiters s) (write_ack E s)"
  by (simp add: write_ack_def split: prod.split)

lemma on_detection_limiters:
  assumes L: "L (rate_key (conn s)) = rate_limiters s (rate_key (conn s))"
  shows "on_detection E I d (with_limiters L s) =
    rpc_limiters (\<lambda>R. L(rate_key (conn s) := R (rate_key (conn s)))) (on_detection E I d s)"
proof -
  let ?k = "rate_key (conn s)"
  let ?f = "\<lambda>R. L(?k := R ?k)"
  have same: "?f (rate_limiters s) = L" using L by (metis fun_upd_triv)
  have ack: "write_ack E (with_limiters (?f (rate_limiters t)) t) = rpc_limiters ?f (write_ack E t)" for t
    unfolding write_ack_limiters by (rule rpc_limiters_const[OF write_ack_kept, symmetric])
  have dup: "upd g (with_limiters M t) = with_limiters M (upd g t)" for g M and t :: "'a gw"
    by (simp add: upd_def with_limiters_def)
  show ?thesis
  proof (cases "CheckRateLimit E I ?k s")
    case None
    have n: "CheckRateLimit E I ?k (with_limiters L s) = None" unfolding CheckRateLimit_limiters[of L, OF L] None by simp
    show ?thesis using ack[of "upd (\<lambda>c. log_event (Dup (seq d)) (c\<lparr>duplicates := duplicates c + 1\<rparr>)) s"] same
      by (simp add: on_detection_def None n dup)
  next
    case (Some r)
    obtain admitted s1 where r: "r = (admitted, s1)" by fastforce
    have n: "CheckRateLimit E I ?k (with_limiters L s) = Some (admitted, with_limiters (?f (rate_limiters s1)) s1)"
      unfolding CheckRateLimit_limiters[of L, OF L] Some r by simp
    obtain ok s2 where p: "publish E I d s1 = (ok, s2)" by fastforce
    have p': "publish E I d (with_limiters (?f (rate_limiters s1)) s1) = (ok, with_limiters (?f (rate_limiters s2)) s2)"
      using p by (simp add: publish_limiters)
    have a': "write_ack E (with_limiters (?f (rate_limiters s2)) s3) = rpc_limiters ?f (write_ack E s3)"
      if "accept E I d s2 = Some s3" for s3 using ack[of s3] limiters_kept(2)[OF that] by simp
    have accepted: "(case accept E I d (with_limiters (?f (rate_limiters s2)) s2) of None \<Rightarrow> Undefined | Some s3 \<Rightarrow> write_ack E s3) =
        rpc_limiters ?f (case accept E I d s2 of None \<Rightarrow> Undefined | Some s3 \<Rightarrow> write_ack E s3)"
      using a' by (cases "accept E I d s2") (simp_all add: accept_limiters)
    show ?thesis using ack[of "upd (\<lambda>c. log_event (Dup (seq d)) (c\<lparr>duplicates := duplicates c + 1\<rparr>)) s"] same
      by (simp add: on_detection_def Some r n p p' dup accepted)
  qed
qed

lemma on_heartbeat_limiters:
  "on_heartbeat E I hb (with_limiters L s) = rpc_limiters (\<lambda>_. L) (on_heartbeat E I hb s) \<and>
   rpc_all (\<lambda>s'. rate_limiters s' = rate_limiters s) (on_heartbeat E I hb s)"
proof -
  have hot: "update_hot E I hb (with_limiters L s) = with_limiters L (update_hot E I hb s)"
    by (simp add: update_hot_def with_limiters_def split: option.split prod.split)
  have sh: "update_shadow E I hb (with_limiters L t) = rpc_limiters (\<lambda>_. L) (update_shadow E I hb t) \<and>
      rpc_all (\<lambda>s'. rate_limiters s' = rate_limiters t) (update_shadow E I hb t)" for t
    by (simp add: update_shadow_def with_limiters_def split: option.split prod.split put_outcome.split)
  have pc: "push_config E I hb (with_limiters L t) = rpc_limiters (\<lambda>_. L) (push_config E I hb t) \<and>
      rpc_all (\<lambda>s'. rate_limiters s' = rate_limiters t) (push_config E I hb t)" for t
    by (simp add: push_config_def with_limiters_def upd_def split: option.split prod.split)
  show ?thesis
  proof (cases "update_shadow E I hb (update_hot E I hb s)")
    case (Continue t)
    then have "rate_limiters t = rate_limiters s" using sh[of "update_hot E I hb s"] by simp
    then show ?thesis using Continue sh[of "update_hot E I hb s"] pc[of t] by (simp add: on_heartbeat_def hot)
  qed (use sh[of "update_hot E I hb s"] in \<open>simp_all add: on_heartbeat_def hot\<close>)
qed

lemma handle_limiters:
  assumes "L (rate_key (conn s)) = rate_limiters s (rate_key (conn s))"
  shows "handle E I m (with_limiters L s) =
    rpc_limiters (\<lambda>R. L(rate_key (conn s) := R (rate_key (conn s)))) (handle E I m s)"
proof -
  have same: "L(rate_key (conn s) := rate_limiters s (rate_key (conn s))) = L" using assms by (metis fun_upd_triv)
  show ?thesis
  proof (cases m)
    case (MHello h)
    show ?thesis using same by (auto simp: MHello on_hello_def upd_def with_limiters_def)
  next
    case (MDetection d)
    show ?thesis using on_detection_limiters[of L s, OF assms] by (simp add: MDetection)
  next
    case (MHeartbeat hb)
    note hb = on_heartbeat_limiters[of E I hb L s]
    have "rpc_limiters (\<lambda>R. L(rate_key (conn s) := R (rate_key (conn s)))) (on_heartbeat E I hb s) =
        rpc_limiters (\<lambda>_. L) (on_heartbeat E I hb s)"
      using rpc_limiters_const[OF conjunct2[OF hb], of "\<lambda>R. L(rate_key (conn s) := R (rate_key (conn s)))"] same by simp
    then show ?thesis using hb by (simp add: MHeartbeat)
  qed (use same in simp)
qed

text \<open>
  C27: tenants do not share rate limits.  Two gateways in which a connection, its world and its
  own bucket are the same, whatever the other buckets hold, handle a message alike: same
  connection, same world and same own bucket afterwards.  Handling it changes no bucket of a
  connection of another tenant.
\<close>
theorem rate_limit_isolated:
  assumes "conn t = conn s" "world t = world s"
    and "rate_limiters t (rate_key (conn s)) = rate_limiters s (rate_key (conn s))"
    and "handle E I m s = Continue s'"
  shows "\<exists>t'. handle E I m t = Continue t' \<and> conn t' = conn s' \<and> world t' = world s' \<and>
    rate_limiters t' (rate_key (conn s)) = rate_limiters s' (rate_key (conn s)) \<and>
    (\<forall>c. tenant_id c \<noteq> tenant_id (conn s) \<longrightarrow> rate_limiters t' (rate_key c) = rate_limiters t (rate_key c))"
proof -
  have t: "t = with_limiters (rate_limiters t) s" using assms(1,2) by (simp add: with_limiters_def)
  have "handle E I m t =
      Continue (with_limiters ((rate_limiters t)(rate_key (conn s) := rate_limiters s' (rate_key (conn s)))) s')"
    using handle_limiters[of "rate_limiters t" s E I m, OF assms(3)] assms(4) t by simp
  then show ?thesis using rate_key_eq by (auto simp: fun_upd_def)
qed

text \<open>A busy tenant's empty bucket does not touch the camera of another tenant.\<close>

definition limited_integrations :: "unit GatewayIntegrations" where
  "limited_integrations = demo_integrations\<lparr>rate_limit_capacity := Fin 3, rate_limit_tokens_per_second := Fin 1\<rparr>"

definition busy :: "string \<rightharpoonup> token_bucket" where
  "busy = [''tenant:busy'' \<mapsto> \<lparr>tb_capacity = Fin 3, tb_rate = Fin 1, tokens = Fin 0, last_refill_ns = 100\<rparr>]"

lemma limited_heartbeat:
  "handle demo_platform limited_integrations
     (MHeartbeat \<lparr>sent_time_unix_ns = 0, hb_queue_depth = 0, hb_frames_dropped = 0, applied_config_version = 0\<rparr>)
     \<lparr>conn = demo_greeted, rate_limiters = Map.empty, world = ()\<rparr> =
   Continue \<lparr>conn = demo_greeted, rate_limiters = Map.empty, world = ()\<rparr>"
  by (simp add: on_heartbeat_def update_hot_def update_shadow_def push_config_def limited_integrations_def
      demo_integrations_def demo_greeted_def)

theorem rate_limit_isolated_witness:
  "\<exists>t'. handle demo_platform limited_integrations
      (MHeartbeat \<lparr>sent_time_unix_ns = 0, hb_queue_depth = 0, hb_frames_dropped = 0, applied_config_version = 0\<rparr>)
      \<lparr>conn = demo_greeted, rate_limiters = busy, world = ()\<rparr> = Continue t' \<and> conn t' = demo_greeted"
  using rate_limit_isolated[OF _ _ _ limited_heartbeat, of "\<lparr>conn = demo_greeted, rate_limiters = busy, world = ()\<rparr>"]
  by (auto simp: busy_def rate_key_def demo_greeted_def new_connection_def)

section \<open>Identity\<close>

lemma on_hello_accepts:
  assumes "on_hello E h s = Continue s'" "cn_values E = cn # cns"
  shows "cn = expected_cn h" "device_id (conn s') = hello_device_id h" "tenant_id (conn s') = hello_tenant_id h"
  using assms by (auto simp: on_hello_def split: if_splits)

text \<open>
  C28: a client certificate binds the identity: if device and tenant names hold no colon, two
  hellos accepted under the same certificate name the same tenant and device, which become the
  identity of the connection and the name it is logged and rate-limited under.
\<close>
theorem certificate_binds_identity:
  assumes "cn_values E = cn # cns" "on_hello E h s = Continue s'" "on_hello E h' t = Continue t'"
    and "CHR '':'' \<notin> set (hello_device_id h @ hello_tenant_id h @ hello_device_id h' @ hello_tenant_id h')"
  shows "tenant_id (conn s') = tenant_id (conn t') \<and> device_id (conn s') = device_id (conn t') \<and>
    logged_identity (conn s') = cn \<and> rate_key (conn s') = rate_key (conn t')"
proof -
  note a = on_hello_accepts[OF assms(2,1)] and b = on_hello_accepts[OF assms(3,1)]
  have e: "expected_cn h = expected_cn h'" using a b by simp
  have ne: "hello_device_id h \<noteq> []" using assms(2) by (auto simp: on_hello_def split: if_splits)
  have eq: "hello_tenant_id h = hello_tenant_id h' \<and> hello_device_id h = hello_device_id h'"
  proof (cases "hello_tenant_id h = []"; cases "hello_tenant_id h' = []")
    assume "hello_tenant_id h \<noteq> []" "hello_tenant_id h' \<noteq> []"
    then have "hello_tenant_id h @ CHR '':'' # hello_device_id h = hello_tenant_id h' @ CHR '':'' # hello_device_id h'"
      using e by (simp add: expected_cn_def)
    from separator_unique[OF this] show ?thesis using assms(4) by simp
  next
    assume t: "hello_tenant_id h = []" "hello_tenant_id h' \<noteq> []"
    then have "CHR '':'' \<in> set (hello_device_id h)" using e by (simp add: expected_cn_def)
    then show ?thesis using assms(4) by simp
  next
    assume t: "hello_tenant_id h \<noteq> []" "hello_tenant_id h' = []"
    then have "hello_device_id h' = hello_tenant_id h @ CHR '':'' # hello_device_id h" using e by (simp add: expected_cn_def)
    then show ?thesis using assms(4) by simp
  qed (use e in \<open>simp add: expected_cn_def\<close>)
  then show ?thesis using a b ne by (simp add: logged_identity_def expected_cn_def rate_key_def)
qed

text \<open>Without that restriction one certificate serves two tenants.\<close>

lemma certificate_ambiguous:
  "let h = demo_hello\<lparr>hello_tenant_id := ''a'', hello_device_id := ''b:c''\<rparr>;
       h' = demo_hello\<lparr>hello_tenant_id := ''a:b'', hello_device_id := ''c''\<rparr>
   in expected_cn h = expected_cn h' \<and> hello_tenant_id h \<noteq> hello_tenant_id h'"
  by (simp add: expected_cn_def)

definition tls_platform :: "unit platform" where
  "tls_platform = demo_platform\<lparr>cn_values := [''cam'']\<rparr>"

lemma tls_hello:
  "on_hello tls_platform demo_hello \<lparr>conn = new_connection, rate_limiters = Map.empty, world = ()\<rparr> =
   Continue \<lparr>conn = demo_greeted, rate_limiters = Map.empty, world = ()\<rparr>"
  by (simp add: demo_defs demo_greeted_def on_hello_def upd_def log_event_def tls_platform_def expected_cn_def)

theorem certificate_binds_identity_witness:
  "tenant_id demo_greeted = tenant_id demo_greeted \<and> logged_identity demo_greeted = ''cam''"
  using certificate_binds_identity[OF _ tls_hello tls_hello, of "''cam''" "[]"]
  by (simp add: tls_platform_def demo_hello_def)

end
