(* ===== verification/EndToEnd.thy ===== *)
theory EndToEnd
  imports Agent Ledger
begin

text \<open>
  The agent and the gateway together, over streams that may break at any message.  \<open>edge\<close> is the
  agent's process, \<open>server\<close> the gateway's side of the current stream, \<open>up\<close> and \<open>down\<close> the messages
  and acknowledgements in flight.  \<open>emitted\<close> and \<open>delivered\<close> record the events the agent committed
  and the events the gateway accepted.
\<close>

section \<open>The system\<close>

record 'w system =
  edge :: agent
  server :: "'w gw"
  streaming :: bool
  writable :: bool
  last_sent_seq :: u64
  up :: "AgentMessage list"
  down :: "u64 list"
  emitted :: "DetectionEvent list"
  delivered :: "DetectionEvent list"

definition system_start :: "Options \<Rightarrow> (string \<rightharpoonup> token_bucket) \<Rightarrow> 'w \<Rightarrow> 'w system" where
  "system_start opt L w =
     \<lparr>edge = agent_start opt (0, []), server = \<lparr>conn = new_connection, rate_limiters = L, world = w\<rparr>,
      streaming = False, writable = False, last_sent_seq = 0, up = [], down = [], emitted = [], delivered = []\<rparr>"

text \<open>What handling a message added to the trace, the acknowledgements in it, and whether it took the event.\<close>

definition new_events :: "'w gw \<Rightarrow> 'w gw \<Rightarrow> gw_event list" where
  "new_events s s' = drop (length (trace (conn s))) (trace (conn s'))"

fun acks_in :: "gw_event list \<Rightarrow> u64 list" where
  "acks_in [] = []"
| "acks_in (Acked n # evs) = n # acks_in evs"
| "acks_in (_ # evs) = acks_in evs"

fun taken :: "AgentMessage \<Rightarrow> gw_event list \<Rightarrow> DetectionEvent list" where
  "taken (MDetection d) evs = (if Accepted (seq d) \<in> set evs then [d] else [])"
| "taken _ evs = []"

definition hang_up :: "'w system \<Rightarrow> 'w system" where
  "hang_up S = S\<lparr>streaming := False, writable := False, up := [], down := []\<rparr>"

text \<open>
  The steps: the producer commits an event, a configuration arrives or is applied, a stream is
  opened, a round of the send loop, the gateway handles the next message and goes on or ends the
  call, the reader handles an acknowledgement, the stream breaks, the agent crashes and
  restarts, and other streams and time change the gateway's shared state.
\<close>

inductive system_step :: "'w platform \<Rightarrow> 'w GatewayIntegrations \<Rightarrow> (DetectionEvent \<Rightarrow> byte list) \<Rightarrow>
    (byte list \<Rightarrow> DetectionEvent) \<Rightarrow> Options \<Rightarrow> 'w system \<Rightarrow> 'w system \<Rightarrow> bool"
  for E I ser prs opt where
  sys_emit: "next_seq (edge S) + 1 \<noteq> 0 \<Longrightarrow>
    system_step E I ser prs opt S (S\<lparr>edge := emit ser d (edge S), emitted := emitted S @ [d\<lparr>seq := next_seq (edge S)\<rparr>]\<rparr>)"
| sys_config: "system_step E I ser prs opt S (S\<lparr>edge := on_gateway_message (MConfig cfg) (edge S)\<rparr>)"
| sys_apply: "f = apply_config_video \<or> f = apply_config_fake \<Longrightarrow> system_step E I ser prs opt S (S\<lparr>edge := f (edge S)\<rparr>)"
| sys_open: "\<not> streaming S \<Longrightarrow> open_stream prs opt version budget (edge S) = (ms, sent, budget', ok) \<Longrightarrow>
    system_step E I ser prs opt S (S\<lparr>server := (server S)\<lparr>conn := new_connection\<rparr>, streaming := True, writable := ok,
      last_sent_seq := sent, up := ms, down := []\<rparr>)"
| sys_send: "streaming S \<Longrightarrow> writable S \<Longrightarrow>
    send_round prs budget now next_hb wall (last_sent_seq S) (edge S) = (ms, sent, next_hb', ok) \<Longrightarrow>
    system_step E I ser prs opt S (S\<lparr>writable := ok, last_sent_seq := sent, up := up S @ ms\<rparr>)"
| sys_serve: "streaming S \<Longrightarrow> up S = m # ms \<Longrightarrow> handle E I m (server S) = Continue s \<Longrightarrow>
    system_step E I ser prs opt S (S\<lparr>server := s, up := ms, down := down S @ acks_in (new_events (server S) s),
      delivered := delivered S @ taken m (new_events (server S) s)\<rparr>)"
| sys_refuse: "streaming S \<Longrightarrow> up S = m # ms \<Longrightarrow> handle E I m (server S) = Return code s \<or> handle E I m (server S) = Threw s \<Longrightarrow>
    system_step E I ser prs opt S (S\<lparr>server := s, writable := False, up := [],
      delivered := delivered S @ taken m (new_events (server S) s)\<rparr>)"
| sys_ack: "streaming S \<Longrightarrow> down S = n # ns \<Longrightarrow>
    system_step E I ser prs opt S (S\<lparr>edge := on_gateway_message (MAck n) (edge S), down := ns\<rparr>)"
| sys_break: "system_step E I ser prs opt S (hang_up S)"
| sys_crash: "system_step E I ser prs opt S ((hang_up S)\<lparr>edge := agent_start opt (alog (edge S))\<rparr>)"
| sys_others: "system_step E I ser prs opt S (S\<lparr>server := \<lparr>conn = conn (server S), rate_limiters = L, world = w\<rparr>\<rparr>)"

inductive system_reach :: "'w platform \<Rightarrow> 'w GatewayIntegrations \<Rightarrow> (DetectionEvent \<Rightarrow> byte list) \<Rightarrow>
    (byte list \<Rightarrow> DetectionEvent) \<Rightarrow> Options \<Rightarrow> 'w system \<Rightarrow> bool"
  for E I ser prs opt where
  sys_init: "system_reach E I ser prs opt (system_start opt L w)"
| sys_more: "system_reach E I ser prs opt S \<Longrightarrow> system_step E I ser prs opt S S' \<Longrightarrow> system_reach E I ser prs opt S'"

section \<open>Sending\<close>

lemma send_new_sorted:
  assumes "sorted_wrt (<) (map fst items)" "send_new prs budget items sent = (ms, sent', budget', ok)"
  shows "ms = map (\<lambda>it. MDetection (prs (snd it))) (filter (\<lambda>it. sent < fst it \<and> fst it \<le> sent') items) \<and>
    sent \<le> sent' \<and> (sent' = sent \<or> sent' \<in> fst ` set items)"
  using assms
proof (induction items arbitrary: budget sent ms)
  case (Cons it items)
  have later: "\<forall>x\<in>set items. fst it < fst x" and srt: "sorted_wrt (<) (map fst items)"
    using Cons.prems(1) by auto
  consider (skip) "fst it \<le> sent" | (stop) "sent < fst it" "budget = 0" | (put) b where "sent < fst it" "budget = Suc b"
    by (cases budget) (auto simp: not_le[symmetric])
  then show ?case
  proof cases
    case skip
    then show ?thesis using Cons.IH[OF srt, of budget sent ms] Cons.prems(2) by auto
  next
    case stop
    then have "ms = []" "sent' = sent" using Cons.prems(2) by (auto split: if_splits)
    then show ?thesis using stop(1) by (auto simp: filter_empty_conv)
  next
    case (put b)
    then obtain ms' where ms: "ms = MDetection (prs (snd it)) # ms'"
      and rest: "send_new prs b items (fst it) = (ms', sent', budget', ok)"
      using Cons.prems(2) by (auto simp: max_def split: prod.splits if_splits)
    note ih = Cons.IH[OF srt rest]
    have "filter (\<lambda>x. fst it < fst x \<and> fst x \<le> sent') items = filter (\<lambda>x. sent < fst x \<and> fst x \<le> sent') items"
      using later put(1) by (intro filter_cong) auto
    then show ?thesis using ih put ms by auto
  qed
qed simp

lemma resend_eq_send_new:
  "sorted_wrt (<) (sent # map fst items) \<Longrightarrow> resend prs budget items sent = send_new prs budget items sent"
  by (induction prs budget items sent rule: resend.induct) (auto simp: max_def split: prod.splits)

section \<open>The gateway's side\<close>

text \<open>A gateway that rejects no event: rate limiting is off, and publishing, if configured, succeeds.\<close>

definition never_rejects :: "'w GatewayIntegrations \<Rightarrow> bool" where
  "never_rejects I \<longleftrightarrow> fp_le (rate_limit_capacity I) (Fin 0) \<and>
     (case kafka I of None \<Rightarrow> True | Some f \<Rightarrow> \<forall>key val w. fst (f key val w))"

lemma acks_in_append [simp]: "acks_in (xs @ ys) = acks_in xs @ acks_in ys"
  by (induction xs rule: acks_in.induct) auto

text \<open>What a handler may add to a connection when nothing is acknowledged.\<close>

definition quiet :: "connection \<Rightarrow> connection \<Rightarrow> bool" where
  "quiet c c' \<longleftrightarrow> device_id c' = device_id c \<and> last_seq c' = last_seq c \<and>
     (\<exists>evs. trace c' = trace c @ evs \<and> acks_in evs = [])"

lemma quiet_refl [simp]: "quiet c c"
  by (simp add: quiet_def)

lemma heartbeat_quiet: "rpc_all (\<lambda>s'. quiet (conn s) (conn s')) (on_heartbeat E I hb s)"
  by (auto simp: on_heartbeat_def update_shadow_def push_config_def quiet_def split: option.split prod.split
      put_outcome.split rpc.split)

lemma alert_trace: "\<exists>evs. trace (conn (alert I d s)) = trace (conn s) @ evs \<and> acks_in evs = []"
  by (cases "weather_cache I") (simp_all add: alert_def Let_def)

lemma accept_new:
  assumes "accept E I d s = Some s'"
  shows "device_id (conn s') = device_id (conn s)" "last_seq (conn s') = seq d"
    "\<exists>evs. trace (conn s') = trace (conn s) @ Accepted (seq d) # evs \<and> acks_in evs = []"
proof -
  obtain t w where s': "s' = alert I d (upd (\<lambda>c. c\<lparr>max_transit_ns := max (max_transit_ns c) t\<rparr>) ((upd (advance (seq d)) s)\<lparr>world := w\<rparr>))"
    using assms by (auto simp: accept_def Let_def split: prod.splits if_splits)
  show "device_id (conn s') = device_id (conn s)" "last_seq (conn s') = seq d" by (simp_all add: s')
  show "\<exists>evs. trace (conn s') = trace (conn s) @ Accepted (seq d) # evs \<and> acks_in evs = []"
    using alert_trace[of I d "upd (\<lambda>c. c\<lparr>max_transit_ns := max (max_transit_ns c) t\<rparr>) ((upd (advance (seq d)) s)\<lparr>world := w\<rparr>)"]
    by (auto simp: s')
qed

lemma publish_new:
  assumes "never_rejects I"
  shows "fst (publish E I d s) \<and> device_id (conn (snd (publish E I d s))) = device_id (conn s) \<and>
    (\<exists>evs. trace (conn (snd (publish E I d s))) = trace (conn s) @ evs \<and> acks_in evs = [])"
proof (cases "kafka I")
  case None
  then show ?thesis by (simp add: publish_def)
next
  case (Some f)
  obtain ok w where f: "f (device_id (conn s)) (SerializeAsString E d) (world s) = (ok, w)" by fastforce
  have ok using assms Some f by (simp add: never_rejects_def) (metis fst_conv)
  then show ?thesis by (simp add: publish_def Some f)
qed

lemma detection_accepted:
  assumes "never_rejects I" "device_id (conn s) \<noteq> []" "last_seq (conn s) < seq d"
  shows "case on_detection E I d s of
      Continue s' \<Rightarrow> device_id (conn s') = device_id (conn s) \<and> last_seq (conn s') = seq d \<and>
        Accepted (seq d) \<in> set (new_events s s') \<and> acks_in (new_events s s') = [seq d]
    | Return code s' \<Rightarrow> Accepted (seq d) \<in> set (new_events s s')
    | Threw s' \<Rightarrow> False
    | Undefined \<Rightarrow> True"
proof -
  have lim: "CheckRateLimit E I key s = Some (True, s)" for key
    using assms(1) by (simp add: CheckRateLimit_def never_rejects_def)
  obtain s2 where p: "publish E I d s = (True, s2)" using publish_new[OF assms(1), of E d s] by (cases "publish E I d s") auto
  have s2: "device_id (conn s2) = device_id (conn s)" "\<exists>evs. trace (conn s2) = trace (conn s) @ evs \<and> acks_in evs = []"
    using publish_new[OF assms(1), of E d s] p by auto
  have body: "on_detection E I d s = (case accept E I d s2 of None \<Rightarrow> Undefined | Some s3 \<Rightarrow> write_ack E s3)"
    using assms(2) assms(3)[unfolded not_le[symmetric]] lim p by (simp add: on_detection_def)
  show ?thesis
  proof (cases "accept E I d s2")
    case (Some s3)
    note acc = accept_new[OF Some]
    obtain e1 e2 where tr: "trace (conn s3) = trace (conn s) @ e1 @ Accepted (seq d) # e2" "acks_in e1 = []" "acks_in e2 = []"
      using acc(3) s2(2) by auto
    obtain ok w where wr: "stream_Write E (MAck (seq d)) (world s3) = (ok, w)" by fastforce
    show ?thesis
      using tr acc(1,2) s2(1) by (simp add: body Some write_ack_def wr new_events_def)
  qed (simp add: body)
qed

section \<open>Invariant\<close>

lemma filter_head:
  fixes f :: "'e \<Rightarrow> 'k :: linorder"
  assumes "sorted_wrt (<) (map f es)" "filter (\<lambda>e. p < f e \<and> f e \<le> q) es = d # rest"
  shows "p < f d \<and> f d \<le> q \<and> d \<in> set es \<and> rest = filter (\<lambda>e. f d < f e \<and> f e \<le> q) es \<and>
    (\<forall>e\<in>set es. f e \<le> f d \<longrightarrow> f e \<le> p \<or> e = d)"
proof -
  obtain us vs where es: "es = us @ d # vs" and us: "\<forall>u\<in>set us. \<not> (p < f u \<and> f u \<le> q)"
    and d: "p < f d" "f d \<le> q" and rest: "rest = filter (\<lambda>e. p < f e \<and> f e \<le> q) vs"
    using assms(2) unfolding filter_eq_Cons_iff by auto
  have lt: "\<forall>u\<in>set us. f u < f d" "\<forall>v\<in>set vs. f d < f v" using assms(1) by (auto simp: es sorted_wrt_append)
  have up: "f u \<le> p" if "u \<in> set us" for u
    using us lt(1) that d(2) by (metis less_imp_le not_le order.trans)
  have "filter (\<lambda>e. p < f e \<and> f e \<le> q) vs = filter (\<lambda>e. f d < f e \<and> f e \<le> q) vs"
    using lt(2) d(1) by (intro filter_cong) auto
  moreover have "filter (\<lambda>e. f d < f e \<and> f e \<le> q) us = []"
    using lt(1) by (auto simp: filter_empty_conv)
  ultimately have "rest = filter (\<lambda>e. f d < f e \<and> f e \<le> q) es" by (simp add: es rest)
  moreover have "\<forall>e\<in>set es. f e \<le> f d \<longrightarrow> f e \<le> p \<or> e = d" using up lt(2) by (auto simp: es not_le[symmetric])
  ultimately show ?thesis using d by (simp add: es)
qed

fun detections :: "AgentMessage list \<Rightarrow> DetectionEvent list" where
  "detections [] = []"
| "detections (MDetection d # ms) = d # detections ms"
| "detections (_ # ms) = detections ms"

lemma detections_append [simp]: "detections (xs @ ys) = detections xs @ detections ys"
  by (induction xs rule: detections.induct) auto

lemma detections_map [simp]: "detections (map (\<lambda>it. MDetection (f it)) items) = map f items"
  by (induction items) auto

definition no_hello :: "AgentMessage list \<Rightarrow> bool" where
  "no_hello ms \<longleftrightarrow> \<not> list_ex is_hello ms"

lemma no_hello_simps [simp]:
  "no_hello []" "no_hello (m # ms) \<longleftrightarrow> \<not> is_hello m \<and> no_hello ms" "no_hello (xs @ ys) \<longleftrightarrow> no_hello xs \<and> no_hello ys"
  "no_hello (map (\<lambda>it. MDetection (f it)) items)"
  by (auto simp: no_hello_def list_ex_iff)

text \<open>Everything committed up to \<open>p\<close> was accepted.\<close>

definition delivered_to :: "u64 \<Rightarrow> 'w system \<Rightarrow> bool" where
  "delivered_to p S \<longleftrightarrow> p < next_seq (edge S) \<and> (\<forall>d\<in>set (emitted S). seq d \<le> p \<longrightarrow> d \<in> set (delivered S))"

definition edge_inv :: "(DetectionEvent \<Rightarrow> byte list) \<Rightarrow> 'w system \<Rightarrow> bool" where
  "edge_inv ser S \<longleftrightarrow> agent_inv (edge S) \<and> map seq (emitted S) = seq_range 0 (next_seq (edge S)) \<and>
     outbox (edge S) = map (\<lambda>d. (seq d, ser d)) (filter (\<lambda>d. fst (alog (edge S)) < seq d) (emitted S)) \<and>
     delivered_to (fst (alog (edge S))) S \<and> (\<forall>n\<in>set (down S). delivered_to n S)"

text \<open>The gateway's side of a stream that has reached position \<open>p\<close>: greeted, or with the greeting in flight.\<close>

definition greeting :: "u64 \<Rightarrow> connection \<Rightarrow> AgentMessage list \<Rightarrow> bool" where
  "greeting p c ms \<longleftrightarrow>
     (if device_id c = [] then (\<exists>h rest. ms = MHello h # rest \<and> hello_last_acked_seq h = p \<and> no_hello rest)
      else last_seq c = p \<and> no_hello ms)"

definition link_inv :: "'w system \<Rightarrow> u64 \<Rightarrow> bool" where
  "link_inv S p \<longleftrightarrow> fst (alog (edge S)) \<le> p \<and> delivered_to p S \<and> (\<forall>n\<in>set (down S). n \<le> p) \<and>
     (last_sent_seq S < p \<longrightarrow> fst (alog (edge S)) = p) \<and>
     detections (up S) = filter (\<lambda>d. p < seq d \<and> seq d \<le> last_sent_seq S) (emitted S) \<and>
     last_sent_seq S < next_seq (edge S) \<and> greeting p (conn (server S)) (up S)"

definition system_inv :: "(DetectionEvent \<Rightarrow> byte list) \<Rightarrow> 'w system \<Rightarrow> bool" where
  "system_inv ser S \<longleftrightarrow> edge_inv ser S \<and> (streaming S \<and> (up S \<noteq> [] \<or> writable S) \<longrightarrow> (\<exists>p. link_inv S p))"

lemma emitted_sorted: "edge_inv ser S \<Longrightarrow> sorted_wrt (<) (map seq (emitted S))"
  by (simp add: edge_inv_def sorted_seq_range)

lemma emitted_below: "edge_inv ser S \<Longrightarrow> d \<in> set (emitted S) \<Longrightarrow> seq d < next_seq (edge S)"
  using set_seq_range[of 0 "next_seq (edge S)"] by (metis (mono_tags, lifting) edge_inv_def imageI list.set_map mem_Collect_eq)

lemma system_start_inv: "system_inv ser (system_start opt L w)"
  by (simp add: system_inv_def edge_inv_def system_start_def agent_inv_def agent_start_def seq_range_def delivered_to_def)

lemma system_inv_step:
  assumes "system_inv ser S" "edge_inv ser S'"
    and "streaming S' \<Longrightarrow> up S' \<noteq> [] \<or> writable S' \<Longrightarrow> streaming S \<and> (up S \<noteq> [] \<or> writable S)"
    and "\<And>p. link_inv S p \<Longrightarrow> up S' \<noteq> [] \<or> writable S' \<Longrightarrow> \<exists>q. link_inv S' q"
  shows "system_inv ser S'"
  using assms unfolding system_inv_def by blast

lemma inv_emit:
  assumes "system_inv ser S" "next_seq (edge S) + 1 \<noteq> 0"
  shows "system_inv ser (S\<lparr>edge := emit ser d (edge S), emitted := emitted S @ [d\<lparr>seq := next_seq (edge S)\<rparr>]\<rparr>)"
proof -
  let ?n = "next_seq (edge S)" and ?S = "S\<lparr>edge := emit ser d (edge S), emitted := emitted S @ [d\<lparr>seq := next_seq (edge S)\<rparr>]\<rparr>"
  have e: "edge_inv ser S" and a: "agent_inv (edge S)" using assms(1) by (auto simp: system_inv_def edge_inv_def)
  have up1: "?n < ?n + 1" using assms(2) by (simp add: word_less_nat_alt unatSuc add.commute[of _ 1])
  have pos: "fst (alog (edge S)) < ?n" using a by (simp add: agent_inv_def)
  have old: "delivered_to p S \<Longrightarrow> delivered_to p ?S" for p
    using up1 by (auto simp: delivered_to_def emit_effect[OF a])
  have zero: "0 < ?n" using pos by (simp add: word_less_nat_alt)
  have ms: "map seq (emitted ?S) = seq_range 0 (next_seq (edge ?S))"
    using e seq_range_snoc[OF zero assms(2)] by (simp add: edge_inv_def emit_effect[OF a])
  have ob: "outbox (edge ?S) = map (\<lambda>d. (seq d, ser d)) (filter (\<lambda>d. fst (alog (edge ?S)) < seq d) (emitted ?S))"
    using e pos by (simp add: edge_inv_def emit_effect[OF a])
  have "edge_inv ser ?S"
    unfolding edge_inv_def using ms ob emit_inv[OF a assms(2), of ser d] e old
    by (simp add: edge_inv_def emit_effect[OF a])
  then show ?thesis
  proof (rule system_inv_step[OF assms(1)])
    fix p assume l: "link_inv S p"
    have "last_sent_seq S < ?n" using l by (simp add: link_inv_def)
    then have "last_sent_seq S < ?n + 1" "\<not> ?n \<le> last_sent_seq S" using up1 by (auto intro: less_trans simp: not_le)
    then have "link_inv ?S p" using l old[of p] by (simp add: link_inv_def emit_effect[OF a])
    then show "\<exists>q. link_inv ?S q" ..
  qed simp
qed

lemma inv_config:
  assumes "system_inv ser S" "alog a = alog (edge S)" "outbox a = outbox (edge S)" "next_seq a = next_seq (edge S)"
  shows "system_inv ser (S\<lparr>edge := a\<rparr>)"
proof -
  have "agent_inv a = agent_inv (edge S)" "\<And>p. delivered_to p (S\<lparr>edge := a\<rparr>) = delivered_to p S"
    by (simp_all add: agent_inv_def delivered_to_def assms(2-4))
  then have "edge_inv ser (S\<lparr>edge := a\<rparr>) = edge_inv ser S" "\<And>p. link_inv (S\<lparr>edge := a\<rparr>) p = link_inv S p"
    by (simp_all add: edge_inv_def link_inv_def assms(2-4))
  then show ?thesis using assms(1) by (simp add: system_inv_def)
qed

lemma outbox_sorted: "agent_inv a \<Longrightarrow> sorted_wrt (<) (map fst (outbox a))"
  using sorted_seq_range by (metis agent_inv_def)

lemma window_eq:
  fixes c p x :: "'a :: linorder"
  assumes "sent < p \<Longrightarrow> c = p" "c \<le> p"
  shows "c < x \<and> sent < x \<and> Q \<longleftrightarrow> max p sent < x \<and> Q"
proof (cases "sent < p")
  case False
  then have "c \<le> sent" using assms(2) by simp
  then show ?thesis using False by auto
qed (use assms in auto)

text \<open>The events a pass of the send loop writes, in terms of the committed ones.\<close>

lemma pass_messages:
  assumes "edge_inv ser S" "\<And>d. d \<in> set (emitted S) \<Longrightarrow> prs (ser d) = d" "send_new prs budget (outbox (edge S)) sent = (ms, sent', b, ok)"
    and "sent < p \<Longrightarrow> fst (alog (edge S)) = p" "fst (alog (edge S)) \<le> p" "p < next_seq (edge S)" "sent < next_seq (edge S)"
  shows "detections ms = filter (\<lambda>d. max p sent < seq d \<and> seq d \<le> sent') (emitted S)" "no_hello ms"
    "sent \<le> sent'" "sent' < next_seq (edge S)"
proof -
  have a: "agent_inv (edge S)"
    and ob: "outbox (edge S) = map (\<lambda>d. (seq d, ser d)) (filter (\<lambda>d. fst (alog (edge S)) < seq d) (emitted S))"
    using assms(1) by (auto simp: edge_inv_def)
  note s = send_new_sorted[OF outbox_sorted[OF a] assms(3)]
  show "no_hello ms" "sent \<le> sent'" using s by simp_all
  show "sent' < next_seq (edge S)"
  proof -
    have "fst ` set (outbox (edge S)) \<subseteq> seq ` set (emitted S)" unfolding ob by auto
    then consider "sent' = sent" | d where "d \<in> set (emitted S)" "sent' = seq d" using s by blast
    then show ?thesis using assms(7) emitted_below[OF assms(1)] by cases simp_all
  qed
  have "detections ms = map (\<lambda>it. prs (snd it)) (filter (\<lambda>it. sent < fst it \<and> fst it \<le> sent') (outbox (edge S)))"
    using s by simp
  also have "\<dots> = filter (\<lambda>d. fst (alog (edge S)) < seq d \<and> sent < seq d \<and> seq d \<le> sent') (emitted S)"
    unfolding ob by (simp add: filter_map comp_def) (rule map_idI, simp add: assms(2))
  also have "\<dots> = filter (\<lambda>d. max p sent < seq d \<and> seq d \<le> sent') (emitted S)"
    by (simp only: window_eq[OF assms(4,5)])
  finally show "detections ms = filter (\<lambda>d. max p sent < seq d \<and> seq d \<le> sent') (emitted S)" .
qed

lemma inv_open:
  assumes "system_inv ser S" "\<And>d. d \<in> set (emitted S) \<Longrightarrow> prs (ser d) = d" "open_stream prs opt version budget (edge S) = (ms, sent, budget', ok)"
  shows "system_inv ser (S\<lparr>server := (server S)\<lparr>conn := new_connection\<rparr>, streaming := True, writable := ok,
      last_sent_seq := sent, up := ms, down := []\<rparr>)" (is "system_inv ser ?S")
proof -
  let ?c = "fst (alog (edge S))"
  have e: "edge_inv ser S" and a: "agent_inv (edge S)" using assms(1) by (auto simp: system_inv_def edge_inv_def)
  then have e': "edge_inv ser ?S" by (simp add: edge_inv_def delivered_to_def)
  show ?thesis
  proof (cases budget)
    case 0
    then show ?thesis using assms(3) e' by (simp add: open_stream_def system_inv_def)
  next
    case (Suc b)
    have lt: "?c < next_seq (edge S)" "0 < next_seq (edge S)"
      using a by (simp_all add: agent_inv_def) (metis word_gt_0 word_not_simps(1))
    have "\<forall>n\<in>set (map fst (outbox (edge S))). 0 < n"
      using a set_seq_range[of ?c "next_seq (edge S)"]
      by (metis (mono_tags, lifting) agent_inv_def mem_Collect_eq word_gt_0 word_not_simps(1))
    then have r: "resend prs b (outbox (edge S)) 0 = send_new prs b (outbox (edge S)) 0"
      using outbox_sorted[OF a] by (intro resend_eq_send_new) simp
    obtain ms' where ms: "ms = MHello (make_hello opt version (edge S)) # ms'"
      and snd: "send_new prs b (outbox (edge S)) 0 = (ms', sent, budget', ok)"
      using assms(3) Suc by (cases "send_new prs b (outbox (edge S)) 0") (auto simp: open_stream_def Snapshot_def r)
    note pm = pass_messages[OF e assms(2) snd _ order.refl lt]
    have "link_inv ?S ?c"
      using e pm lt by (simp add: link_inv_def edge_inv_def delivered_to_def ms greeting_def make_hello_def new_connection_def)
    then show ?thesis using e' by (auto simp: system_inv_def)
  qed
qed

lemma filter_split:
  fixes f :: "'e \<Rightarrow> 'k :: linorder"
  assumes "sorted_wrt (<) (map f es)" "s \<le> s'"
  shows "filter (\<lambda>e. p < f e \<and> f e \<le> s) es @ filter (\<lambda>e. max p s < f e \<and> f e \<le> s') es = filter (\<lambda>e. p < f e \<and> f e \<le> s') es"
  using assms(1)
proof (induction es)
  case (Cons e es)
  have ih: "filter (\<lambda>e. p < f e \<and> f e \<le> s) es @ filter (\<lambda>e. max p s < f e \<and> f e \<le> s') es = filter (\<lambda>e. p < f e \<and> f e \<le> s') es"
    using Cons by simp
  show ?case
  proof (cases "f e \<le> s")
    case True
    then show ?thesis using ih assms(2) by auto
  next
    case False
    then have "filter (\<lambda>e. p < f e \<and> f e \<le> s) es = []" using Cons.prems by (auto simp: filter_empty_conv)
    then show ?thesis using ih False by auto
  qed
qed simp

lemma inv_send:
  assumes "system_inv ser S" "\<And>d. d \<in> set (emitted S) \<Longrightarrow> prs (ser d) = d" "streaming S" "writable S"
    and "send_round prs budget now next_hb wall (last_sent_seq S) (edge S) = (ms, sent, next_hb', ok)"
  shows "system_inv ser (S\<lparr>writable := ok, last_sent_seq := sent, up := up S @ ms\<rparr>)" (is "system_inv ser ?S")
proof -
  have e: "edge_inv ser S" using assms(1) by (simp add: system_inv_def)
  obtain ms1 b ok1 where snd: "send_new prs budget (outbox (edge S)) (last_sent_seq S) = (ms1, sent, b, ok1)"
    and ms: "detections ms = detections ms1" "no_hello ms1 \<Longrightarrow> no_hello ms"
    using assms(5) by (cases "send_new prs budget (outbox (edge S)) (last_sent_seq S)")
      (auto simp: send_round_def Snapshot_def split: if_splits)
  from e have "edge_inv ser ?S" by (simp add: edge_inv_def delivered_to_def)
  with assms(1) show ?thesis
  proof (rule system_inv_step)
    fix p assume l: "link_inv S p"
    have lt: "p < next_seq (edge S)" "last_sent_seq S < next_seq (edge S)" using l by (simp_all add: link_inv_def delivered_to_def)
    have c: "last_sent_seq S < p \<Longrightarrow> fst (alog (edge S)) = p" "fst (alog (edge S)) \<le> p" using l by (simp_all add: link_inv_def)
    note pm = pass_messages[OF e assms(2) snd c lt]
    have "greeting p (conn (server S)) (up S @ ms)"
      using l ms(2)[OF pm(2)] by (auto simp: link_inv_def greeting_def)
    moreover have "sent < p \<Longrightarrow> fst (alog (edge S)) = p" using c(1) pm(3) by (simp add: order.strict_trans1)
    moreover have "detections (up S @ ms) = filter (\<lambda>d. p < seq d \<and> seq d \<le> sent) (emitted S)"
      using l pm(1) filter_split[OF emitted_sorted[OF e] pm(3), of p] by (simp add: link_inv_def ms)
    ultimately have "link_inv ?S p" using l pm(4) by (simp add: link_inv_def delivered_to_def)
    then show "\<exists>q. link_inv ?S q" ..
  qed (use assms(3,4) in simp)
qed

lemma delivered_to_more:
  assumes "delivered_to p S" "next_seq (edge S') = next_seq (edge S)" "emitted S' = emitted S" "set (delivered S) \<subseteq> set (delivered S')"
  shows "delivered_to p S'"
  using assms(1,4) by (auto simp: delivered_to_def assms(2,3))

lemma edge_inv_more:
  assumes "edge_inv ser S" "edge S' = edge S" "emitted S' = emitted S" "set (delivered S) \<subseteq> set (delivered S')"
    "\<And>n. n \<in> set (down S') \<Longrightarrow> n \<in> set (down S) \<or> delivered_to n S'"
  shows "edge_inv ser S'"
proof -
  have "delivered_to p S \<Longrightarrow> delivered_to p S'" for p
    using delivered_to_more[of p S S', OF _ _ assms(3,4)] assms(2) by simp
  then show ?thesis using assms(1,5) unfolding edge_inv_def assms(2,3) by blast
qed

lemma link_quiet:
  assumes "link_inv S p" "up S = m # ms" "detections [m] = []" "quiet (conn (server S)) (conn s)" "\<not> is_hello m"
  shows "link_inv (S\<lparr>server := s, up := ms, down := down S @ acks_in (new_events (server S) s),
      delivered := delivered S @ taken m (new_events (server S) s)\<rparr>) p"
proof -
  have "greeting p (conn s) ms" using assms by (auto simp: link_inv_def greeting_def quiet_def split: if_splits)
  moreover have "acks_in (new_events (server S) s) = []" using assms(4) by (auto simp: quiet_def new_events_def)
  moreover have "detections (up S) = detections ms" using assms(2,3) by (cases m) auto
  ultimately show ?thesis using assms(1) by (auto simp: link_inv_def delivered_to_def)
qed

lemma hello_continues:
  assumes "on_hello E h s = Continue s'"
  shows "device_id (conn s') \<noteq> []" "last_seq (conn s') = hello_last_acked_seq h" "acks_in (new_events s s') = []"
  using assms by (auto simp: on_hello_def new_events_def split: if_splits)

lemma link_hello:
  assumes "link_inv S p" "up S = MHello h # ms" "on_hello E h (server S) = Continue s"
  shows "link_inv (S\<lparr>server := s, up := ms, down := down S @ acks_in (new_events (server S) s),
      delivered := delivered S @ taken (MHello h) (new_events (server S) s)\<rparr>) p"
proof -
  have "greeting p (conn s) ms"
    using assms(1,2) hello_continues(1,2)[OF assms(3)] by (auto simp: link_inv_def greeting_def split: if_splits)
  then show ?thesis using assms(1,2) hello_continues(3)[OF assms(3)] by (simp add: link_inv_def delivered_to_def)
qed

text \<open>The position of a stream whose next message is an event, and the event's place in the committed ones.\<close>

lemma next_detection:
  assumes "edge_inv ser S" "link_inv S p" "up S = MDetection d # ms"
  shows "device_id (conn (server S)) \<noteq> []" "last_seq (conn (server S)) = p" "p < seq d" "seq d \<le> last_sent_seq S"
    "d \<in> set (emitted S)" "detections ms = filter (\<lambda>e. seq d < seq e \<and> seq e \<le> last_sent_seq S) (emitted S)"
    "e \<in> set (emitted S) \<Longrightarrow> seq e \<le> seq d \<Longrightarrow> seq e \<le> p \<or> e = d" "no_hello ms"
proof -
  have "filter (\<lambda>e. p < seq e \<and> seq e \<le> last_sent_seq S) (emitted S) = d # detections ms"
    using assms(2,3) by (simp add: link_inv_def)
  note h = filter_head[OF emitted_sorted[OF assms(1)] this]
  show "device_id (conn (server S)) \<noteq> []" "last_seq (conn (server S)) = p" "no_hello ms"
    using assms(2,3) by (auto simp: link_inv_def greeting_def split: if_splits)
  show "p < seq d" "seq d \<le> last_sent_seq S" "d \<in> set (emitted S)"
    "detections ms = filter (\<lambda>e. seq d < seq e \<and> seq e \<le> last_sent_seq S) (emitted S)"
    "e \<in> set (emitted S) \<Longrightarrow> seq e \<le> seq d \<Longrightarrow> seq e \<le> p \<or> e = d"
    using h by blast+
qed

lemma serve_detection:
  assumes "never_rejects I" "edge_inv ser S" "link_inv S p" "up S = MDetection d # ms"
    "on_detection E I d (server S) = Continue s"
    and S': "S' = S\<lparr>server := s, up := ms, down := down S @ acks_in (new_events (server S) s),
      delivered := delivered S @ taken (MDetection d) (new_events (server S) s)\<rparr>"
  shows "link_inv S' (seq d)" "delivered_to (seq d) S'" "down S' = down S @ [seq d]"
proof -
  note nd = next_detection[OF assms(2-4)]
  have new: "device_id (conn s) = device_id (conn (server S))" "last_seq (conn s) = seq d"
    "Accepted (seq d) \<in> set (new_events (server S) s)" "acks_in (new_events (server S) s) = [seq d]"
    using detection_accepted[OF assms(1) nd(1), of d E] nd(2,3) assms(5) by simp_all
  show dn: "down S' = down S @ [seq d]" by (simp add: S' new)
  show dt: "delivered_to (seq d) S'"
    using assms(3) emitted_below[OF assms(2) nd(5)] nd(7) new(3) by (auto simp: S' link_inv_def delivered_to_def)
  have "fst (alog (edge S)) \<le> seq d" "\<forall>n\<in>set (down S). n \<le> seq d" "\<not> last_sent_seq S < seq d"
    using assms(3) nd(3,4) by (auto simp: link_inv_def)
  moreover have "greeting (seq d) (conn s) ms" using new(1,2) nd(1,8) by (simp add: greeting_def)
  ultimately show "link_inv S' (seq d)"
    using assms(3) dt nd(6) by (simp add: link_inv_def S' new)
qed

lemma inv_serve:
  assumes "never_rejects I" "system_inv ser S" "streaming S" "up S = m # ms" "handle E I m (server S) = Continue s"
  shows "system_inv ser (S\<lparr>server := s, up := ms, down := down S @ acks_in (new_events (server S) s),
      delivered := delivered S @ taken m (new_events (server S) s)\<rparr>)" (is "system_inv ser ?S")
proof -
  have e: "edge_inv ser S" using assms(2) by (simp add: system_inv_def)
  obtain p where l: "link_inv S p" using assms(2-4) by (auto simp: system_inv_def)
  have "\<exists>q. link_inv ?S q \<and> (\<forall>n \<in> set (down ?S). n \<in> set (down S) \<or> delivered_to n ?S)"
  proof (cases m)
    case (MHello h)
    with assms(5) have "on_hello E h (server S) = Continue s" by simp
    then show ?thesis using link_hello[OF l, of h ms E s] hello_continues(3)[of E h "server S" s] assms(4) MHello by auto
  next
    case (MDetection d)
    note sd = serve_detection[OF assms(1) e l assms(4)[unfolded MDetection] _ refl, of E s]
    show ?thesis using sd assms(5) unfolding MDetection by auto
  next
    case (MHeartbeat hb)
    with assms(5) have q: "quiet (conn (server S)) (conn s)" using heartbeat_quiet[of "server S" E I hb] by simp
    then have "acks_in (new_events (server S) s) = []" by (auto simp: quiet_def new_events_def)
    then show ?thesis using link_quiet[OF l assms(4) _ q] MHeartbeat by auto
  qed (use assms(5) in simp)
  then obtain q where q: "link_inv ?S q" and dn: "\<And>n. n \<in> set (down ?S) \<Longrightarrow> n \<in> set (down S) \<or> delivered_to n ?S" by blast
  have "edge_inv ser ?S" by (rule edge_inv_more[OF e]) (use dn in auto)
  then show ?thesis using q by (auto simp: system_inv_def)
qed

lemma inv_refuse:
  assumes "system_inv ser S"
  shows "system_inv ser (S\<lparr>server := s, writable := False, up := [], delivered := delivered S @ ds\<rparr>)" (is "system_inv ser ?S")
proof -
  have "edge_inv ser ?S" by (rule edge_inv_more[of ser S]) (use assms in \<open>auto simp: system_inv_def\<close>)
  then show ?thesis by (simp add: system_inv_def)
qed

lemma inv_hang_up: "system_inv ser S \<Longrightarrow> system_inv ser (hang_up S)"
  by (simp add: system_inv_def hang_up_def edge_inv_def delivered_to_def)

lemma inv_crash:
  assumes "system_inv ser S"
  shows "system_inv ser ((hang_up S)\<lparr>edge := agent_start opt (alog (edge S))\<rparr>)"
proof -
  have "agent_inv (edge S)" using assms by (simp add: system_inv_def edge_inv_def)
  note r = agent_restart[OF this]
  show ?thesis
    by (rule inv_config[OF inv_hang_up[OF assms]]) (simp_all add: hang_up_def r)
qed

lemma inv_ack:
  assumes "system_inv ser S" "down S = n # ns"
  shows "system_inv ser (S\<lparr>edge := on_ack n (edge S), down := ns\<rparr>)" (is "system_inv ser ?S")
proof -
  let ?c = "fst (alog (edge S))"
  have e: "edge_inv ser S" and a: "agent_inv (edge S)" using assms(1) by (auto simp: system_inv_def edge_inv_def)
  have dn: "delivered_to n S" "delivered_to ?c S" using e assms(2) by (auto simp: edge_inv_def)
  then have lt: "n < next_seq (edge S)" and mx: "delivered_to (max ?c n) S" by (auto simp: delivered_to_def max_def)
  note eff = on_ack_effect[OF a, of n]
  have dt: "delivered_to p ?S = delivered_to p S" for p by (simp add: delivered_to_def eff)
  have ob: "outbox (edge S) = map (\<lambda>d. (seq d, ser d)) (filter (\<lambda>d. ?c < seq d) (emitted S))"
    using e by (simp add: edge_inv_def)
  have "unacked (max ?c n) (outbox (edge S)) = map (\<lambda>d. (seq d, ser d)) (filter (\<lambda>d. max ?c n < seq d) (emitted S))"
    unfolding ob unacked_fst filter_map filter_filter comp_def by (intro arg_cong[of _ _ "map _"] filter_cong) auto
  then have "edge_inv ser ?S"
    using e on_ack_inv[OF a lt] mx assms(2) by (simp add: edge_inv_def eff dt)
  with assms(1) show ?thesis
  proof (rule system_inv_step)
    fix p assume l: "link_inv S p"
    then have "max ?c n \<le> p" "last_sent_seq S < p \<Longrightarrow> max ?c n = p" using assms(2) by (auto simp: link_inv_def max_def)
    then have "link_inv ?S p" using l assms(2) by (simp add: link_inv_def eff dt)
    then show "\<exists>q. link_inv ?S q" ..
  qed simp
qed

lemma system_step_inv:
  assumes "system_step E I ser prs opt S S'" "never_rejects I" "\<And>d. d \<in> set (emitted S) \<Longrightarrow> prs (ser d) = d" "system_inv ser S"
  shows "system_inv ser S'"
  using assms(1)
proof cases
  case (sys_others L w)
  then show ?thesis using assms(4) by (simp add: system_inv_def edge_inv_def link_inv_def delivered_to_def)
next
  case (sys_apply f)
  then show ?thesis using inv_config[OF assms(4)] by auto
qed (use assms in \<open>auto intro: inv_emit inv_config inv_open inv_send inv_serve inv_refuse inv_ack inv_hang_up inv_crash\<close>)

lemma emitted_grows: "system_step E I ser prs opt S S' \<Longrightarrow> set (emitted S) \<subseteq> set (emitted S')"
  by (induction rule: system_step.induct) (auto simp: hang_up_def)

lemma system_reach_inv:
  assumes "system_reach E I ser prs opt S" "never_rejects I" "\<And>d. d \<in> set (emitted S) \<Longrightarrow> prs (ser d) = d"
  shows "system_inv ser S"
  using assms(1,3)
proof induction
  case (sys_more S S')
  then have "\<And>d. d \<in> set (emitted S) \<Longrightarrow> prs (ser d) = d" using emitted_grows by blast
  then show ?case using sys_more.IH system_step_inv[OF sys_more.hyps(2) assms(2)] by blast
qed (rule system_start_inv)

text \<open>
  C1: over any run of agent and gateway, with streams that break and agents that crash at any point, an
  event the agent committed is either accepted by the gateway or still in the log and in the outbox, from
  which every new stream resends it; provided that the gateway rejects no event (no rate limit, and
  the broker takes what is published) and that parsing inverts serializing on the committed events.
\<close>

theorem end_to_end_no_loss:
  assumes "system_reach E I ser prs opt S" "never_rejects I" "\<And>d. d \<in> set (emitted S) \<Longrightarrow> prs (ser d) = d" "d \<in> set (emitted S)"
  shows "d \<in> set (delivered S) \<or> (seq d, ser d) \<in> set (outbox (edge S)) \<and> (seq d, ser d) \<in> set (snd (alog (edge S)))"
proof -
  have e: "edge_inv ser S" using system_reach_inv[OF assms(1-3)] by (simp add: system_inv_def)
  show ?thesis
  proof (cases "seq d \<le> fst (alog (edge S))")
    case True
    then show ?thesis using e assms(4) by (auto simp: edge_inv_def delivered_to_def)
  next
    case False
    then have "(seq d, ser d) \<in> set (outbox (edge S))" using e assms(4) by (auto simp: edge_inv_def)
    then show ?thesis using e by (simp add: edge_inv_def agent_inv_def)
  qed
qed

section \<open>Runs\<close>

text \<open>A platform that answers at once, a gateway with only a broker, and a one-byte serializer.\<close>

definition calm_platform :: "'w platform" where
  "calm_platform = \<lparr>NowUnixNs = (\<lambda>w. (100, w)), stream_Write = (\<lambda>_ w. (True, w)), open_file = (\<lambda>_ _. None),
     cn_values = [], SerializeAsString = label, dump_reported = (\<lambda>_ _ _. [])\<rparr>"

definition broker_only :: "(string \<Rightarrow> string \<Rightarrow> 'w \<Rightarrow> bool \<times> 'w) \<Rightarrow> 'w GatewayIntegrations" where
  "broker_only f = \<lparr>kafka = Some f, redis = None, shadow_store = None, desired_configs_path = [],
     weather_cache = None, rate_limit_capacity = Fin 0, rate_limit_tokens_per_second = Fin 0\<rparr>"

definition tiny_ser :: "DetectionEvent \<Rightarrow> byte list" where
  "tiny_ser d = [ucast (seq d)]"

definition tiny_prs :: "byte list \<Rightarrow> DetectionEvent" where
  "tiny_prs bs = demo_event (ucast (hd bs))"

definition after_publish :: "bool \<Rightarrow> u64 \<Rightarrow> connection \<Rightarrow> connection" where
  "after_publish ok n c =
     (if ok then log_event (Acked n) ((advance n (log_event (Published n) (c\<lparr>kafka_published := kafka_published c + 1\<rparr>)))
        \<lparr>max_transit_ns := max (max_transit_ns c) 60\<rparr>)
      else log_event (Unpublished n) (c\<lparr>kafka_failed := kafka_failed c + 1\<rparr>))"

lemma calm_detection:
  assumes "device_id c \<noteq> []" "\<not> n \<le> last_seq c" "f (device_id c) [] w = (ok, w')"
  shows "handle calm_platform (broker_only f) (MDetection (demo_event n)) \<lparr>conn = c, rate_limiters = L, world = w\<rparr> =
    Continue \<lparr>conn = after_publish ok n c, rate_limiters = L, world = w'\<rparr>"
proof -
  have s: "seq (demo_event n) = n" "label (demo_event n) = []" "emit_time_unix_ns (demo_event n) = 40" by (simp_all add: demo_event_def)
  let ?s = "\<lparr>conn = c, rate_limiters = L, world = w\<rparr>"
  let ?p = "log_event (Published n) (c\<lparr>kafka_published := kafka_published c + 1\<rparr>)"
  have 1: "CheckRateLimit calm_platform (broker_only f) k ?s = Some (True, ?s)" for k
    by (simp add: CheckRateLimit_def broker_only_def)
  have 2: "publish calm_platform (broker_only f) (demo_event n) ?s = (ok, \<lparr>conn = if ok then ?p else
      log_event (Unpublished n) (c\<lparr>kafka_failed := kafka_failed c + 1\<rparr>), rate_limiters = L, world = w'\<rparr>)"
    by (simp add: publish_def broker_only_def calm_platform_def assms(3) s upd_def)
  have 3: "max_transit_ns (advance n ?p) = max_transit_ns c" by (simp add: advance_def Let_def log_event_def)
  have 4: "accept calm_platform (broker_only f) (demo_event n) \<lparr>conn = ?p, rate_limiters = L, world = w'\<rparr> =
      Some \<lparr>conn = (advance n ?p)\<lparr>max_transit_ns := max (max_transit_ns c) 60\<rparr>, rate_limiters = L, world = w'\<rparr>"
    using 3 by (simp add: accept_def calm_platform_def broker_only_def alert_def s upd_def)
  have 5: "stream_Write calm_platform m w = (True, w)" for m and w :: 'a by (simp add: calm_platform_def)
  show ?thesis
    using assms(1,2) by (cases ok) (simp_all add: on_detection_def 1 2 4 5 s write_ack_def after_publish_def upd_def)
qed

definition two_events :: agent where
  "two_events = emit tiny_ser (demo_event 0) (emit tiny_ser (demo_event 0) (agent_start demo_options (0, [])))"

definition scene :: "agent \<Rightarrow> connection \<Rightarrow> 'w \<Rightarrow> AgentMessage list \<Rightarrow> u64 list \<Rightarrow> DetectionEvent list \<Rightarrow> 'w system" where
  "scene a c w ms ns ds = \<lparr>edge = a, server = \<lparr>conn = c, rate_limiters = Map.empty, world = w\<rparr>, streaming = True, writable = True,
     last_sent_seq = 2, up = ms, down = ns, emitted = [demo_event 1, demo_event 2], delivered = ds\<rparr>"

definition scene_hello :: Hello where
  "scene_hello = make_hello demo_options ''1.0'' two_events"

definition scene_conn :: connection where
  "scene_conn = new_connection\<lparr>device_id := ''cam-0001'', trace := [Resumed 0]\<rparr>"

lemma two_events_sel:
  "outbox two_events = [(1, [1]), (2, [2])]" "alog two_events = (0, [(1, [1]), (2, [2])])" "next_seq two_events = 3"
  by (simp_all add: two_events_def emit_def Let_def agent_start_def tiny_ser_def Outbox_Push_def unacked_def word_less_nat_alt)

lemma demo_event_seq: "(demo_event k)\<lparr>seq := n\<rparr> = demo_event n"
  by (simp add: demo_event_def)

lemma scene_opened:
  "system_reach E I tiny_ser tiny_prs demo_options
    (scene two_events new_connection w [MHello scene_hello, MDetection (demo_event 1), MDetection (demo_event 2)] [] [])"
proof -
  let ?R = "system_reach E I tiny_ser tiny_prs demo_options" and ?S = "system_start demo_options Map.empty w"
  let ?S1 = "?S\<lparr>edge := emit tiny_ser (demo_event 0) (edge ?S), emitted := emitted ?S @ [(demo_event 0)\<lparr>seq := next_seq (edge ?S)\<rparr>]\<rparr>"
  let ?S2 = "?S1\<lparr>edge := emit tiny_ser (demo_event 0) (edge ?S1), emitted := emitted ?S1 @ [(demo_event 0)\<lparr>seq := next_seq (edge ?S1)\<rparr>]\<rparr>"
  have n: "next_seq (edge ?S) = 1" "next_seq (edge ?S1) = 2" by (simp_all add: system_start_def agent_start_def emit_def Let_def)
  have r1: "?R ?S1" by (rule sys_more[OF sys_init sys_emit]) (simp add: n)
  have r2: "?R ?S2" by (rule sys_more[OF r1 sys_emit]) (use n(2) in simp)
  have e: "edge ?S2 = two_events" by (simp add: system_start_def two_events_def)
  have o: "open_stream tiny_prs demo_options ''1.0'' 3 (edge ?S2) =
      ([MHello scene_hello, MDetection (demo_event 1), MDetection (demo_event 2)], 2, 0, True)"
    unfolding e by (simp add: open_stream_def Snapshot_def two_events_sel scene_hello_def tiny_prs_def numeral_3_eq_3 max_def)
  have st: "\<not> streaming ?S2" by (simp add: system_start_def)
  have "scene two_events new_connection w [MHello scene_hello, MDetection (demo_event 1), MDetection (demo_event 2)] [] [] =
      ?S2\<lparr>server := (server ?S2)\<lparr>conn := new_connection\<rparr>, streaming := True, writable := True, last_sent_seq := 2,
        up := [MHello scene_hello, MDetection (demo_event 1), MDetection (demo_event 2)], down := []\<rparr>"
    using n by (simp add: scene_def e[symmetric] demo_event_seq) (simp add: system_start_def)
  then show ?thesis using sys_more[OF r2 sys_open[OF st o]] by simp
qed

lemma scene_serve:
  assumes "system_reach E I tiny_ser tiny_prs demo_options (scene a c w (m # ms) ns ds)"
    "handle E I m \<lparr>conn = c, rate_limiters = Map.empty, world = w\<rparr> = Continue \<lparr>conn = c', rate_limiters = Map.empty, world = w'\<rparr>"
    "trace c' = trace c @ evs"
  shows "system_reach E I tiny_ser tiny_prs demo_options (scene a c' w' ms (ns @ acks_in evs) (ds @ taken m evs))"
proof -
  have s: "server (scene a c w (m # ms) ns ds) = \<lparr>conn = c, rate_limiters = Map.empty, world = w\<rparr>"
    "streaming (scene a c w (m # ms) ns ds)" "up (scene a c w (m # ms) ns ds) = m # ms" by (simp_all add: scene_def)
  show ?thesis
    using sys_more[OF assms(1) sys_serve[OF s(2,3), of E I, unfolded s(1), OF assms(2)]] assms(3)
    by (simp add: scene_def new_events_def)
qed

lemma scene_ack:
  assumes "system_reach E I tiny_ser tiny_prs demo_options (scene a c w ms (n # ns) ds)"
  shows "system_reach E I tiny_ser tiny_prs demo_options (scene (on_ack n a) c w ms ns ds)"
proof -
  have s: "streaming (scene a c w ms (n # ns) ds)" "down (scene a c w ms (n # ns) ds) = n # ns" by (simp_all add: scene_def)
  show ?thesis using sys_more[OF assms sys_ack[OF s]] by (simp add: scene_def)
qed

lemma scene_greeted:
  "system_reach calm_platform (broker_only f) tiny_ser tiny_prs demo_options
    (scene two_events scene_conn w [MDetection (demo_event 1), MDetection (demo_event 2)] [] [])"
proof -
  have h: "handle calm_platform (broker_only f) (MHello scene_hello) \<lparr>conn = new_connection, rate_limiters = Map.empty, world = w\<rparr> =
      Continue \<lparr>conn = scene_conn, rate_limiters = Map.empty, world = w\<rparr>"
    by (simp add: on_hello_def scene_hello_def make_hello_def demo_options_def default_options_def calm_platform_def upd_def
        log_event_def new_connection_def scene_conn_def two_events_sel)
  have "trace scene_conn = trace new_connection @ [Resumed 0]" by (simp add: scene_conn_def new_connection_def)
  then show ?thesis using scene_serve[OF scene_opened h] by simp
qed

lemma scene_detection:
  assumes "system_reach calm_platform (broker_only f) tiny_ser tiny_prs demo_options (scene a c w (MDetection (demo_event n) # ms) ns ds)"
    "device_id c \<noteq> []" "\<not> n \<le> last_seq c" "f (device_id c) [] w = (ok, w')"
  shows "system_reach calm_platform (broker_only f) tiny_ser tiny_prs demo_options
    (scene a (after_publish ok n c) w' ms (if ok then ns @ [n] else ns) (if ok then ds @ [demo_event n] else ds))"
proof -
  have "seq (demo_event n) = n" by (simp add: demo_event_def)
  moreover have "trace (after_publish ok n c) = trace c @ (if ok then [Published n, Accepted n, Acked n] else [Unpublished n])"
    by (simp add: after_publish_def)
  ultimately show ?thesis
    using scene_serve[OF assms(1) calm_detection[OF assms(2,3), of f, OF assms(4)]] by (cases ok) auto
qed

lemma after_publish_sel:
  "device_id (after_publish ok n c) = device_id c" "last_seq (after_publish ok n c) = (if ok then n else last_seq c)"
  by (simp_all add: after_publish_def)

lemma scene_conn_sel: "device_id scene_conn = ''cam-0001''" "last_seq scene_conn = 0"
  by (simp_all add: scene_conn_def new_connection_def)

lemma acked_two: "outbox (on_ack 2 two_events) = []" "alog (on_ack 2 two_events) = (2, [])"
  by (simp_all add: on_ack_def two_events_sel unacked_def word_less_nat_alt word_le_nat_alt)

lemma scene_ends:
  assumes "f ''cam-0001'' [] w = (ok, w')" "f ''cam-0001'' [] w' = (True, w'')"
  shows "\<exists>S. system_reach calm_platform (broker_only f) tiny_ser tiny_prs demo_options S \<and>
    emitted S = [demo_event 1, demo_event 2] \<and> delivered S = (if ok then [demo_event 1, demo_event 2] else [demo_event 2]) \<and>
    outbox (edge S) = [] \<and> alog (edge S) = (2, [])"
proof -
  let ?R = "system_reach calm_platform (broker_only f) tiny_ser tiny_prs demo_options"
  let ?c1 = "after_publish ok 1 scene_conn" and ?c2 = "after_publish True 2 (after_publish ok 1 scene_conn)"
  have r1: "?R (scene two_events ?c1 w' [MDetection (demo_event 2)] (if ok then [] @ [1] else []) (if ok then [] @ [demo_event 1] else []))"
    by (rule scene_detection[OF scene_greeted[of f w]]) (simp_all add: scene_conn_sel assms(1) word_le_nat_alt)
  have r2: "?R (scene two_events ?c2 w'' [] (if ok then [1, 2] else [2]) (if ok then [demo_event 1, demo_event 2] else [demo_event 2]))"
    using scene_detection[OF r1, of True w''] by (cases ok) (simp_all add: after_publish_sel scene_conn_sel assms(2) word_le_nat_alt)
  show ?thesis
  proof (cases ok)
    case True
    with r2 have "?R (scene (on_ack 2 (on_ack 1 two_events)) ?c2 w'' [] [] [demo_event 1, demo_event 2])"
      by (auto dest!: scene_ack)
    moreover have "outbox (on_ack 2 (on_ack 1 two_events)) = []" "alog (on_ack 2 (on_ack 1 two_events)) = (2, [])"
      by (simp_all add: on_ack_def two_events_sel unacked_def word_less_nat_alt word_le_nat_alt)
    ultimately show ?thesis using True by (intro exI conjI) (assumption, simp_all add: scene_def)
  next
    case False
    with r2 have "?R (scene (on_ack 2 two_events) ?c2 w'' [] [] [demo_event 2])" by (auto dest!: scene_ack)
    then show ?thesis using False acked_two by (intro exI conjI) (assumption, simp_all add: scene_def)
  qed
qed

theorem end_to_end_no_loss_witness:
  "\<exists>S :: unit system. system_reach calm_platform (broker_only (\<lambda>_ _ w. (True, w))) tiny_ser tiny_prs demo_options S \<and>
     emitted S = [demo_event 1, demo_event 2] \<and>
     (\<forall>d\<in>set (emitted S). d \<in> set (delivered S) \<or>
        (seq d, tiny_ser d) \<in> set (outbox (edge S)) \<and> (seq d, tiny_ser d) \<in> set (snd (alog (edge S))))"
proof -
  obtain S :: "unit system" where S: "system_reach calm_platform (broker_only (\<lambda>_ _ w. (True, w))) tiny_ser tiny_prs demo_options S"
    "emitted S = [demo_event 1, demo_event 2]"
    using scene_ends[of "\<lambda>_ _ w. (True, w)" "()"] by auto
  have nr: "never_rejects (broker_only (\<lambda>_ _ w. (True, w :: unit)))" by (simp add: never_rejects_def broker_only_def)
  have p: "tiny_prs (tiny_ser d) = d" if "d \<in> set (emitted S)" for d
    using that by (auto simp: S(2) tiny_prs_def tiny_ser_def demo_event_def)
  show ?thesis using S end_to_end_no_loss[OF S(1) nr p] by blast
qed

text \<open>
  C16: when the broker refuses one event and takes the next, the acknowledgement of the next covers both:
  there is a run in which a committed event was never accepted by the gateway and is in neither the
  outbox nor the log, so it is never sent again.
\<close>

theorem refused_event_is_lost:
  "\<exists>(S :: nat system) d. system_reach calm_platform (broker_only (\<lambda>_ _ w. (w \<noteq> 0, Suc w))) tiny_ser tiny_prs demo_options S \<and>
     d \<in> set (emitted S) \<and> d \<notin> set (delivered S) \<and> outbox (edge S) = [] \<and> alog (edge S) = (2, [])"
proof -
  have "\<exists>S :: nat system. system_reach calm_platform (broker_only (\<lambda>_ _ w. (w \<noteq> 0, Suc w))) tiny_ser tiny_prs demo_options S \<and>
    emitted S = [demo_event 1, demo_event 2] \<and> delivered S = (if False then [demo_event 1, demo_event 2] else [demo_event 2]) \<and>
    outbox (edge S) = [] \<and> alog (edge S) = (2, [])"
    by (rule scene_ends[where w = 0 and w' = 1 and w'' = 2]) simp_all
  then obtain S :: "nat system" where "system_reach calm_platform (broker_only (\<lambda>_ _ w. (w \<noteq> 0, Suc w))) tiny_ser tiny_prs demo_options S"
    "emitted S = [demo_event 1, demo_event 2]" "delivered S = [demo_event 2]" "outbox (edge S) = []" "alog (edge S) = (2, [])"
    by (auto simp del: neq0_conv)
  moreover have "demo_event 1 \<noteq> demo_event 2" by (simp add: demo_event_def)
  ultimately show ?thesis by (intro exI[of _ S] exI[of _ "demo_event 1"]) simp
qed

section \<open>Configuration\<close>

text \<open>What reaches the agent's configuration: an update from the gateway, or a producer applying the pending one.\<close>

datatype config_op = Receive ConfigUpdate | ApplyVideo | ApplyFake

fun config_step :: "agent \<Rightarrow> config_op \<Rightarrow> agent" where
  "config_step a (Receive cfg) = on_gateway_message (MConfig cfg) a"
| "config_step a ApplyVideo = apply_config_video a"
| "config_step a ApplyFake = apply_config_fake a"

fun newest :: "config_op list \<Rightarrow> u64" where
  "newest [] = 0"
| "newest (Receive cfg # ops) = max (cfg_version cfg) (newest ops)"
| "newest (_ # ops) = newest ops"

definition config_ok :: "u64 \<Rightarrow> agent \<Rightarrow> bool" where
  "config_ok v a \<longleftrightarrow> cfg_version (pending_config a) = v \<and>
     (if pending_config_set a then a_applied_config_version a \<le> v else a_applied_config_version a = v)"

lemma config_step_ok: "config_ok v a \<Longrightarrow> config_ok (max v (newest [op])) (config_step a op)"
  by (cases op) (auto simp: config_ok_def on_config_def apply_config_video_def apply_config_fake_def Let_def max_def split: if_splits)

lemma newest_Cons: "newest (op # ops) = max (newest [op]) (newest ops)"
  by (cases op) (auto simp: max_def)

lemma config_steps_ok: "config_ok v a \<Longrightarrow> config_ok (max v (newest ops)) (foldl config_step a ops)"
proof (induction ops arbitrary: v a)
  case (Cons op ops)
  then show ?case using Cons.IH[OF config_step_ok[OF Cons.prems, of op]] by (simp add: newest_Cons[of op ops] max.assoc)
qed (simp add: max_def)

lemma applied_version: "config_ok v a \<Longrightarrow> a_applied_config_version (apply_config_video a) = v"
  by (auto simp: config_ok_def apply_config_video_def Let_def)

lemma newest_ge: "Receive cfg \<in> set ops \<Longrightarrow> cfg_version cfg \<le> newest ops"
  by (induction ops rule: newest.induct) (auto simp: le_max_iff_disj)

text \<open>
  C18: whatever updates an agent received since it started, in any order and with repetitions, and
  however the producer's polls fell between them, the next poll leaves the newest version applied; and
  once the desired configuration is among those received, the gateway answers the agent's
  heartbeats without pushing it again.
\<close>

theorem config_reconciles:
  assumes "a = apply_config_video (foldl config_step (agent_start opt l) ops)"
    "LoadDesiredConfigs (open_file E (desired_configs_path I) (world s)) (device_id (conn s)) = Some cfg" "Receive cfg \<in> set ops"
  shows "a_applied_config_version a = newest ops \<and> push_config E I (make_heartbeat now a) s = Continue s"
proof -
  have "config_ok 0 (agent_start opt l)" by (simp add: config_ok_def agent_start_def empty_config_def split: prod.split)
  then have "config_ok (newest ops) (foldl config_step (agent_start opt l) ops)" using config_steps_ok by fastforce
  then have v: "a_applied_config_version a = newest ops" unfolding assms(1) by (rule applied_version)
  then have "\<not> applied_config_version (make_heartbeat now a) < cfg_version cfg"
    using newest_ge[OF assms(3)] by (simp add: make_heartbeat_def not_less)
  then show ?thesis using assms(2) v by (simp add: push_config_def)
qed

definition config_platform :: "unit platform" where
  "config_platform = demo_platform\<lparr>open_file := (\<lambda>_ _. Some ''cam,7,3,5,1,10'')\<rparr>"

definition config_integrations :: "unit GatewayIntegrations" where
  "config_integrations = demo_integrations\<lparr>desired_configs_path := ''desired.csv''\<rparr>"

lemma config_platform_file: "\<exists>cfg. LoadDesiredConfigs (open_file config_platform path ()) ''cam'' = Some cfg"
proof -
  have l: "file_lines (Some ''cam,7,3,5,1,10'') = [''cam,7,3,5,1,10'']" by (simp add: file_lines.simps)
  have six: "6 = Suc (Suc (Suc (Suc (Suc (Suc 0)))))" by simp
  have f: "line_fields 6 (Some ''cam,7,3,5,1,10'') = Some [''cam'', ''7'', ''3'', ''5'', ''1'', ''10'']" unfolding six by simp
  then show ?thesis by (simp add: config_platform_def demo_platform_def LoadDesiredConfigs_def l del: line_fields.simps)
qed

theorem config_reconciles_witness:
  "\<exists>cfg a. LoadDesiredConfigs (open_file config_platform (desired_configs_path config_integrations) ()) ''cam'' = Some cfg \<and>
     a = apply_config_video (foldl config_step (agent_start demo_options (0, [])) [Receive cfg, Receive empty_config]) \<and>
     a_applied_config_version a = newest [Receive cfg, Receive empty_config] \<and>
     push_config config_platform config_integrations (make_heartbeat 0 a) \<lparr>conn = demo_greeted, rate_limiters = Map.empty, world = ()\<rparr> =
       Continue \<lparr>conn = demo_greeted, rate_limiters = Map.empty, world = ()\<rparr>"
proof -
  obtain cfg where cfg: "LoadDesiredConfigs (open_file config_platform (desired_configs_path config_integrations) ()) ''cam'' = Some cfg"
    using config_platform_file by blast
  have "device_id demo_greeted = ''cam''" by (simp add: demo_greeted_def)
  then show ?thesis
    using cfg config_reconciles[OF refl, of config_platform config_integrations "\<lparr>conn = demo_greeted, rate_limiters = Map.empty, world = ()\<rparr>"
        cfg "[Receive cfg, Receive empty_config]" demo_options "(0, [])" 0] by auto
qed

end
