(* ===== verification/GatewayMain.thy ===== *)
theory GatewayMain
  imports Gateway Kafka
begin

text \<open>
  The start of the gateway process, \<open>main\<close> of gateway/src/main.cc: the command line, the
  construction of the integrations and the listening port, in a build with every optional
  integration.  Constructors of the client libraries, the file system and the gRPC server are
  parameters.
\<close>

section \<open>Command line\<close>

record gateway_options =
  listen :: string
  log_events :: bool
  tls_ca :: string
  tls_cert :: string
  tls_key :: string
  device_configs_path :: string
  weather_lat :: fp
  weather_lon :: fp
  weather_enabled :: bool
  weather_refresh_s :: int
  opt_rate_limit_capacity :: fp
  opt_rate_limit_tokens_per_second :: fp
  kafka_brokers :: string
  kafka_topic :: string
  kafka_timeout_ms :: int
  redis_host :: string
  redis_port :: int
  dynamodb_endpoint :: string
  dynamodb_table :: string
  dynamodb_region :: string
  dynamodb_access_key :: string
  dynamodb_secret_key :: string

definition default_gateway_options :: gateway_options where
  "default_gateway_options =
     \<lparr>listen = ''0.0.0.0:50051'', log_events = False, tls_ca = [], tls_cert = [], tls_key = [], device_configs_path = [],
      weather_lat = Fin 0, weather_lon = Fin 0, weather_enabled = False, weather_refresh_s = 300,
      opt_rate_limit_capacity = Fin 0, opt_rate_limit_tokens_per_second = Fin 0,
      kafka_brokers = [], kafka_topic = ''detections.v1'', kafka_timeout_ms = 5000, redis_host = [], redis_port = 6379,
      dynamodb_endpoint = [], dynamodb_table = ''device_shadows'', dynamodb_region = ''us-west-2'',
      dynamodb_access_key = ''local'', dynamodb_secret_key = ''local''\<rparr>"

text \<open>
  The flags that carry a value, in the order the code tests them, with what each sets; no flag
  is a prefix of another, so the order does not matter, but it is kept.
\<close>

definition gateway_flags :: "(string \<times> (string \<Rightarrow> gateway_options \<Rightarrow> gateway_options)) list" where
  "gateway_flags =
    [(''--listen='', \<lambda>v r. r\<lparr>listen := v\<rparr>),
     (''--tls-ca='', \<lambda>v r. r\<lparr>tls_ca := v\<rparr>),
     (''--tls-cert='', \<lambda>v r. r\<lparr>tls_cert := v\<rparr>),
     (''--tls-key='', \<lambda>v r. r\<lparr>tls_key := v\<rparr>),
     (''--device-configs='', \<lambda>v r. r\<lparr>device_configs_path := v\<rparr>),
     (''--weather-lat='', \<lambda>v r. r\<lparr>weather_lat := atof v, weather_enabled := True\<rparr>),
     (''--weather-lon='', \<lambda>v r. r\<lparr>weather_lon := atof v, weather_enabled := True\<rparr>),
     (''--weather-refresh-s='', \<lambda>v r. r\<lparr>weather_refresh_s := atoi v\<rparr>),
     (''--rate-limit-capacity='', \<lambda>v r. r\<lparr>opt_rate_limit_capacity := atof v\<rparr>),
     (''--rate-limit-per-second='', \<lambda>v r. r\<lparr>opt_rate_limit_tokens_per_second := atof v\<rparr>),
     (''--kafka-brokers='', \<lambda>v r. r\<lparr>kafka_brokers := v\<rparr>),
     (''--kafka-topic='', \<lambda>v r. r\<lparr>kafka_topic := v\<rparr>),
     (''--kafka-timeout-ms='', \<lambda>v r. r\<lparr>kafka_timeout_ms := atoi v\<rparr>),
     (''--redis-host='', \<lambda>v r. r\<lparr>redis_host := v\<rparr>),
     (''--redis-port='', \<lambda>v r. r\<lparr>redis_port := atoi v\<rparr>),
     (''--dynamodb-endpoint='', \<lambda>v r. r\<lparr>dynamodb_endpoint := v\<rparr>),
     (''--dynamodb-table='', \<lambda>v r. r\<lparr>dynamodb_table := v\<rparr>),
     (''--dynamodb-region='', \<lambda>v r. r\<lparr>dynamodb_region := v\<rparr>),
     (''--dynamodb-access-key='', \<lambda>v r. r\<lparr>dynamodb_access_key := v\<rparr>),
     (''--dynamodb-secret-key='', \<lambda>v r. r\<lparr>dynamodb_secret_key := v\<rparr>)]"

fun parse_gateway_args :: "string list \<Rightarrow> gateway_options \<Rightarrow> gateway_options option" where
  "parse_gateway_args [] r = Some r"
| "parse_gateway_args (a # as) r =
     (if a = ''--log-events'' then parse_gateway_args as (r\<lparr>log_events := True\<rparr>)
      else case apply_flag gateway_flags a r of
             None \<Rightarrow> None
           | Some r' \<Rightarrow> parse_gateway_args as r')"

section \<open>Construction\<close>

text \<open>
  The client libraries and the server: each constructor answers \<open>None\<close> when it throws (the
  DynamoDB store and the weather cache do no I/O when built).  A Kafka producer is what librdkafka creates
  from the settings the code passes; given a topic it publishes.
\<close>

record 'w libraries =
  kafka_conf_set :: "string \<Rightarrow> string \<Rightarrow> bool"
  kafka_dr_cb_set :: bool
  kafka_create :: "(string \<times> string) list \<Rightarrow> (string \<Rightarrow> string \<Rightarrow> string \<Rightarrow> 'w \<Rightarrow> bool \<times> 'w) option"
  new_redis :: "RedisConfig \<Rightarrow> (string \<Rightarrow> DeviceHotState \<Rightarrow> 'w \<Rightarrow> bool \<times> 'w) option"
  new_shadow_store :: "DynamoDbConfig \<Rightarrow> string \<Rightarrow> string \<Rightarrow> 'w \<Rightarrow> put_outcome \<times> 'w"
  new_weather_cache :: "fp \<Rightarrow> fp \<Rightarrow> int \<Rightarrow> 'w \<Rightarrow> WeatherConditions option"
  read_pem :: "string \<Rightarrow> string option"
  build_and_start :: "string \<Rightarrow> (string \<times> string \<times> string) option \<Rightarrow> bool"

datatype 'w startup =
  ExitCode int
| Serving "'w GatewayIntegrations" string "(string \<times> string \<times> string) option"

definition redis_config :: "gateway_options \<Rightarrow> RedisConfig" where
  "redis_config r = \<lparr>host = redis_host r, port = redis_port r, connect_timeout_ms = 2000, command_timeout_ms = 1000\<rparr>"

definition kafka_config :: "gateway_options \<Rightarrow> KafkaProducerConfig" where
  "kafka_config r = default_kafka_config\<lparr>brokers := kafka_brokers r, topic := kafka_topic r, delivery_timeout_ms := kafka_timeout_ms r\<rparr>"

definition dynamodb_config :: "gateway_options \<Rightarrow> DynamoDbConfig" where
  "dynamodb_config r = \<lparr>endpoint = dynamodb_endpoint r, table_name = dynamodb_table r,
     creds = \<lparr>access_key_id = dynamodb_access_key r, secret_access_key = dynamodb_secret_key r,
              region = dynamodb_region r, service = ''dynamodb''\<rparr>\<rparr>"

text \<open>\<open>None\<close>: Kafka was asked for and could not be built.  A missing Redis is tolerated.\<close>

definition make_integrations :: "'w libraries \<Rightarrow> gateway_options \<Rightarrow> 'w GatewayIntegrations option" where
  "make_integrations B r =
     (let rest = (\<lambda>k. Some \<lparr>kafka = k,
            redis = (if redis_host r = [] then None else new_redis B (redis_config r)),
            shadow_store = (if dynamodb_endpoint r = [] then None else Some (new_shadow_store B (dynamodb_config r))),
            desired_configs_path = device_configs_path r,
            weather_cache = (if weather_enabled r
               then Some (new_weather_cache B (weather_lat r) (weather_lon r) (max (weather_refresh_s r) 1)) else None),
            rate_limit_capacity = opt_rate_limit_capacity r,
            rate_limit_tokens_per_second = opt_rate_limit_tokens_per_second r\<rparr>)
      in if kafka_brokers r = [] then rest None
         else (case make_producer (kafka_conf_set B) (kafka_dr_cb_set B) (kafka_create B) (kafka_config r) of
                 Inl key \<Rightarrow> None | Inr p \<Rightarrow> rest (Some (p (topic (kafka_config r))))))"

text \<open>The port: \<open>Inl\<close> is the exit code, \<open>Inr None\<close> a plaintext port, \<open>Inr (Some _)\<close> mutual TLS.\<close>

definition credentials :: "'w libraries \<Rightarrow> gateway_options \<Rightarrow> int + (string \<times> string \<times> string) option" where
  "credentials B r =
     (if tls_ca r \<noteq> [] \<or> tls_cert r \<noteq> [] \<or> tls_key r \<noteq> [] then
        if tls_ca r = [] \<or> tls_cert r = [] \<or> tls_key r = [] then Inl 2
        else (case (read_pem B (tls_ca r), read_pem B (tls_key r), read_pem B (tls_cert r)) of
                (Some ca, Some key, Some cert) \<Rightarrow> Inr (Some (ca, key, cert))
              | _ \<Rightarrow> Inl 1)
      else Inr None)"

definition gateway_main :: "'w libraries \<Rightarrow> string list \<Rightarrow> 'w startup" where
  "gateway_main B args =
     (case parse_gateway_args args default_gateway_options of
        None \<Rightarrow> ExitCode 2
      | Some r \<Rightarrow>
          (case make_integrations B r of
             None \<Rightarrow> ExitCode 1
           | Some I \<Rightarrow>
               (case credentials B r of
                  Inl code \<Rightarrow> ExitCode code
                | Inr tls \<Rightarrow> if build_and_start B (listen r) tls then Serving I (listen r) tls else ExitCode 1)))"

section \<open>Properties\<close>

lemma make_integrations_kafka:
  "make_integrations B r = Some I \<Longrightarrow> (kafka I = None \<longleftrightarrow> kafka_brokers r = []) \<and> (redis I \<noteq> None \<longrightarrow> redis_host r \<noteq> [])"
  by (auto simp: make_integrations_def Let_def split: if_splits sum.splits)

lemma make_integrations_producer:
  assumes "make_integrations B r = Some I" "kafka I = Some f"
  shows "\<exists>p. kafka_create B (kafka_settings (kafka_config r)) = Some p \<and> f = p (kafka_topic r)"
proof -
  obtain p where p: "make_producer (kafka_conf_set B) (kafka_dr_cb_set B) (kafka_create B) (kafka_config r) = Inr p" "f = p (topic (kafka_config r))"
    using assms by (auto simp: make_integrations_def Let_def split: if_splits sum.splits)
  then show ?thesis by (auto simp: make_producer_Inr kafka_config_def)
qed

lemma credentials_tls:
  "credentials B r = Inr tls \<Longrightarrow> tls = None \<longleftrightarrow> tls_ca r = [] \<and> tls_cert r = [] \<and> tls_key r = []"
  by (auto simp: credentials_def split: if_splits option.splits)

text \<open>
  C40: the gateway does not come up weaker than it was asked to.  It serves a plaintext port only
  if no TLS file was named at all, and without Kafka only if no broker was named: a partial TLS
  configuration, an unreadable key or a producer that cannot be built end the process instead.
  The producer was created for the named brokers with \<open>acks=all\<close>.  Only Redis may be dropped.
\<close>
theorem gateway_serves_as_configured:
  assumes "parse_gateway_args args default_gateway_options = Some r" "gateway_main B args = Serving I address tls"
  shows "(tls = None \<longleftrightarrow> tls_ca r = [] \<and> tls_cert r = [] \<and> tls_key r = []) \<and>
    (kafka I = None \<longleftrightarrow> kafka_brokers r = []) \<and> (redis I \<noteq> None \<longrightarrow> redis_host r \<noteq> []) \<and> address = listen r \<and>
    (\<forall>f. kafka I = Some f \<longrightarrow> (\<exists>p. f = p (kafka_topic r) \<and> kafka_create B [(''bootstrap.servers'', kafka_brokers r), (''acks'', ''all''),
       (''message.timeout.ms'', show_int (kafka_timeout_ms r))] = Some p))"
proof -
  obtain I' where I': "make_integrations B r = Some I'" "credentials B r = Inr tls" "I' = I" "address = listen r"
    using assms by (auto simp: gateway_main_def split: option.splits sum.splits if_splits)
  moreover have "kafka_settings (kafka_config r) = [(''bootstrap.servers'', kafka_brokers r), (''acks'', ''all''),
       (''message.timeout.ms'', show_int (kafka_timeout_ms r))]"
    by (simp add: kafka_settings_def kafka_config_def default_kafka_config_def)
  ultimately show ?thesis using make_integrations_kafka credentials_tls make_integrations_producer[OF I'(1)] by metis
qed

definition demo_libraries :: "unit libraries" where
  "demo_libraries = \<lparr>kafka_conf_set = (\<lambda>_ _. True), kafka_dr_cb_set = True, kafka_create = (\<lambda>_. Some (\<lambda>_ _ _ w. (True, w))), new_redis = (\<lambda>_. None),
     new_shadow_store = (\<lambda>_ _ _ w. (PutReturns kSuccess, w)), new_weather_cache = (\<lambda>_ _ _ _. None),
     read_pem = Some, build_and_start = (\<lambda>_ _. True)\<rparr>"

theorem gateway_serves_as_configured_witness:
  "\<exists>I. gateway_main demo_libraries [''--kafka-brokers=b:9092'', ''--tls-ca=c'', ''--tls-cert=d'', ''--tls-key=k''] =
      Serving I ''0.0.0.0:50051'' (Some (''c'', ''k'', ''d'')) \<and> kafka I \<noteq> None"
proof -
  let ?args = "[''--kafka-brokers=b:9092'', ''--tls-ca=c'', ''--tls-cert=d'', ''--tls-key=k'']"
  let ?r = "default_gateway_options\<lparr>kafka_brokers := ''b:9092'', tls_ca := ''c'', tls_cert := ''d'', tls_key := ''k''\<rparr>"
  have p: "parse_gateway_args ?args default_gateway_options = Some ?r"
    by (simp add: gateway_flags_def arg_value_def default_gateway_options_def)
  obtain I where "gateway_main demo_libraries ?args = Serving I ''0.0.0.0:50051'' (Some (''c'', ''k'', ''d''))"
    unfolding gateway_main_def p
    by (simp add: make_integrations_def credentials_def demo_libraries_def default_gateway_options_def Let_def make_producer_def
        kafka_settings_def)
  moreover have "kafka I \<noteq> None"
    using gateway_serves_as_configured[OF p calculation] by (simp add: default_gateway_options_def)
  ultimately show ?thesis by blast
qed

end
