(* ===== verification/Demo.thy ===== *)
theory Demo
  imports Shadow Weather
begin

text \<open>
  The public demo behind a Lambda function, demo/lambda/src: the request handler
  (demo_handler_core.cc), the event table in DynamoDB (dynamo_demo_writer.cc) and the dispatch on the
  invocation (handler.cc).  The JSON library, the HTTP transport, the weather service and the Lambda
  runtime are parameters.
\<close>

section \<open>Numbers as text\<close>

text \<open>\<open>std::to_string\<close> of a floating-point number: six decimals, correctly rounded.\<close>

definition pad6 :: "string \<Rightarrow> string" where
  "pad6 s = replicate (6 - length s) (CHR ''0'') @ s"

fun to_string_fp :: "fp \<Rightarrow> string" where
  "to_string_fp (Fin x) =
     (let n = nat (round_even (\<bar>x\<bar> * 1000000))
      in (if x < 0 then ''-'' else '''') @ show_nat (n div 1000000) @ ''.'' @ pad6 (show_nat (n mod 1000000)))"
| "to_string_fp PInf = ''inf''"
| "to_string_fp NInf = ''-inf''"
| "to_string_fp NaN = ''nan''"

text \<open>\<open>std::stod\<close>: \<open>None\<close> when nothing converts or the value leaves the range of \<open>double\<close>.\<close>

definition has_number :: "string \<Rightarrow> bool" where
  "has_number cs \<longleftrightarrow> (case cs of
     [] \<Rightarrow> False
   | c # rest \<Rightarrow> is_digit c \<or> c = CHR ''.'' \<and> (case rest of [] \<Rightarrow> False | d # _ \<Rightarrow> is_digit d))"

definition out_of_range :: "rat \<Rightarrow> bool" where
  "out_of_range x \<longleftrightarrow> rnd binary64 x = PInf \<or> 0 < x \<and> x < 2 powi (- 1022) \<and> rnd binary64 x \<noteq> Fin x"

definition stod :: "string \<Rightarrow> fp option" where
  "stod s =
     (case read_sign (dropWhile is_space s) of (neg, cs) \<Rightarrow>
        let low = map to_lower (take 3 cs) in
        if low = ''inf'' \<or> low = ''nan'' then Some (atof s)
        else if \<not> has_number cs \<or> out_of_range (read_decimal cs) then None
        else Some (atof s))"

section \<open>Requests and events\<close>

record DemoRequest =
  req_confidence :: fp
  latitude :: fp
  longitude :: fp
  req_user_triggered :: bool

definition default_request :: DemoRequest where
  "default_request = \<lparr>req_confidence = Fin 0, latitude = rnd binary64 (3405/100), longitude = rnd binary64 (- 11824/100),
     req_user_triggered = False\<rparr>"

record DemoResponse =
  severity :: AlertSeverity
  weather_available :: bool
  resp_temperature_c :: fp
  resp_humidity_pct :: fp
  resp_wind_kmh :: fp
  recorded :: bool

record DemoEvent =
  event_id :: string
  timestamp_unix_ns :: int
  ev_confidence :: fp
  ev_severity :: string
  ev_temperature_c :: fp
  ev_humidity_pct :: fp
  ev_wind_kmh :: fp
  ev_weather_available :: bool
  ev_user_triggered :: bool

section \<open>The request handler\<close>

definition demo_event_of :: "DemoRequest \<Rightarrow> DemoResponse \<Rightarrow> int \<Rightarrow> DemoEvent" where
  "demo_event_of request response now_unix_ns =
     \<lparr>event_id = show_int now_unix_ns, timestamp_unix_ns = now_unix_ns, ev_confidence = req_confidence request,
      ev_severity = severity_ToString (severity response), ev_temperature_c = resp_temperature_c response,
      ev_humidity_pct = resp_humidity_pct response, ev_wind_kmh = resp_wind_kmh response,
      ev_weather_available = weather_available response, ev_user_triggered = req_user_triggered request\<rparr>"

text \<open>\<open>fetch\<close> is the weather client's \<open>FetchCurrent\<close>; a null writer is \<open>None\<close>.\<close>

definition HandleDemoRequest :: "DemoRequest \<Rightarrow> (fp \<Rightarrow> fp \<Rightarrow> WeatherConditions option) \<Rightarrow> (DemoEvent \<Rightarrow> 'w \<Rightarrow> bool \<times> 'w) option \<Rightarrow>
    int \<Rightarrow> 'w \<Rightarrow> DemoResponse \<times> 'w" where
  "HandleDemoRequest request fetch writer now_unix_ns w =
     (let weather = fetch (latitude request) (longitude request);
          r0 = (case weather of
                  None \<Rightarrow> \<lparr>severity = kNone, weather_available = False, resp_temperature_c = Fin 0, resp_humidity_pct = Fin 0,
                           resp_wind_kmh = Fin 0, recorded = False\<rparr>
                | Some c \<Rightarrow> \<lparr>severity = kNone, weather_available = True, resp_temperature_c = temperature_c c,
                             resp_humidity_pct = relative_humidity_pct c, resp_wind_kmh = wind_speed_kmh c, recorded = False\<rparr>);
          r1 = r0\<lparr>severity := ComputeAlertSeverity (req_confidence request) weather default_thresholds\<rparr>
      in case writer of
           None \<Rightarrow> (r1, w)
         | Some PutEvent \<Rightarrow> (case PutEvent (demo_event_of request r1 now_unix_ns) w of (ok, w') \<Rightarrow> (r1\<lparr>recorded := ok\<rparr>, w')))"

section \<open>The event table\<close>

text \<open>The documents the code builds, and the operations of the JSON library it applies to parsed ones.\<close>

datatype doc = DStr string | DBool bool | DInt int | DNum fp | DArr "doc list" | DObj "(string \<times> doc) list"

record 'j demo_json =
  dj_dump :: "doc \<Rightarrow> string"
  dj_parse :: "string \<Rightarrow> 'j option"
  dj_contains :: "'j \<Rightarrow> string \<Rightarrow> bool"
  dj_index :: "'j \<Rightarrow> string \<Rightarrow> 'j"
  dj_is_array :: "'j \<Rightarrow> bool"
  dj_is_string :: "'j \<Rightarrow> bool"
  dj_elements :: "'j \<Rightarrow> 'j list"
  dj_at :: "'j \<Rightarrow> string \<Rightarrow> 'j option"
  dj_string :: "'j \<Rightarrow> string option"
  dj_float :: "'j \<Rightarrow> fp option"
  dj_value_json :: "'j \<Rightarrow> string \<Rightarrow> 'j option"
  dj_value_bool :: "'j \<Rightarrow> string \<Rightarrow> bool option"
  dj_value_string :: "'j \<Rightarrow> string \<Rightarrow> string option"

record DynamoDemoWriter =
  dw_config :: DynamoDbConfig
  session_token :: string

definition demo_post :: "crypto \<Rightarrow> 'w transport \<Rightarrow> DynamoDemoWriter \<Rightarrow> int \<Rightarrow> string \<Rightarrow> string \<Rightarrow> 'w \<Rightarrow> HttpResponse \<times> 'w" where
  "demo_post C post wr unix_seconds target jbody w =
     (let host = HostFromEndpoint (endpoint (dw_config wr));
          h0 = map_set ''x-amz-target'' (''DynamoDB_20120810.'' @ target)
                 (map_set ''content-type'' ''application/x-amz-json-1.0'' []);
          headers_to_sign = (if session_token wr = [] then h0 else map_set ''x-amz-security-token'' (session_token wr) h0);
          signed_req = Sign C (creds (dw_config wr)) ''POST'' host ''/'' jbody headers_to_sign unix_seconds;
          headers = map_set ''authorization'' (authorization_header signed_req)
            (map_set ''x-amz-date'' (amz_date signed_req) headers_to_sign)
      in post (endpoint (dw_config wr)) jbody headers w)"

definition put_item :: "DemoEvent \<Rightarrow> doc" where
  "put_item e =
     DObj [(''event_id'', DObj [(''S'', DStr (event_id e))]),
           (''timestamp_unix_ns'', DObj [(''N'', DStr (show_int (timestamp_unix_ns e)))]),
           (''confidence'', DObj [(''N'', DStr (to_string_fp (ev_confidence e)))]),
           (''severity'', DObj [(''S'', DStr (ev_severity e))]),
           (''temperature_c'', DObj [(''N'', DStr (to_string_fp (ev_temperature_c e)))]),
           (''relative_humidity_pct'', DObj [(''N'', DStr (to_string_fp (ev_humidity_pct e)))]),
           (''wind_speed_kmh'', DObj [(''N'', DStr (to_string_fp (ev_wind_kmh e)))]),
           (''weather_available'', DObj [(''BOOL'', DBool (ev_weather_available e))]),
           (''user_triggered'', DObj [(''BOOL'', DBool (ev_user_triggered e))])]"

definition PutEvent :: "crypto \<Rightarrow> 'j demo_json \<Rightarrow> 'w transport \<Rightarrow> DynamoDemoWriter \<Rightarrow> int \<Rightarrow> DemoEvent \<Rightarrow> 'w \<Rightarrow> bool \<times> 'w" where
  "PutEvent C J post wr unix_seconds e w =
     (let jbody = dj_dump J (DObj [(''TableName'', DStr (table_name (dw_config wr))), (''Item'', put_item e)])
      in case demo_post C post wr unix_seconds ''PutItem'' jbody w of (resp, w') \<Rightarrow> (resp_status resp = 200, w'))"

text \<open>A numeric attribute of an item, 0 when it is missing or malformed.\<close>

definition ParseN :: "'j demo_json \<Rightarrow> 'j \<Rightarrow> string \<Rightarrow> fp" where
  "ParseN J attr_map key =
     (case dj_at J attr_map key of None \<Rightarrow> Fin 0 | Some a \<Rightarrow>
        (case dj_at J a ''N'' of None \<Rightarrow> Fin 0 | Some n \<Rightarrow>
           (case dj_string J n of None \<Rightarrow> Fin 0 | Some s \<Rightarrow>
              (case stod s of None \<Rightarrow> Fin 0 | Some v \<Rightarrow> v))))"

definition item_string :: "'j demo_json \<Rightarrow> 'j \<Rightarrow> string \<Rightarrow> string option" where
  "item_string J item key =
     (case dj_at J item key of None \<Rightarrow> None | Some a \<Rightarrow> (case dj_at J a ''S'' of None \<Rightarrow> None | Some s \<Rightarrow> dj_string J s))"

definition item_flag :: "'j demo_json \<Rightarrow> 'j \<Rightarrow> string \<Rightarrow> bool option" where
  "item_flag J item key = (case dj_value_json J item key of None \<Rightarrow> None | Some v \<Rightarrow> dj_value_bool J v ''BOOL'')"

text \<open>A row of the table: \<open>Inr None\<close> is a skipped row, \<open>Inl ()\<close> a time stamp that does not fit 64 bits.\<close>

definition parse_item :: "'j demo_json \<Rightarrow> 'j \<Rightarrow> unit + DemoEvent option" where
  "parse_item J item =
     (case (item_string J item ''event_id'', item_string J item ''severity'', item_flag J item ''weather_available'',
            item_flag J item ''user_triggered'') of
        (Some i, Some s, Some wa, Some ut) \<Rightarrow>
          (case to_int64 (ParseN J item ''timestamp_unix_ns'') of
             None \<Rightarrow> Inl ()
           | Some ts \<Rightarrow> Inr (Some \<lparr>event_id = i, timestamp_unix_ns = ts, ev_confidence = to_float (ParseN J item ''confidence''),
               ev_severity = s, ev_temperature_c = ParseN J item ''temperature_c'', ev_humidity_pct = ParseN J item ''relative_humidity_pct'',
               ev_wind_kmh = ParseN J item ''wind_speed_kmh'', ev_weather_available = wa, ev_user_triggered = ut\<rparr>))
      | _ \<Rightarrow> Inr None)"

fun parse_items :: "'j demo_json \<Rightarrow> 'j list \<Rightarrow> DemoEvent list option" where
  "parse_items J [] = Some []"
| "parse_items J (it # its) =
     (case parse_item J it of
        Inl _ \<Rightarrow> None
      | Inr e \<Rightarrow> (case parse_items J its of None \<Rightarrow> None | Some es \<Rightarrow> Some (case e of None \<Rightarrow> es | Some d \<Rightarrow> d # es)))"

text \<open>\<open>srt\<close> is \<open>std::sort\<close> with the newest first; \<open>None\<close> is undefined behaviour.\<close>

definition ListRecent :: "(DemoEvent list \<Rightarrow> DemoEvent list) \<Rightarrow> crypto \<Rightarrow> 'j demo_json \<Rightarrow> 'w transport \<Rightarrow> DynamoDemoWriter \<Rightarrow> int \<Rightarrow> int \<Rightarrow> 'w \<Rightarrow>
    DemoEvent list option \<times> 'w" where
  "ListRecent srt C J post wr unix_seconds limit w =
     (let jbody = dj_dump J (DObj [(''TableName'', DStr (table_name (dw_config wr))), (''Limit'', DInt limit)])
      in case demo_post C post wr unix_seconds ''Scan'' jbody w of (resp, w') \<Rightarrow>
        (if resp_status resp \<noteq> 200 then Some []
         else case dj_parse J (resp_body resp) of
                None \<Rightarrow> Some []
              | Some parsed \<Rightarrow>
                  if \<not> dj_contains J parsed ''Items'' \<or> \<not> dj_is_array J (dj_index J parsed ''Items'') then Some []
                  else (case parse_items J (dj_elements J (dj_index J parsed ''Items'')) of
                          None \<Rightarrow> None
                        | Some es \<Rightarrow> Some (srt es)),
         w'))"

section \<open>Transports\<close>

text \<open>
  The transports over libcurl: \<open>perform\<close> is a transfer, with the status and the body when it succeeds, and
  \<open>None\<close> for it is a handle that could not be made.
\<close>

definition curl_Post :: "(string \<Rightarrow> string list \<Rightarrow> string \<Rightarrow> 'w \<Rightarrow> (int \<times> string) option \<times> 'w) option \<Rightarrow> 'w transport" where
  "curl_Post perform url content headers w =
     (case perform of
        None \<Rightarrow> (\<lparr>resp_status = 0, resp_body = []\<rparr>, w)
      | Some p \<Rightarrow>
          (case p (c_str url) (map (\<lambda>(name, value). c_str (name @ '': '' @ value)) headers) content w of
             (None, w') \<Rightarrow> (\<lparr>resp_status = 0, resp_body = []\<rparr>, w')
           | (Some (status, b), w') \<Rightarrow> (\<lparr>resp_status = status, resp_body = b\<rparr>, w')))"

definition curl_Get :: "(string \<Rightarrow> (int \<times> string) option) option \<Rightarrow> string \<Rightarrow> HttpGetResponse" where
  "curl_Get perform url =
     (case perform of
        None \<Rightarrow> \<lparr>status_code = 0, body = []\<rparr>
      | Some p \<Rightarrow> (case p (c_str url) of None \<Rightarrow> \<lparr>status_code = 0, body = []\<rparr> | Some (status, b) \<Rightarrow> \<lparr>status_code = status, body = b\<rparr>))"

section \<open>The invocation\<close>

text \<open>How an invocation ends: a success with a body, a failure, an exception that escapes, or undefined behaviour.\<close>

datatype invocation = Success string | Failure string string | Escapes | Undefined

definition event_doc :: "DemoEvent \<Rightarrow> doc" where
  "event_doc e =
     DObj [(''event_id'', DStr (event_id e)), (''timestamp_unix_ns'', DInt (timestamp_unix_ns e)),
           (''confidence'', DNum (ev_confidence e)), (''severity'', DStr (ev_severity e)),
           (''temperature_c'', DNum (ev_temperature_c e)), (''relative_humidity_pct'', DNum (ev_humidity_pct e)),
           (''wind_speed_kmh'', DNum (ev_wind_kmh e)), (''weather_available'', DBool (ev_weather_available e)),
           (''user_triggered'', DBool (ev_user_triggered e))]"

definition api_response :: "'j demo_json \<Rightarrow> doc \<Rightarrow> invocation" where
  "api_response J jbody =
     Success (dj_dump J (DObj [(''headers'', DObj [(''Content-Type'', DStr ''application/json''), (''Access-Control-Allow-Origin'', DStr ''*'')]),
       (''statusCode'', DInt 200), (''body'', DStr (dj_dump J jbody))]))"

definition result_doc :: "DemoResponse \<Rightarrow> doc" where
  "result_doc r =
     DObj [(''severity'', DStr (severity_ToString (severity r))), (''weather_available'', DBool (weather_available r)),
           (''temperature_c'', DNum (resp_temperature_c r)), (''relative_humidity_pct'', DNum (resp_humidity_pct r)),
           (''wind_speed_kmh'', DNum (resp_wind_kmh r)), (''recorded'', DBool (recorded r))]"

definition env_writer :: "(string \<Rightarrow> string) \<Rightarrow> DynamoDemoWriter" where
  "env_writer env =
     \<lparr>dw_config = \<lparr>endpoint = ''https://dynamodb.'' @ env ''AWS_REGION'' @ ''.amazonaws.com'', table_name = env ''DEMO_TABLE_NAME'',
        creds = \<lparr>access_key_id = env ''AWS_ACCESS_KEY_ID'', secret_access_key = env ''AWS_SECRET_ACCESS_KEY'',
                 region = env ''AWS_REGION'', service = ''dynamodb''\<rparr>\<rparr>,
      session_token = env ''AWS_SESSION_TOKEN''\<rparr>"

text \<open>The method of an HTTP request, empty for a scheduled event; \<open>None\<close> is an exception.\<close>

definition http_method :: "'j demo_json \<Rightarrow> 'j \<Rightarrow> string option" where
  "http_method J event =
     (if dj_contains J event ''requestContext'' \<and> dj_contains J (dj_index J event ''requestContext'') ''http''
      then dj_value_string J (dj_index J (dj_index J event ''requestContext'') ''http'') ''method'' else Some '''')"

definition demo_request :: "'j demo_json \<Rightarrow> 'j \<Rightarrow> invocation + DemoRequest" where
  "demo_request J event =
     (if dj_contains J event ''body'' \<and> dj_is_string J (dj_index J event ''body'')
      then (case dj_string J (dj_index J event ''body'') of
              None \<Rightarrow> Inl Escapes
            | Some s \<Rightarrow> (case dj_parse J s of
                None \<Rightarrow> Inl (Failure ''could not parse request body'' ''InvalidBody'')
              | Some jbody \<Rightarrow>
                  if dj_contains J jbody ''confidence''
                  then (case dj_float J (dj_index J jbody ''confidence'') of
                          None \<Rightarrow> Inl Escapes
                        | Some c \<Rightarrow> Inr (default_request\<lparr>req_user_triggered := True, req_confidence := c\<rparr>))
                  else Inr (default_request\<lparr>req_user_triggered := True\<rparr>)))
      else Inr (default_request\<lparr>req_user_triggered := False, req_confidence := rnd binary32 (72/100)\<rparr>))"

definition HandleInvocation :: "(DemoEvent list \<Rightarrow> DemoEvent list) \<Rightarrow> crypto \<Rightarrow> 'j demo_json \<Rightarrow> 'w transport \<Rightarrow> (string \<Rightarrow> string) \<Rightarrow>
    (fp \<Rightarrow> fp \<Rightarrow> WeatherConditions option) \<Rightarrow> int \<Rightarrow> int \<Rightarrow> string \<Rightarrow> 'w \<Rightarrow> invocation \<times> 'w" where
  "HandleInvocation srt C J post env fetch unix_seconds now payload w =
     (case dj_parse J payload of
        None \<Rightarrow> (Failure ''could not parse event JSON'' ''InvalidEvent'', w)
      | Some event \<Rightarrow>
          (case http_method J event of
             None \<Rightarrow> (Escapes, w)
           | Some method \<Rightarrow>
               if method = ''GET''
               then (case ListRecent srt C J post (env_writer env) unix_seconds 20 w of
                       (None, w') \<Rightarrow> (Undefined, w')
                     | (Some events, w') \<Rightarrow> (api_response J (DObj [(''events'', DArr (map event_doc events))]), w'))
               else (case demo_request J event of
                       Inl r \<Rightarrow> (r, w)
                     | Inr req \<Rightarrow>
                         (case HandleDemoRequest req fetch (Some (PutEvent C J post (env_writer env) unix_seconds)) now w of
                            (r, w') \<Rightarrow> (api_response J (result_doc r), w')))))"

section \<open>Lemmas\<close>

text \<open>
  The event offered to the table carries the severity and the weather of the response, and the
  response says whether the table took it; without weather the severity depends on the confidence only.
\<close>

lemma HandleDemoRequest_records:
  assumes "HandleDemoRequest request fetch (Some put) now w = (r, w')"
  shows "put (demo_event_of request r now) w = (recorded r, w')"
    "severity r = ComputeAlertSeverity (req_confidence request) (fetch (latitude request) (longitude request)) default_thresholds"
    "weather_available r \<longleftrightarrow> fetch (latitude request) (longitude request) \<noteq> None"
  using assms by (auto simp: HandleDemoRequest_def Let_def demo_event_of_def split: prod.splits option.splits)

text \<open>A transfer that fails is no weather and no stored event, never an exception.\<close>

lemma failed_transfer_no_weather:
  "perform = None \<or> (\<exists>p. perform = Some p \<and> (\<forall>url. p url = None)) \<Longrightarrow> FetchCurrent J (curl_Get perform) base now lat lon = None"
  by (auto simp: FetchCurrent_def curl_Get_def)

lemma failed_transfer_not_recorded:
  "perform = None \<or> (\<exists>p. perform = Some p \<and> (\<forall>url hs b w. fst (p url hs b w) = None)) \<Longrightarrow>
    \<not> fst (PutEvent C J (curl_Post perform) wr t e w)"
  by (auto simp: PutEvent_def demo_post_def curl_Post_def Let_def split: prod.splits option.splits) (metis fst_conv option.distinct(1))+

lemma HandleDemoRequest_no_writer:
  "snd (HandleDemoRequest request fetch None now w) = w \<and> \<not> recorded (fst (HandleDemoRequest request fetch None now w))"
  by (simp add: HandleDemoRequest_def Let_def split: option.split)

lemma parse_items_rows:
  assumes "parse_items J its = Some es"
  shows "length es \<le> length its \<and> (\<forall>e\<in>set es. \<exists>it\<in>set its. parse_item J it = Inr (Some e)) \<and>
    (\<forall>it\<in>set its. \<forall>e. parse_item J it = Inr (Some e) \<longrightarrow> e \<in> set es)"
  using assms
  by (induction its arbitrary: es) (auto split: sum.splits option.splits intro: le_SucI)

text \<open>
  A row without the attribute is skipped: the default of the outer \<open>value\<close> is a null, and \<open>value\<close> on a
  null throws.
\<close>

lemma missing_flag_skips_row:
  assumes "dj_value_json J item ''weather_available'' = Some null" "dj_value_bool J null ''BOOL'' = None"
  shows "parse_item J item = Inr None"
  using assms by (simp add: parse_item_def item_flag_def split: option.split)

lemma scheduled_event_succeeds:
  assumes "dj_parse J payload = Some event" "\<not> dj_contains J event ''requestContext''" "\<not> dj_contains J event ''body''"
  shows "\<exists>s. fst (HandleInvocation srt C J post env fetch t now payload w) = Success s"
  using assms by (simp add: HandleInvocation_def http_method_def demo_request_def api_response_def split: prod.split)

lemma bad_confidence_escapes:
  assumes "dj_parse J payload = Some event" "\<not> dj_contains J event ''requestContext''" "dj_contains J event ''body''"
    "dj_is_string J (dj_index J event ''body'')" "dj_string J (dj_index J event ''body'') = Some s" "dj_parse J s = Some b"
    "dj_contains J b ''confidence''" "dj_float J (dj_index J b ''confidence'') = None"
  shows "HandleInvocation srt C J post env fetch t now payload w = (Escapes, w)"
  using assms by (simp add: HandleInvocation_def http_method_def demo_request_def)

end
