(* ===== verification/Tools.thy ===== *)
theory Tools
  imports WalCodec Ledger Cstd Backoff
begin

text \<open>
  Tools beside the pipeline: percentiles of latencies (tools/latency_stats.h), the fuzz target of the
  record decoder (tools/fuzz/wal_record_fuzzer.cc) and the fleet simulator
  (tools/fleet/device_simulator.cc).
\<close>

section \<open>Latency percentiles\<close>

text \<open>\<open>None\<close> is a conversion to \<open>size_t\<close> of a number that does not fit.\<close>

fun to_size :: "fp \<Rightarrow> nat option" where
  "to_size (Fin x) = (if 0 \<le> trunc x \<and> trunc x < 2 ^ 64 then Some (nat (trunc x)) else None)"
| "to_size _ = None"

definition PercentileMs :: "int list \<Rightarrow> fp \<Rightarrow> fp option" where
  "PercentileMs samples_ns p =
     (if samples_ns = [] then Some (Fin 0)
      else let sorted = sort samples_ns in
        case to_size (fp_mul binary64 p (fp_of_int binary64 (int (length sorted)))) of
          None \<Rightarrow> None
        | Some i \<Rightarrow> let idx = min (length sorted - 1) i in Some (fp_div binary64 (fp_of_int binary64 (sorted ! idx)) (Fin 1000000)))"

text \<open>A percentile of a non-empty collection is the value of one of its samples.\<close>

lemma percentile_is_sample:
  assumes "PercentileMs samples p = Some v" "samples \<noteq> []"
  shows "\<exists>s\<in>set samples. v = fp_div binary64 (fp_of_int binary64 s) (Fin 1000000)"
proof -
  obtain i where v: "v = fp_div binary64 (fp_of_int binary64 (sort samples ! min (length samples - 1) i)) (Fin 1000000)"
    using assms by (auto simp: PercentileMs_def Let_def split: option.splits)
  have "sort samples ! min (length samples - 1) i \<in> set (sort samples)"
    by (rule nth_mem) (use assms(2) in \<open>cases samples; simp\<close>)
  then show ?thesis using v by auto
qed

text \<open>
  The nearest-rank percentile is the smallest sample with at least the fraction \<open>p\<close> of the samples
  at or below it.  For the median of an even number of samples the tool takes the next larger one.
\<close>

definition nearest_rank :: "int list \<Rightarrow> rat \<Rightarrow> int" where
  "nearest_rank samples p = sort samples ! (nat (\<lceil>p * of_nat (length samples)\<rceil>) - 1)"

lemma percentile_not_nearest_rank:
  "PercentileMs [1000000, 3000000] (Fin (1/2)) = Some (Fin 3) \<and> nearest_rank [1000000, 3000000] (1/2) = 1000000"
proof -
  have rep: "representable binary64 (of_int i)" if "\<bar>i\<bar> < 2 ^ 53" for i
    using that by (intro representable_int) (simp_all add: binary64_def)
  have "rnd binary64 2 = Fin 2" "rnd binary64 1 = Fin 1" "rnd binary64 3 = Fin 3" "rnd binary64 3000000 = Fin 3000000"
    using rnd_exact[OF rep[of 2]] rnd_exact[OF rep[of 1]] rnd_exact[OF rep[of 3]] rnd_exact[OF rep[of 3000000]] by simp_all
  then show ?thesis by (simp add: PercentileMs_def fp_of_int_def trunc_def nearest_rank_def)
qed

section \<open>The fuzz target\<close>

text \<open>The offset the loop stops at; \<open>None\<close> is a read outside the input.\<close>

function fuzz_loop :: "byte list \<Rightarrow> u64 \<Rightarrow> u64 option" where
  "fuzz_loop buf offset =
     (if offset < word_of_nat (length buf)
      then (case DecodeRecord buf offset of
              DecodeFault \<Rightarrow> None
            | DecodeFail \<Rightarrow> Some offset
            | Decoded s payload offset' \<Rightarrow> if offset' \<le> offset then Some offset' else fuzz_loop buf offset')
      else Some offset)"
  by pat_completeness auto
termination
  by (relation "measure (\<lambda>(buf, off). 2 ^ 64 - unat off)") (auto dest!: DecodeRecord_measure)

declare fuzz_loop.simps [simp del]

definition LLVMFuzzerTestOneInput :: "byte list \<Rightarrow> int option" where
  "LLVMFuzzerTestOneInput buf = map_option (\<lambda>_. 0) (fuzz_loop buf 0)"

text \<open>The target returns 0 on every input below \<open>2 ^ 63\<close> bytes, without a read out of bounds.\<close>

lemma fuzz_loop_returns:
  assumes "length buf < 2 ^ 63" "unat off \<le> length buf"
  shows "\<exists>off'. fuzz_loop buf off = Some off'"
  using assms
proof (induction buf off rule: fuzz_loop.induct)
  case (1 buf off)
  show ?case
  proof (cases "decode_at buf (unat off)")
    case None
    then show ?thesis using DecodeRecord_at[OF 1(2,3)] by (simp add: fuzz_loop.simps[of buf off])
  next
    case (Some r)
    obtain s p where sp: "decode_at buf (unat off) = Some (s, p)" using Some by (cases r) auto
    let ?n = "word_of_nat (unat off + 16 + length p) :: u64"
    have d: "DecodeRecord buf off = Decoded s p ?n" using DecodeRecord_at[OF 1(2,3)] sp by simp
    have "unat ?n \<le> length buf" using decode_at_bounds[OF sp] 1(2) by (simp add: unat_of_nat take_bit_nat_eq_self del: of_nat_add)
    then show ?thesis using 1(1)[of s p ?n] 1(2) d by (auto simp: fuzz_loop.simps[of buf off])
  qed
qed

lemma fuzz_target_returns: "length buf < 2 ^ 63 \<Longrightarrow> LLVMFuzzerTestOneInput buf = Some 0"
  using fuzz_loop_returns[of buf 0] by (auto simp: LLVMFuzzerTestOneInput_def)

section \<open>The fleet simulator\<close>

record sim_options =
  so_gateway :: string
  so_devices :: int
  so_duration_s :: int
  so_rate_hz :: fp
  so_disconnect_every_s :: int
  so_connect_stagger_ms :: int

definition default_sim_options :: sim_options where
  "default_sim_options = \<lparr>so_gateway = ''127.0.0.1:50051'', so_devices = 50, so_duration_s = 20, so_rate_hz = Fin 2,
     so_disconnect_every_s = 0, so_connect_stagger_ms = 5\<rparr>"

definition sim_flags :: "(string \<times> (string \<Rightarrow> sim_options \<Rightarrow> sim_options)) list" where
  "sim_flags =
    [(''--gateway='', \<lambda>v r. r\<lparr>so_gateway := v\<rparr>),
     (''--devices='', \<lambda>v r. r\<lparr>so_devices := atoi v\<rparr>),
     (''--duration-s='', \<lambda>v r. r\<lparr>so_duration_s := atoi v\<rparr>),
     (''--rate-hz='', \<lambda>v r. r\<lparr>so_rate_hz := atof v\<rparr>),
     (''--disconnect-every-s='', \<lambda>v r. r\<lparr>so_disconnect_every_s := atoi v\<rparr>),
     (''--connect-stagger-ms='', \<lambda>v r. r\<lparr>so_connect_stagger_ms := atoi v\<rparr>)]"

fun sim_ParseArgs :: "string list \<Rightarrow> sim_options \<Rightarrow> sim_options option" where
  "sim_ParseArgs [] r = Some r"
| "sim_ParseArgs (a # as) r = (case apply_flag sim_flags a r of None \<Rightarrow> None | Some r' \<Rightarrow> sim_ParseArgs as r')"

record FleetStats =
  fs_sent :: u64
  fs_acked :: u64
  fs_reconnects :: u64
  fs_forced_disconnects :: u64

text \<open>One device: its counters of attempts and events, and when it sends and drops the stream next; \<open>None\<close> is never.\<close>

record sim_device =
  sim_index :: int
  sim_attempt :: u32
  sim_seq :: u64
  next_send :: int
  next_forced_disconnect :: "int option"

definition sim_device_id :: "sim_device \<Rightarrow> string" where
  "sim_device_id d = ''sim-'' @ show_int (sim_index d)"

definition sim_hello :: "sim_device \<Rightarrow> Hello" where
  "sim_hello d = \<lparr>hello_device_id = sim_device_id d, agent_version = ''simulator'', hello_last_acked_seq = 0,
     hello_durable_resume = False, hello_tenant_id = []\<rparr>"

definition sim_event :: "int \<Rightarrow> fp \<Rightarrow> u64 \<Rightarrow> DetectionEvent" where
  "sim_event ts conf n = \<lparr>seq = n, label = ''smoke'', det_confidence = conf,
     bbox = \<lparr>bb_x_min = Fin 0, bb_y_min = Fin 0, bb_x_max = Fin 0, bb_y_max = Fin 0\<rparr>,
     det_capture_time_unix_ns = ts, emit_time_unix_ns = ts, frames_confirmed = 0, window_size = 0\<rparr>"

text \<open>What one round of the send loop does: goes on, with the message it wrote if any, or leaves the loop.\<close>

datatype sim_round = Forced | Wrote "AgentMessage option" bool

definition sim_send_round :: "sim_options \<Rightarrow> int \<Rightarrow> int \<Rightarrow> int \<Rightarrow> fp \<Rightarrow> bool \<Rightarrow> sim_device \<Rightarrow> FleetStats \<Rightarrow> sim_round \<times> sim_device \<times> FleetStats" where
  "sim_send_round opt period now ts conf write_ok d st =
     (if (case next_forced_disconnect d of None \<Rightarrow> False | Some t \<Rightarrow> t \<le> now)
      then (Forced, d\<lparr>next_forced_disconnect := Some (now + so_disconnect_every_s opt * 1000000000)\<rparr>,
            st\<lparr>fs_forced_disconnects := fs_forced_disconnects st + 1\<rparr>)
      else if next_send d \<le> now
      then (Wrote (Some (MDetection (sim_event ts conf (sim_seq d)))) write_ok,
            d\<lparr>sim_seq := sim_seq d + 1, next_send := next_send d + period\<rparr>,
            if write_ok then st\<lparr>fs_sent := fs_sent st + 1\<rparr> else st)
      else (Wrote None True, d, st))"

definition sim_unreachable :: "fp \<Rightarrow> sim_device \<Rightarrow> int option \<times> sim_device" where
  "sim_unreachable u d = (FullJitterBackoff (sim_attempt d) default_policy u, d\<lparr>sim_attempt := sim_attempt d + 1\<rparr>)"

definition sim_stream_over :: "bool \<Rightarrow> sim_device \<Rightarrow> FleetStats \<Rightarrow> sim_device \<times> FleetStats" where
  "sim_stream_over again d st =
     (if again then (d\<lparr>sim_attempt := 0\<rparr>, st\<lparr>fs_reconnects := fs_reconnects st + 1\<rparr>) else (d, st))"

text \<open>
  The whole life of a device.  A round of the send loop sees the stop flag, the clock in its condition
  and in its body, the time and confidence of an event, whether the write succeeds and whether the
  reader still holds the stream; \<open>None\<close> means that the rounds do not reach the end of the loop.  The messages
  are those handed to \<open>Write\<close>, also the one whose write fails.
\<close>

record sim_view =
  v_stop :: bool
  v_clock :: int
  v_now :: int
  v_ts :: int
  v_conf :: fp
  v_write_ok :: bool
  v_connection_ok :: bool

fun sim_stream :: "sim_options \<Rightarrow> int \<Rightarrow> int \<Rightarrow> sim_view list \<Rightarrow> bool \<Rightarrow> sim_device \<Rightarrow> FleetStats \<Rightarrow>
    (AgentMessage list \<times> bool \<times> sim_device \<times> FleetStats) option" where
  "sim_stream opt period run_deadline [] ok d st = None"
| "sim_stream opt period run_deadline (v # vs) ok d st =
     (if \<not> (ok \<and> \<not> v_stop v \<and> v_clock v < run_deadline) then Some ([], ok, d, st)
      else case sim_send_round opt period (v_now v) (v_ts v) (v_conf v) (v_write_ok v) d st of
             (Forced, d', st') \<Rightarrow> Some ([], ok, d', st')
           | (Wrote m ok', d', st') \<Rightarrow>
               if \<not> v_connection_ok v then Some (case m of None \<Rightarrow> [] | Some m' \<Rightarrow> [m'], ok', d', st')
               else (case sim_stream opt period run_deadline vs ok' d' st' of
                       None \<Rightarrow> None
                     | Some (ms, r) \<Rightarrow> Some (case m of None \<Rightarrow> ms | Some m' \<Rightarrow> m' # ms, r)))"

text \<open>
  A pass of the outer loop: the channel was not ready, with the random number of the delay, or a stream, with
  the outcome of the hello, the time the sending starts, its rounds, the acknowledgements the reader
  counted, and clock and stop flag after it.
\<close>

datatype sim_pass = NotReady fp | Streamed bool int "sim_view list" nat int bool

fun sim_connect :: "sim_options \<Rightarrow> int \<Rightarrow> int \<Rightarrow> sim_pass \<Rightarrow> sim_device \<Rightarrow> FleetStats \<Rightarrow>
    (AgentMessage list \<times> sim_device \<times> FleetStats) option" where
  "sim_connect opt period run_deadline (NotReady u) d st = Some ([], snd (sim_unreachable u d), st)"
| "sim_connect opt period run_deadline (Streamed hello_ok start vs n_acks t stop) d st =
     (case sim_stream opt period run_deadline vs hello_ok (d\<lparr>next_send := start\<rparr>) (st\<lparr>fs_acked := fs_acked st + word_of_nat n_acks\<rparr>) of
        None \<Rightarrow> None
      | Some (ms, ok, d', st') \<Rightarrow>
          (case sim_stream_over (t < run_deadline \<and> \<not> stop) d' st' of
             (d'', st'') \<Rightarrow> Some (MHello (sim_hello d) # ms, d'', st'')))"

fun sim_Run :: "sim_options \<Rightarrow> int \<Rightarrow> int \<Rightarrow> (bool \<times> int \<times> sim_pass) list \<Rightarrow> sim_device \<Rightarrow> FleetStats \<Rightarrow>
    (AgentMessage list list \<times> sim_device \<times> FleetStats) option" where
  "sim_Run opt period run_deadline [] d st = None"
| "sim_Run opt period run_deadline ((stop, t, pass) # passes) d st =
     (if stop \<or> run_deadline \<le> t then Some ([], d, st)
      else case sim_connect opt period run_deadline pass d st of
             None \<Rightarrow> None
           | Some (ms, d', st') \<Rightarrow>
               (case sim_Run opt period run_deadline passes d' st' of
                  None \<Rightarrow> None
                | Some (mss, r) \<Rightarrow> Some (ms # mss, r)))"

definition sim_start :: "sim_options \<Rightarrow> int \<Rightarrow> int \<Rightarrow> sim_device" where
  "sim_start opt now i =
     \<lparr>sim_index = i, sim_attempt = 0, sim_seq = 1, next_send = now,
      next_forced_disconnect = (if so_disconnect_every_s opt > 0 then Some (now + so_disconnect_every_s opt * 1000000000) else None)\<rparr>"

definition sim_period :: "sim_options \<Rightarrow> int option" where
  "sim_period opt = to_int64 (fp_mul binary64 (fp_div binary64 (Fin 1) (so_rate_hz opt)) (Fin 1000000000))"

definition sim_exit_code :: "FleetStats \<Rightarrow> int" where
  "sim_exit_code st = (if fs_sent st > 0 \<and> fs_acked st = 0 then 1 else 0)"

text \<open>The sequence numbers of the events among messages.\<close>

fun event_seqs :: "AgentMessage list \<Rightarrow> u64 list" where
  "event_seqs [] = []"
| "event_seqs (MDetection d # ms) = seq d # event_seqs ms"
| "event_seqs (_ # ms) = event_seqs ms"

fun count_up :: "nat \<Rightarrow> u64 \<Rightarrow> u64 list" where
  "count_up 0 n = []"
| "count_up (Suc k) n = n # count_up k (n + 1)"

lemma count_up_append: "count_up (j + k) n = count_up j n @ count_up k (n + word_of_nat j)"
  by (induction j arbitrary: n) (simp_all add: algebra_simps)

text \<open>What one round adds to the numbers handed out and to the counter of successful writes.\<close>

definition written :: "AgentMessage option \<Rightarrow> AgentMessage list \<Rightarrow> AgentMessage list" where
  "written m ms = (case m of None \<Rightarrow> ms | Some m' \<Rightarrow> m' # ms)"

definition numbered :: "sim_device \<Rightarrow> FleetStats \<Rightarrow> u64 list \<Rightarrow> sim_device \<Rightarrow> FleetStats \<Rightarrow> bool" where
  "numbered d st ns d' st' \<longleftrightarrow> (\<exists>k. ns = count_up k (sim_seq d) \<and> sim_seq d' = sim_seq d + word_of_nat k \<and>
     sim_index d' = sim_index d \<and> (\<exists>j\<le>k. fs_sent st' = fs_sent st + word_of_nat j))"

lemma numberedI:
  assumes "ns = count_up k (sim_seq d)" "sim_seq d' = sim_seq d + word_of_nat k" "sim_index d' = sim_index d" "j \<le> k"
    "fs_sent st' = fs_sent st + word_of_nat j"
  shows "numbered d st ns d' st'"
  unfolding numbered_def using assms by blast

lemma numbered_refl: "sim_seq d' = sim_seq d \<Longrightarrow> sim_index d' = sim_index d \<Longrightarrow> fs_sent st' = fs_sent st \<Longrightarrow> numbered d st [] d' st'"
  unfolding numbered_def by (intro exI[of _ 0]) simp

lemma numbered_trans:
  assumes "numbered d st ns d1 st1" "numbered d1 st1 ns' d2 st2"
  shows "numbered d st (ns @ ns') d2 st2"
proof -
  obtain k j where 1: "ns = count_up k (sim_seq d)" "sim_seq d1 = sim_seq d + word_of_nat k" "sim_index d1 = sim_index d"
    "j \<le> k" "fs_sent st1 = fs_sent st + word_of_nat j" using assms(1) by (auto simp: numbered_def)
  obtain k' j' where 2: "ns' = count_up k' (sim_seq d1)" "sim_seq d2 = sim_seq d1 + word_of_nat k'" "sim_index d2 = sim_index d1"
    "j' \<le> k'" "fs_sent st2 = fs_sent st1 + word_of_nat j'" using assms(2) by (auto simp: numbered_def)
  show ?thesis
    by (rule numberedI[of _ "k + k'" _ _ "j + j'"]) (use 1 2 in \<open>simp_all add: count_up_append add.assoc\<close>)
qed

lemma numbered_written:
  "event_seqs (written m ms) = event_seqs (written m []) @ event_seqs ms"
  by (cases m; cases "the m") (simp_all add: written_def)

lemma round_numbered:
  assumes "sim_send_round opt period now ts conf ok d st = (r, d', st')"
  shows "numbered d st (event_seqs (case r of Forced \<Rightarrow> [] | Wrote m ok' \<Rightarrow> written m [])) d' st'"
proof (cases "(case next_forced_disconnect d of None \<Rightarrow> False | Some t \<Rightarrow> t \<le> now) \<or> \<not> next_send d \<le> now")
  case True
  then show ?thesis using assms
    by (auto simp: sim_send_round_def written_def numbered_refl split: if_splits option.splits)
next
  case False
  then have "r = Wrote (Some (MDetection (sim_event ts conf (sim_seq d)))) ok" "sim_seq d' = sim_seq d + 1" "sim_index d' = sim_index d"
    "fs_sent st' = fs_sent st + (if ok then 1 else 0)"
    using assms by (auto simp: sim_send_round_def split: if_splits)
  then show ?thesis
    by (intro numberedI[of _ 1 _ _ "if ok then 1 else 0"]) (simp_all add: written_def sim_event_def)
qed

lemma stream_numbered:
  "sim_stream opt period deadline vs ok d st = Some (ms, ok', d', st') \<Longrightarrow> numbered d st (event_seqs ms) d' st'"
proof (induction opt period deadline vs ok d st arbitrary: ms rule: sim_stream.induct)
  case (2 opt period deadline v vs ok d st)
  show ?case
  proof (cases "ok \<and> \<not> v_stop v \<and> v_clock v < deadline")
    case False
    then show ?thesis using "2.prems" by (auto intro: numbered_refl)
  next
    case go: True
    obtain r d1 st1 where r: "sim_send_round opt period (v_now v) (v_ts v) (v_conf v) (v_write_ok v) d st = (r, d1, st1)"
      by (cases "sim_send_round opt period (v_now v) (v_ts v) (v_conf v) (v_write_ok v) d st") auto
    note one = round_numbered[OF r]
    show ?thesis
    proof (cases r)
      case Forced
      then show ?thesis using "2.prems" go r one by auto
    next
      case (Wrote m ok1)
      show ?thesis
      proof (cases "v_connection_ok v")
        case False
        then have "ms = written m []" "d' = d1" "st' = st1"
          using "2.prems" go r Wrote by (auto simp: written_def split: option.splits)
        then show ?thesis using one Wrote by simp
      next
        case True
        obtain ms1 where s: "sim_stream opt period deadline vs ok1 d1 st1 = Some (ms1, ok', d', st')" and ms: "ms = written m ms1"
          using "2.prems" go r Wrote True by (auto simp: written_def split: option.splits)
        have "numbered d1 st1 (event_seqs ms1) d' st'" using "2.IH"[OF _ r[symmetric] Wrote refl _ s] go True by simp
        then show ?thesis using numbered_trans one Wrote by (simp add: ms numbered_written[of m ms1])
      qed
    qed
  qed
qed simp

lemma connect_numbered:
  assumes "sim_connect opt period deadline p d st = Some (ms, d', st')"
  shows "numbered d st (event_seqs ms) d' st' \<and> (ms = [] \<or> hd ms = MHello (sim_hello d))"
proof (cases p)
  case (NotReady u)
  then show ?thesis using assms by (auto simp: sim_unreachable_def intro: numbered_refl)
next
  case (Streamed hello_ok start vs n_acks t stop)
  obtain ms1 ok d1 st1 where s: "sim_stream opt period deadline vs hello_ok (d\<lparr>next_send := start\<rparr>)
      (st\<lparr>fs_acked := fs_acked st + word_of_nat n_acks\<rparr>) = Some (ms1, ok, d1, st1)"
    and ms: "ms = MHello (sim_hello d) # ms1" and last: "sim_stream_over (t < deadline \<and> \<not> stop) d1 st1 = (d', st')"
    using assms Streamed by (auto split: option.splits prod.splits)
  have "sim_seq d' = sim_seq d1" "sim_index d' = sim_index d1" "fs_sent st' = fs_sent st1"
    using last by (auto simp: sim_stream_over_def split: if_splits)
  then show ?thesis using stream_numbered[OF s] by (simp add: ms numbered_def)
qed

text \<open>
  Over a whole run, with any outages, forced disconnects and failed writes, the events carry the numbers 1, 2,
  3 and so on across all streams, every stream starts with the hello of this device, and the fleet's
  counter of sent events grows by at most the number of events.
\<close>

lemma sim_run_numbers:
  assumes "sim_Run opt period deadline passes d st = Some (mss, d', st')"
  shows "numbered d st (event_seqs (concat mss)) d' st' \<and> (\<forall>ms\<in>set mss. ms = [] \<or> hd ms = MHello (sim_hello d))"
  using assms
proof (induction opt period deadline passes d st arbitrary: mss rule: sim_Run.induct)
  case (2 opt period deadline stop t p passes d st)
  show ?case
  proof (cases "stop \<or> deadline \<le> t")
    case True
    then show ?thesis using "2.prems" by (auto intro: numbered_refl)
  next
    case False
    then obtain ms d1 st1 mss1 where c: "sim_connect opt period deadline p d st = Some (ms, d1, st1)"
      and r: "sim_Run opt period deadline passes d1 st1 = Some (mss1, d', st')" and mss: "mss = ms # mss1"
      using "2.prems" by (auto split: option.splits prod.splits)
    note c1 = connect_numbered[OF c]
    have ih: "numbered d1 st1 (event_seqs (concat mss1)) d' st'" "\<forall>ms\<in>set mss1. ms = [] \<or> hd ms = MHello (sim_hello d1)"
      using "2.IH"[OF False c refl refl r] by simp_all
    have "sim_hello d1 = sim_hello d" using c1 by (auto simp: numbered_def sim_hello_def sim_device_id_def)
    moreover have "event_seqs (ms @ xs) = event_seqs ms @ event_seqs xs" for xs by (induction ms rule: event_seqs.induct) auto
    ultimately show ?thesis using c1 ih numbered_trans[OF conjunct1[OF c1] ih(1)] by (auto simp: mss)
  qed
qed simp

text \<open>
  The simulator has no log, and says so: the first event after it reconnects, whatever its number,
  leaves the gateway's gap counter as it was.
\<close>

lemma sim_reconnect_no_gap:
  assumes "handle E I (MHello (sim_hello d)) s = Continue s'"
  shows "awaiting_resync (conn s')" "gap_events (advance n (conn s')) = gap_events (conn s)"
proof -
  have "conn s' = log_event (Resumed 0) ((conn s)\<lparr>device_id := sim_device_id d, tenant_id := [], last_seq := 0,
      durable_resume := False, awaiting_resync := True\<rparr>)"
    using assms by (auto simp: on_hello_def sim_hello_def split: if_splits)
  then show "awaiting_resync (conn s')" "gap_events (advance n (conn s')) = gap_events (conn s)" by simp_all
qed

text \<open>Every event carries the next number, also when its write fails.\<close>

lemma sim_numbers:
  "case sim_send_round opt period now ts conf ok d st of
     (Wrote (Some m) ok', d', st') \<Rightarrow> m = MDetection (sim_event ts conf (sim_seq d)) \<and> sim_seq d' = sim_seq d + 1 \<and>
       fs_sent st' = (if ok' then fs_sent st + 1 else fs_sent st)
   | (_, d', st') \<Rightarrow> sim_seq d' = sim_seq d \<and> fs_sent st' = fs_sent st"
  by (auto simp: sim_send_round_def split: option.split)

end
