(* ===== verification/EdgeDetector.thy ===== *)
theory EdgeDetector
  imports EdgePipeline Onnx
begin

text \<open>
  The edge pipeline on the ONNX detector: the constructor of \<open>EdgePipeline\<close>
  (inference/src/edge_pipeline.cc) on its configuration, and what a confirmed event says about the frame
  it names.
\<close>

section \<open>Construction\<close>

text \<open>The detector's configuration; the fields that are not set keep the defaults of onnx_cpu_detector.h.\<close>

definition detector_config :: "EdgePipelineConfig \<Rightarrow> OnnxDetectorConfig" where
  "detector_config c = \<lparr>input_size = 416, score_threshold = pc_score_threshold c, nms_iou_threshold = f32 (45/100),
     target_class_ids = pc_target_class_ids c\<rparr>"

text \<open>
  \<open>None\<close> is an exception of the video source or of the detector, or the abort of the confirmer in the
  inference thread.  The session the model file gives, with its numbers of inputs and outputs and its
  input shape, is a parameter.
\<close>

definition make_pipeline :: "(string \<Rightarrow> 'v option) \<Rightarrow> (string \<Rightarrow> int \<Rightarrow> (nat \<times> nat \<times> int list) option) \<Rightarrow> Frame \<Rightarrow> Frame list \<Rightarrow>
    ConfirmedEvent ring \<Rightarrow> EdgePipelineConfig \<Rightarrow> ('v video_source pipeline \<times> onnx_detector) option" where
  "make_pipeline open_video new_session scr frames out c =
     (case VideoFileFrameSource open_video (pc_video_path c) (pc_loop c) of
        None \<Rightarrow> None
      | Some src \<Rightarrow>
          (case new_session (pc_model_path c) (pc_intra_op_threads c) of
             None \<Rightarrow> None
           | Some (inputs, outputs, in_shape) \<Rightarrow>
               (case OnnxCpuDetector inputs outputs in_shape (detector_config c) of
                  Value det \<Rightarrow>
                    (case KOfNConfirmer (pc_k c) (pc_n c) of
                       None \<Rightarrow> None
                     | Some cf \<Rightarrow> Some (EdgePipeline (pc_realtime c) src scr frames out cf, det))
                | _ \<Rightarrow> None)))"

lemma make_pipeline_Some:
  assumes "make_pipeline open_video new_session scr frames out c = Some (p, det)"
  shows "\<exists>src cf. p = EdgePipeline (pc_realtime c) src scr frames out cf \<and> KOfNConfirmer (pc_k c) (pc_n c) = Some cf \<and>
    config det = detector_config c"
  using assms by (auto simp: make_pipeline_def OnnxCpuDetector_def split: option.splits outcome.splits prod.splits if_splits)

section \<open>Events and detections\<close>

text \<open>The frame at which the confirmation turns true is a positive one.\<close>

lemma count_true_negative: "count_true (last_n n (xs @ [False])) \<le> count_true (last_n n xs)"
proof -
  have "count_true (tl ys) \<le> count_true ys" for ys by (cases ys) auto
  then show ?thesis by (cases "last_n n xs") (auto simp: last_n_snoc)
qed

definition event_of :: "(Frame \<Rightarrow> DetectionResult) \<Rightarrow> Frame \<Rightarrow> ConfirmedEvent \<Rightarrow> bool" where
  "event_of detect f e \<longleftrightarrow> positive (detect f) \<and> ev_frame_index e = frame_index f \<and> ev_capture_time e = capture_time_unix_ns f \<and>
     ev_confidence e = confidence (detect f) \<and> ev_box e = (x_min (detect f), y_min (detect f), x_max (detect f), y_max (detect f))"

definition events_backed :: "(Frame \<Rightarrow> DetectionResult) \<Rightarrow> 's pipeline \<Rightarrow> bool" where
  "events_backed detect p \<longleftrightarrow> (\<forall>e\<in>set (offered p). \<exists>f\<in>set (processed p). event_of detect f e)"

lemma process_frame_backed:
  assumes "pipe_events detect k n p" "events_backed detect p" "0 < unat k"
  shows "events_backed detect (process_frame detect now f p)"
proof -
  let ?xs = "map (positive \<circ> detect) (processed p)"
  obtain b c where u: "Update (positive (detect f)) (confirmer p) = (b, c)" by fastforce
  have i: "kofn_inv ?xs (confirmer p)" "k_ok (confirmer p) = k" "n_ok (confirmer p) = n"
    "was_confirmed p = (confirmations detect (unat k) (unat n) (processed p) \<noteq> [] \<and> last (confirmations detect (unat k) (unat n) (processed p)))"
    using assms(1) by (simp_all add: pipe_events_def Let_def)
  have b: "b \<longleftrightarrow> unat k \<le> count_true (last_n (unat n) (?xs @ [positive (detect f)]))"
    using Update_result[OF i(1), of "positive (detect f)"] u i(2,3) by simp
  have was: "was_confirmed p" if "unat k \<le> count_true (last_n (unat n) ?xs)"
  proof (cases "processed p" rule: rev_cases)
    case Nil
    then show ?thesis using that assms(3) by (simp add: last_n_def)
  next
    case (snoc fs g)
    then show ?thesis using that by (simp add: i(4) confirmations_snoc)
  qed
  have pos: "positive (detect f)" if "b" "\<not> was_confirmed p"
  proof (rule ccontr)
    assume "\<not> positive (detect f)"
    then have "unat k \<le> count_true (last_n (unat n) ?xs)" using that(1) b count_true_negative[of "unat n" ?xs] by simp
    then show False using was that(2) by blast
  qed
  have "set (offered (process_frame detect now f p)) \<subseteq> set (offered p) \<union> (if b \<and> \<not> was_confirmed p then {make_event now f (detect f) c} else {})"
    by (simp add: process_frame_def u Let_def)
  moreover have "event_of detect f (make_event now f (detect f) c)" if "b" "\<not> was_confirmed p"
    using pos[OF that] by (simp add: event_of_def make_event_def)
  ultimately show ?thesis
    using assms(2) unfolding events_backed_def process_frame_fields(1) by (auto split: if_splits)
qed

lemma infer_iter_backed:
  assumes "pipe_inv detect k n p" "events_backed detect p" "0 < unat k"
  shows "events_backed detect (infer_iter detect now p)"
proof -
  have "events_backed detect (process_frame detect now f (p\<lparr>frame_ring := rb\<rparr>))" for f rb
    by (rule process_frame_backed[where n = n, OF _ _ assms(3)])
      (use assms(1,2) pipe_events_upd[of "p\<lparr>frame_ring := rb\<rparr>" p] in \<open>simp_all add: pipe_inv_def events_backed_def\<close>)
  moreover have "events_backed detect (p\<lparr>pipe_finished := True\<rparr>)" using assms(2) by (simp add: events_backed_def)
  ultimately show ?thesis using assms(2) by (simp add: infer_iter_def split: option.split prod.split)
qed

lemma pipe_reach_backed:
  assumes "pipe_reach next_frame detect p0 p" "pipe_inv detect k n p0" "events_backed detect p0" "0 < unat k"
  shows "events_backed detect p"
  using assms(1)
proof induction
  case pipe_init
  show ?case by (rule assms(3))
next
  case (pipe_more p p')
  have inv: "pipe_inv detect k n p" by (rule pipe_reach_inv[OF pipe_more.hyps(1) assms(2)])
  from pipe_more.hyps(2) show ?case
  proof cases
    case step_capture
    then show ?thesis using pipe_more.IH capture_iter_keeps[of next_frame p] by (simp add: events_backed_def)
  next
    case (step_infer now)
    then show ?thesis using infer_iter_backed[OF inv pipe_more.IH assms(4)] by simp
  next
    case step_stop
    then show ?thesis using pipe_more.IH by (simp add: events_backed_def Stop_def)
  qed
qed

text \<open>A positive result of the detector comes from one of the detections of the frame.\<close>

lemma Detect_positive:
  assumes "Detect srt run expf det f = Value r" "positive r"
  shows "\<exists>ds d. DetectAll srt run expf det f = Value ds \<and> d \<in> set ds \<and> confidence r = score d \<and>
    (target_class_ids (config det) = [] \<or> class_id d \<in> set (target_class_ids (config det)))"
proof -
  obtain ds where ds: "DetectAll srt run expf det f = Value ds"
    using assms(1) by (cases "DetectAll srt run expf det f") (auto simp: Detect_def)
  let ?P = "\<lambda>d. target_class_ids (config det) = [] \<or> class_id d \<in> set (target_class_ids (config det))"
  obtain d where d: "find ?P ds = Some d" "confidence r = score d"
    using assms ds by (cases "find ?P ds") (auto simp: Detect_def Let_def no_detection_def)
  have "d \<in> set ds" "?P d" using d(1) by (auto simp: find_Some_iff)
  then show ?thesis using ds d(2) by blast
qed

lemma detection_sane:
  assumes "bgr_ok f" "1 \<le> input_size (config det)" "input_size (config det) \<le> 4095" "std_sort srt" "session_ok run"
    "score_threshold (config det) \<noteq> NaN" "DetectAll srt run expf det f = Value ds" "d \<in> set ds"
  shows "fp_less (score_threshold (config det)) (score d) \<and> 0 \<le> class_id d"
proof -
  obtain r t where "well_selected det f (nat (fst (run t) ! 2) - 5) (candidates det expf f r (nat (fst (run t) ! 2)) (snd (run t))) ds"
    using DetectAll_selects[OF assms(1-6), of expf] assms(7) by auto
  then show ?thesis using assms(8) unfolding well_selected_def sane_def by blast
qed

section \<open>Sessions\<close>

text \<open>
  A pipeline from its construction on, whose event ring a consumer drains; \<open>taken\<close> are the events it
  popped.  Every event taken or waiting was offered, and as long as the offered ones fit the ring none is missing.
\<close>

definition session_inv :: "(Frame \<Rightarrow> DetectionResult) \<Rightarrow> u32 \<Rightarrow> u32 \<Rightarrow> nat \<Rightarrow> ConfirmedEvent list \<Rightarrow> 's pipeline \<Rightarrow> bool" where
  "session_inv detect k n room taken p \<longleftrightarrow> pipe_inv detect k n p \<and> events_backed detect p \<and> 0 < unat k \<and> \<not> stop_requested p \<and>
     ring_inv (out_events p) \<and> capacity (out_events p) = room \<and> set (taken @ contents (out_events p)) \<subseteq> set (offered p) \<and>
     (length (offered p) \<le> room \<longrightarrow> taken @ contents (out_events p) = offered p)"

lemma capture_iter_out [simp]: "out_events (capture_iter nf p) = out_events p"
  by (simp add: capture_iter_def Let_def split: prod.splits)

lemma process_frame_out:
  "out_events (process_frame detect now f p) = out_events p \<and> offered (process_frame detect now f p) = offered p \<or>
   (\<exists>ev. out_events (process_frame detect now f p) = snd (TryPush ev (out_events p)) \<and>
     offered (process_frame detect now f p) = offered p @ [ev])"
  by (simp add: process_frame_def Let_def split: prod.splits)

lemma infer_iter_out:
  "out_events (infer_iter detect now p) = out_events p \<and> offered (infer_iter detect now p) = offered p \<or>
   (\<exists>ev. out_events (infer_iter detect now p) = snd (TryPush ev (out_events p)) \<and> offered (infer_iter detect now p) = offered p @ [ev])"
  using process_frame_out[of detect now _ "p\<lparr>frame_ring := _\<rparr>"] by (auto simp: infer_iter_def split: prod.splits option.splits)

lemma infer_iter_keeps [simp]:
  "stop_requested (infer_iter detect now p) = stop_requested p" "set (processed p) \<subseteq> set (processed (infer_iter detect now p))"
  by (auto simp: infer_iter_def process_frame_def Let_def split: prod.splits option.splits)

lemma pipe_inv_out [simp]: "pipe_inv detect k n (p\<lparr>out_events := rb\<rparr>) = pipe_inv detect k n p"
  by (simp add: pipe_inv_def pipe_frames_def pipe_events_def pipe_end_def)

lemma session_capture:
  "session_inv detect k n room taken p \<Longrightarrow> \<not> capture_done p \<Longrightarrow> session_inv detect k n room taken (capture_iter next_frame p)"
  using capture_iter_inv[of detect k n p next_frame] capture_iter_keeps[of next_frame p] by (simp add: session_inv_def events_backed_def)

lemma session_infer:
  assumes "session_inv detect k n room taken p" "\<not> pipe_finished p"
  shows "session_inv detect k n room taken (infer_iter detect now p)"
proof -
  let ?q = "infer_iter detect now p"
  have i: "pipe_inv detect k n p" "events_backed detect p" "0 < unat k" "\<not> stop_requested p" "ring_inv (out_events p)"
    "capacity (out_events p) = room" "set (taken @ contents (out_events p)) \<subseteq> set (offered p)"
    and fit: "length (offered p) \<le> room \<Longrightarrow> taken @ contents (out_events p) = offered p"
    using assms(1) by (simp_all add: session_inv_def)
  have q: "pipe_inv detect k n ?q" "events_backed detect ?q"
    by (rule infer_iter_inv[OF i(1) assms(2)]) (rule infer_iter_backed[OF i(1-3)])
  from infer_iter_out[of detect now p] show ?thesis
  proof
    assume "out_events ?q = out_events p \<and> offered ?q = offered p"
    then show ?thesis using i fit q by (simp add: session_inv_def)
  next
    assume "\<exists>ev. out_events ?q = snd (TryPush ev (out_events p)) \<and> offered ?q = offered p @ [ev]"
    then obtain ev where ev: "out_events ?q = snd (TryPush ev (out_events p))" "offered ?q = offered p @ [ev]" by blast
    obtain b rb where push: "TryPush ev (out_events p) = (b, rb)" by fastforce
    note r = spsc.push_law[OF i(5) push]
    have "taken @ contents rb = offered p @ [ev]" if "length (offered p @ [ev]) \<le> room"
    proof -
      have f: "taken @ contents (out_events p) = offered p" using fit that by simp
      then have "length (contents (out_events p)) \<le> length (offered p)" by (metis length_append le_add2)
      then have "length (contents (out_events p)) \<noteq> capacity (out_events p)" using that i(6) by simp
      then show ?thesis using f r by simp
    qed
    moreover have "set (taken @ contents rb) \<subseteq> set (offered p @ [ev])" using r i(7) by (auto split: if_splits)
    ultimately show ?thesis using i q r by (simp add: session_inv_def ev push)
  qed
qed

lemma session_pop:
  assumes "session_inv detect k n room taken p" "TryPop moved (out_events p) = (r, rb)"
  shows "session_inv detect k n room (taken @ (case r of None \<Rightarrow> [] | Some e \<Rightarrow> [e])) (p\<lparr>out_events := rb\<rparr>)"
proof -
  have i: "ring_inv (out_events p)" using assms(1) by (simp add: session_inv_def)
  show ?thesis
    using assms(1) spsc.pop_law[OF i assms(2)]
    by (auto simp: session_inv_def events_backed_def split: option.splits list.splits)
qed

lemma session_start:
  assumes "make_pipeline open_video new_session scr frames (new_ring evs) c = Some (p, det)" "cap_ok (length frames)" "cap_ok (length evs)"
  shows "session_inv detect (pc_k c) (pc_n c) (length evs - 1) [] p"
proof -
  obtain src cf where p: "p = EdgePipeline (pc_realtime c) src scr frames (new_ring evs) cf" and k: "KOfNConfirmer (pc_k c) (pc_n c) = Some cf"
    using make_pipeline_Some[OF assms(1)] by blast
  have "pipe_inv detect (pc_k c) (pc_n c) p" unfolding p by (rule EdgePipeline_inv[OF assms(2) k])
  moreover have "capacity (new_ring evs) = length evs - 1" by (simp add: capacity_def Capacity_def new_ring_def)
  moreover have "0 < unat (pc_k c)" using KOfNConfirmer_inv[OF k] by simp
  ultimately show ?thesis using new_ring_inv[OF assms(3)] by (simp add: session_inv_def events_backed_def p EdgePipeline_def)
qed

text \<open>A session that has ended by itself: all captured frames were processed, with one event per episode.\<close>

lemma session_over:
  assumes "session_inv detect k n room taken p" "pipe_finished p" "\<not> 0 < SizeApprox (out_events p)"
  shows "processed p = captured p" "length (offered p) = length (rising (confirmations detect (unat k) (unat n) (processed p)))"
    "length (offered p) \<le> room \<Longrightarrow> taken = offered p"
proof -
  have p: "pipe_frames p" "pipe_end p" "pipe_events detect k n p" "ring_inv (out_events p)" "\<not> stop_requested p"
    and fit: "length (offered p) \<le> room \<Longrightarrow> taken @ contents (out_events p) = offered p"
    using assms(1) by (simp_all add: session_inv_def pipe_inv_def)
  have "contents (out_events p) = []" using assms(3) SizeApprox_0_iff[OF p(4)] word_neq_0_conv by blast
  then show "length (offered p) \<le> room \<Longrightarrow> taken = offered p" using fit by simp
  show "processed p = captured p" using p(1,2,5) assms(2) by (simp add: pipe_end_def pipe_frames_def)
  show "length (offered p) = length (rising (confirmations detect (unat k) (unat n) (processed p)))"
    using p(3) unfolding pipe_events_def Let_def by (metis length_map)
qed

text \<open>A session that sees an object in every cell, and a run in which one frame is captured and processed.\<close>

definition sees_all :: "fp list \<Rightarrow> int list \<times> fp list" where
  "sees_all t = ([1, 3549, 6], concat (replicate 3549 [Fin 0, Fin 0, Fin 0, Fin 0, Fin 1, Fin 1]))"

definition alarm_config :: EdgePipelineConfig where
  "alarm_config = default_pipeline_config\<lparr>pc_k := 1, pc_n := 1, pc_score_threshold := Fin (1/4)\<rparr>"

definition alarm_detector :: onnx_detector where
  "alarm_detector = \<lparr>config = detector_config alarm_config, cells = grid 416\<rparr>"

definition alarm_detect :: "Frame \<Rightarrow> DetectionResult" where
  "alarm_detect f = (case Detect insertion_sort sees_all (\<lambda>_. Fin 1) alarm_detector f of Value r \<Rightarrow> r | _ \<Rightarrow> no_detection)"

definition alarm_source :: "unit video_source frame_source" where
  "alarm_source s f = (True, s, tiny_frame)"

definition alarm_start :: "unit video_source pipeline" where
  "alarm_start = EdgePipeline True \<lparr>capture = (), loop = False, vid_next_index = 0\<rparr> tiny_frame (replicate 4 tiny_frame) (new_ring []) demo_confirmer"

lemma alarm_pipeline:
  "make_pipeline (\<lambda>_. Some ()) (\<lambda>_ _. Some (1, 1, [1, 3, 416, 416])) tiny_frame (replicate 4 tiny_frame) (new_ring []) alarm_config =
     Some (alarm_start, alarm_detector)"
  by (simp add: make_pipeline_def VideoFileFrameSource_def OnnxCpuDetector_def KOfNConfirmer_def alarm_config_def
      default_pipeline_config_def detector_config_def alarm_start_def alarm_detector_def demo_confirmer_def)

lemma length_grid: "length (cells alarm_detector) = 3549"
  by (simp add: alarm_detector_def grid_def grid_of_def length_concat comp_def sum_list_triv)

lemma row_const: "i < n \<Longrightarrow> length p = dims \<Longrightarrow> row dims (concat (replicate n p)) i = p"
proof (induction n arbitrary: i)
  case (Suc n)
  then show ?case by (cases i) (simp_all add: row_def)
qed simp

lemma session_sees_all: "session_ok sees_all"
  by (simp add: session_ok_def sees_all_def finite_fp_def length_concat sum_list_replicate)

lemma alarm_config_sel: "input_size (config alarm_detector) = 416" "score_threshold (config alarm_detector) = Fin (1/4)" "target_class_ids (config alarm_detector) = []"
  by (simp_all add: alarm_detector_def detector_config_def alarm_config_def default_pipeline_config_def)

lemma alarm_candidate:
  "decode_row (config alarm_detector) (\<lambda>_. Fin 1) w h r 1 cell [Fin 0, Fin 0, Fin 0, Fin 0, Fin 1, Fin 1] \<noteq> None"
proof -
  have "representable binary32 1" using representable_int[of 1 binary32] by (simp add: binary32_def)
  then have "rnd binary32 1 = Fin 1" by (rule rnd_exact)
  then show ?thesis by (simp add: decode_row_def best_class_def alarm_config_sel Let_def split: prod.split)
qed

lemma nms_nonempty: "cs \<noteq> [] \<Longrightarrow> nms th cs \<noteq> []"
proof -
  have "foldl (\<lambda>kept c. if list_ex (Q c) kept then kept else kept @ [c]) ks cs \<noteq> []" if "ks \<noteq> []" for Q and ks :: "Detection list" and cs
    using that by (induction cs arbitrary: ks) auto
  then show "cs \<noteq> [] \<Longrightarrow> nms th cs \<noteq> []" by (cases cs) (simp_all add: nms_def)
qed

lemma insertion_sort_nonempty: "cs \<noteq> [] \<Longrightarrow> insertion_sort cs \<noteq> []"
proof -
  have "insert_by_score c ds \<noteq> []" for c ds by (cases ds) auto
  then show "cs \<noteq> [] \<Longrightarrow> insertion_sort cs \<noteq> []" by (cases cs) (simp_all add: insertion_sort_def)
qed

lemma alarm_detects:
  "Detect insertion_sort sees_all (\<lambda>_. Fin 1) alarm_detector tiny_frame = Value (alarm_detect tiny_frame) \<and> positive (alarm_detect tiny_frame)"
proof -
  have f: "bgr_ok tiny_frame" by (simp add: bgr_ok_def tiny_frame_def)
  obtain r t where p: "Preprocess (config alarm_detector) tiny_frame = Value (r, t)"
    using Preprocess_in_bounds[OF f, of "config alarm_detector"] alarm_config_sel(1) by auto
  let ?cs = "candidates alarm_detector (\<lambda>_. Fin 1) tiny_frame r 6 (snd (sees_all t))"
  have "row 6 (snd (sees_all t)) 0 = [Fin 0, Fin 0, Fin 0, Fin 0, Fin 1, Fin 1]" using row_const[of 0 3549 "[Fin 0, Fin 0, Fin 0, Fin 0, Fin 1, Fin 1]" 6] by (simp add: sees_all_def)
  moreover have "0 \<in> set [0..<length (cells alarm_detector)]" by (simp only: length_grid set_upt) simp
  ultimately have "?cs \<noteq> []"
    unfolding candidates_def map_filter_def map_is_Nil_conv filter_empty_conv comp_def using alarm_candidate by fastforce
  then have "insertion_sort ?cs \<noteq> []" by (rule insertion_sort_nonempty)
  then obtain d ds where ds: "nms (nms_iou_threshold (config alarm_detector)) (insertion_sort ?cs) = d # ds"
    using nms_nonempty by (metis list.exhaust)
  have "DetectAll insertion_sort sees_all (\<lambda>_. Fin 1) alarm_detector tiny_frame = Value (d # ds)"
    using ds by (simp add: DetectAll_def p length_grid) (simp add: sees_all_def)
  then show ?thesis by (simp add: alarm_detect_def Detect_def alarm_config_sel Let_def)
qed

definition alarm_end :: "unit video_source pipeline" where
  "alarm_end = infer_iter alarm_detect 5 (capture_iter alarm_source alarm_start)"

lemma alarm_reach: "pipe_reach alarm_source alarm_detect alarm_start alarm_end"
proof -
  have "pipe_step alarm_source alarm_detect alarm_start (capture_iter alarm_source alarm_start)"
    by (rule step_capture) (simp add: alarm_start_def EdgePipeline_def)
  moreover have "\<not> pipe_finished (capture_iter alarm_source alarm_start)"
    using capture_iter_keeps[of alarm_source alarm_start] by (simp add: alarm_start_def EdgePipeline_def)
  ultimately show ?thesis unfolding alarm_end_def by (metis pipe_init pipe_more step_infer)
qed

lemma alarm_run: "processed alarm_end = [tiny_frame]" "\<exists>e. offered alarm_end = [e]"
proof -
  have c: "capture_iter alarm_source alarm_start =
      alarm_start\<lparr>frame_ring := (frame_ring alarm_start)\<lparr>slots := replicate 4 tiny_frame, rb_tail := 1\<rparr>,
        frames_captured := 1, captured := [tiny_frame], produced := [tiny_frame]\<rparr>"
    by (simp add: capture_iter_def alarm_source_def alarm_start_def EdgePipeline_def new_ring_def TryPushWith_def kMask_def Capacity_def Let_def eval_nat_numeral)
  show "processed alarm_end = [tiny_frame]" "\<exists>e. offered alarm_end = [e]"
    using alarm_detects unfolding alarm_end_def c
    by (simp_all add: infer_iter_def alarm_start_def EdgePipeline_def new_ring_def TryPopWith_def SizeApprox_def kMask_def Capacity_def Let_def
      process_frame_def Update_def demo_confirmer_def eval_nat_numeral)
qed

text \<open>
  C14: every alarm is backed by a detection.  Whatever the interleaving of the threads, an event the
  pipeline reports names a frame it processed, and on that frame the network found an object of a wanted class
  with exactly the reported confidence, above the configured threshold; this for a detector that answered
  on the processed frames, with a session whose output is finite.
\<close>

theorem edge_events_sound:
  assumes "make_pipeline open_video new_session scr frames out c = Some (p0, det)" "cap_ok (length frames)"
    and "pipe_reach next_frame detect p0 p" "e \<in> set (offered p)"
    and "\<forall>f\<in>set (processed p). bgr_ok f \<and> Detect srt run expf det f = Value (detect f)"
    and "std_sort srt" "session_ok run" "pc_score_threshold c \<noteq> NaN"
  shows "\<exists>f\<in>set (processed p). \<exists>ds d. DetectAll srt run expf det f = Value ds \<and> d \<in> set ds \<and>
    ev_frame_index e = frame_index f \<and> ev_capture_time e = capture_time_unix_ns f \<and> ev_confidence e = score d \<and>
    fp_less (pc_score_threshold c) (score d) \<and> (pc_target_class_ids c = [] \<or> class_id d \<in> set (pc_target_class_ids c))"
proof -
  obtain src cf where p0: "p0 = EdgePipeline (pc_realtime c) src scr frames out cf" and k: "KOfNConfirmer (pc_k c) (pc_n c) = Some cf"
    and det: "config det = detector_config c"
    using make_pipeline_Some[OF assms(1)] by blast
  have "pipe_inv detect (pc_k c) (pc_n c) p0" unfolding p0 by (rule EdgePipeline_inv[OF assms(2) k])
  moreover have "events_backed detect p0" by (simp add: p0 EdgePipeline_def events_backed_def)
  moreover have "0 < unat (pc_k c)" using KOfNConfirmer_inv[OF k] by simp
  ultimately have "events_backed detect p" by (rule pipe_reach_backed[OF assms(3)])
  then obtain f where f: "f \<in> set (processed p)" "event_of detect f e" using assms(4) by (auto simp: events_backed_def)
  have ok: "bgr_ok f" "Detect srt run expf det f = Value (detect f)" using assms(5) f(1) by auto
  obtain ds d where d: "DetectAll srt run expf det f = Value ds" "d \<in> set ds" "confidence (detect f) = score d"
    "target_class_ids (config det) = [] \<or> class_id d \<in> set (target_class_ids (config det))"
    using Detect_positive[OF ok(2)] f(2) by (auto simp: event_of_def)
  have "fp_less (score_threshold (config det)) (score d)"
    using detection_sane[OF ok(1) _ _ assms(6,7) _ d(1,2)] assms(8) by (simp add: det detector_config_def)
  then show ?thesis using f d by (auto simp: event_of_def det detector_config_def)
qed

theorem edge_events_sound_witness:
  "\<exists>e f ds d. e \<in> set (offered alarm_end) \<and> f \<in> set (processed alarm_end) \<and>
     DetectAll insertion_sort sees_all (\<lambda>_. Fin 1) alarm_detector f = Value ds \<and> d \<in> set ds \<and>
     ev_frame_index e = frame_index f \<and> ev_confidence e = score d \<and> fp_less (Fin (1/4)) (score d)"
proof -
  obtain e where e: "offered alarm_end = [e]" using alarm_run(2) by blast
  have "cap_ok (length (replicate 4 tiny_frame))" using cap_ok_4 by (simp add: eval_nat_numeral)
  moreover have "bgr_ok tiny_frame" by (simp add: bgr_ok_def tiny_frame_def)
  moreover have "e \<in> set (offered alarm_end)" by (simp add: e)
  moreover have "pc_score_threshold alarm_config = Fin (1/4)" by (simp add: alarm_config_def)
  ultimately show ?thesis
    using edge_events_sound[OF alarm_pipeline _ alarm_reach, of e insertion_sort sees_all "\<lambda>_. Fin 1"]
      alarm_run(1) alarm_detects std_sort_insertion session_sees_all by auto
qed

end
