(* ===== verification/EdgeTool.thy ===== *)
theory EdgeTool
  imports Agent Tools EdgeDetector
begin

text \<open>
  The command-line pipeline, tools/ridgeline_edge.cc: its options, the loop that drains confirmed
  events while the threads of the pipeline run, and the summary it prints.
\<close>

record edge_options =
  eo_video :: string
  eo_model :: string
  eo_classes :: "int list"
  eo_k :: u32
  eo_n :: u32
  eo_threads :: int
  eo_score :: fp
  eo_realtime :: bool
  eo_loop :: bool

definition default_edge_options :: "string \<Rightarrow> edge_options" where
  "default_edge_options model = \<lparr>eo_video = [], eo_model = model, eo_classes = [], eo_k = 3, eo_n = 5, eo_threads = 1,
     eo_score = f32 (3/10), eo_realtime = True, eo_loop = False\<rparr>"

definition edge_flags :: "(string \<times> (string \<Rightarrow> edge_options \<Rightarrow> edge_options)) list" where
  "edge_flags =
    [(''--video='', \<lambda>v r. r\<lparr>eo_video := v\<rparr>),
     (''--model='', \<lambda>v r. r\<lparr>eo_model := v\<rparr>),
     (''--classes='', \<lambda>v r. r\<lparr>eo_classes := ParseClassList v\<rparr>),
     (''--k='', \<lambda>v r. r\<lparr>eo_k := u32_of_atoi v\<rparr>),
     (''--n='', \<lambda>v r. r\<lparr>eo_n := u32_of_atoi v\<rparr>),
     (''--threads='', \<lambda>v r. r\<lparr>eo_threads := atoi v\<rparr>),
     (''--score='', \<lambda>v r. r\<lparr>eo_score := to_float (atof v)\<rparr>)]"

fun edge_args :: "string list \<Rightarrow> edge_options \<Rightarrow> edge_options option" where
  "edge_args [] r = Some r"
| "edge_args (a # as) r =
     (case apply_flag edge_flags a r of
        Some r' \<Rightarrow> edge_args as r'
      | None \<Rightarrow> if a = ''--no-realtime'' then edge_args as (r\<lparr>eo_realtime := False\<rparr>)
                else if a = ''--loop'' then edge_args as (r\<lparr>eo_loop := True\<rparr>)
                else None)"

text \<open>\<open>None\<close> is the exit with code 2.\<close>

definition edge_ParseArgs :: "string \<Rightarrow> string list \<Rightarrow> edge_options option" where
  "edge_ParseArgs model args =
     (case edge_args args (default_edge_options model) of
        None \<Rightarrow> None
      | Some r \<Rightarrow> if eo_video r = [] then None else Some r)"

text \<open>The configuration of the pipeline; the agent's producer fills it from its current settings.\<close>

definition edge_config :: "edge_options \<Rightarrow> EdgePipelineConfig" where
  "edge_config opt = default_pipeline_config\<lparr>pc_video_path := eo_video opt, pc_model_path := eo_model opt,
     pc_target_class_ids := eo_classes opt, pc_k := eo_k opt, pc_n := eo_n opt, pc_intra_op_threads := eo_threads opt,
     pc_score_threshold := eo_score opt, pc_realtime := eo_realtime opt, pc_loop := eo_loop opt\<rparr>"

definition agent_pipeline_config :: "Options \<Rightarrow> agent \<Rightarrow> EdgePipelineConfig" where
  "agent_pipeline_config opt a = default_pipeline_config\<lparr>pc_video_path := opt_video opt, pc_model_path := opt_model opt,
     pc_target_class_ids := opt_classes opt, pc_k := current_confirm_k a, pc_n := current_confirm_n a,
     pc_intra_op_threads := opt_threads opt, pc_score_threshold := current_score_threshold a, pc_realtime := True,
     pc_loop := opt_loop opt\<rparr>"

text \<open>The pipeline the agent's video producer runs is the one this configuration gives.\<close>

lemma agent_builds_pipeline:
  assumes "make_pipeline open_video new_session scr frames (new_ring evs) (agent_pipeline_config opt a) = Some (p, det)"
  shows "\<exists>src. build_pipeline src scr frames evs a = Some p"
  using make_pipeline_Some[OF assms] by (auto simp: build_pipeline_def agent_pipeline_config_def)

text \<open>The drain loop: its condition and one round, with the episodes counted and the latencies collected.\<close>

definition drain_continues :: "'s pipeline \<Rightarrow> bool" where
  "drain_continues p \<longleftrightarrow> \<not> pipe_finished p \<or> SizeApprox (out_events p) > 0"

definition drain_round :: "(ConfirmedEvent \<Rightarrow> ConfirmedEvent) \<Rightarrow> 's pipeline \<Rightarrow> u64 \<Rightarrow> int list \<Rightarrow> 's pipeline \<times> u64 \<times> int list" where
  "drain_round moved p episodes samples =
     (case TryPop moved (out_events p) of
        (None, evs) \<Rightarrow> (p\<lparr>out_events := evs\<rparr>, episodes, samples)
      | (Some ev, evs) \<Rightarrow> (p\<lparr>out_events := evs\<rparr>, episodes + 1, samples @ [ev_decided_time ev - ev_capture_time ev]))"

section \<open>Running\<close>

text \<open>
  The capture thread, the inference thread and the draining main thread interleave; a step is one round of one of
  their loops.  The main thread stops the pipeline only after its loop, so no stop request is among the steps.
\<close>

record 's edge_run =
  er_pipe :: "'s pipeline"
  er_episodes :: u64
  er_samples :: "int list"

inductive edge_reach :: "'s frame_source \<Rightarrow> (Frame \<Rightarrow> DetectionResult) \<Rightarrow> (ConfirmedEvent \<Rightarrow> ConfirmedEvent) \<Rightarrow> 's pipeline \<Rightarrow> 's edge_run \<Rightarrow> bool"
  for next_frame detect moved p0 where
  edge_start: "edge_reach next_frame detect moved p0 \<lparr>er_pipe = p0, er_episodes = 0, er_samples = []\<rparr>"
| edge_capture: "edge_reach next_frame detect moved p0 s \<Longrightarrow> \<not> capture_done (er_pipe s) \<Longrightarrow>
    edge_reach next_frame detect moved p0 (s\<lparr>er_pipe := capture_iter next_frame (er_pipe s)\<rparr>)"
| edge_infer: "edge_reach next_frame detect moved p0 s \<Longrightarrow> \<not> pipe_finished (er_pipe s) \<Longrightarrow>
    edge_reach next_frame detect moved p0 (s\<lparr>er_pipe := infer_iter detect now (er_pipe s)\<rparr>)"
| edge_drain: "edge_reach next_frame detect moved p0 s \<Longrightarrow> drain_continues (er_pipe s) \<Longrightarrow>
    drain_round moved (er_pipe s) (er_episodes s) (er_samples s) = (p, e, l) \<Longrightarrow>
    edge_reach next_frame detect moved p0 \<lparr>er_pipe = p, er_episodes = e, er_samples = l\<rparr>"

text \<open>The frames from the source, as the summary prints them.\<close>

definition edge_total :: "'s pipeline \<Rightarrow> u64" where
  "edge_total p = frames_captured p + frames_dropped p"

definition decision_ns :: "ConfirmedEvent \<Rightarrow> int" where
  "decision_ns ev = ev_decided_time ev - ev_capture_time ev"

definition edge_inv :: "(Frame \<Rightarrow> DetectionResult) \<Rightarrow> u32 \<Rightarrow> u32 \<Rightarrow> nat \<Rightarrow> 's edge_run \<Rightarrow> bool" where
  "edge_inv detect k n room s \<longleftrightarrow> er_episodes s = word_of_nat (length (er_samples s)) \<and>
     (\<exists>taken. session_inv detect k n room taken (er_pipe s) \<and> er_samples s = map decision_ns taken)"

lemma edge_inv_drain:
  assumes "edge_inv detect k n room s" "drain_round moved (er_pipe s) (er_episodes s) (er_samples s) = (p, e, l)"
  shows "edge_inv detect k n room \<lparr>er_pipe = p, er_episodes = e, er_samples = l\<rparr>"
proof -
  obtain taken where t: "session_inv detect k n room taken (er_pipe s)" "er_samples s = map decision_ns taken"
    and e: "er_episodes s = word_of_nat (length (er_samples s))"
    using assms(1) by (auto simp: edge_inv_def)
  obtain r rb where pop: "TryPop moved (out_events (er_pipe s)) = (r, rb)" by fastforce
  have "p = er_pipe s\<lparr>out_events := rb\<rparr>" "l = map decision_ns (taken @ (case r of None \<Rightarrow> [] | Some e \<Rightarrow> [e]))" "e = word_of_nat (length l)"
    using assms(2) e by (auto simp: drain_round_def pop t(2) decision_ns_def split: option.splits)
  then show ?thesis using session_pop[OF t(1) pop] by (auto simp: edge_inv_def)
qed

lemma edge_reach_inv:
  assumes "edge_reach next_frame detect moved p0 s" "session_inv detect k n room [] p0"
  shows "edge_inv detect k n room s"
  using assms(1)
proof induction
  case edge_start
  show ?case using assms(2) by (simp add: edge_inv_def)
next
  case (edge_capture s)
  then show ?case by (auto simp: edge_inv_def intro: session_capture)
next
  case (edge_infer s now)
  then show ?case by (auto simp: edge_inv_def intro: session_infer)
next
  case (edge_drain s p e l)
  then show ?case by (rule_tac edge_inv_drain)
qed

text \<open>A run needs a video; the counter and the collection grow together.\<close>

lemma edge_needs_video: "edge_ParseArgs model args = Some r \<Longrightarrow> eo_video r \<noteq> []"
  by (auto simp: edge_ParseArgs_def split: option.splits if_splits)

lemma drain_counts:
  assumes "drain_round moved p episodes samples = (p', episodes', samples')" "episodes = word_of_nat (length samples)"
  shows "episodes' = word_of_nat (length samples')"
  using assms by (auto simp: drain_round_def split: prod.splits option.splits)

text \<open>
  What the tool prints when its drain loop is left: the frames from the source are those the source delivered, all
  captured frames were processed, and there is one latency per episode.  The pipeline offered one event per rising
  edge of the K-of-N condition, and as long as they fit the event ring they are the ones counted.
\<close>

lemma edge_tool_summary:
  assumes "make_pipeline open_video new_session scr frames (new_ring evs) (edge_config opt) = Some (p0, det)"
    and "cap_ok (length frames)" "cap_ok (length evs)"
    and "edge_reach next_frame detect moved p0 s" "\<not> drain_continues (er_pipe s)"
  defines "p \<equiv> er_pipe s"
  shows "edge_total p = word_of_nat (length (produced p)) \<and> processed p = captured p \<and> (\<not> realtime p \<longrightarrow> processed p = produced p) \<and>
    length (offered p) = length (rising (confirmations detect (unat (eo_k opt)) (unat (eo_n opt)) (processed p))) \<and>
    er_episodes s = word_of_nat (length (er_samples s)) \<and> (length (offered p) < length evs \<longrightarrow> er_samples s = map decision_ns (offered p))"
proof -
  have "edge_inv detect (eo_k opt) (eo_n opt) (length evs - 1) s"
    using edge_reach_inv[OF assms(4) session_start[OF assms(1-3)]] by (simp add: edge_config_def)
  then obtain taken where t: "session_inv detect (eo_k opt) (eo_n opt) (length evs - 1) taken p" "er_samples s = map decision_ns taken"
    "er_episodes s = word_of_nat (length (er_samples s))"
    by (auto simp: edge_inv_def p_def)
  have e: "pipe_finished p" "\<not> 0 < SizeApprox (out_events p)" using assms(5) by (auto simp: drain_continues_def p_def)
  note over = session_over[OF t(1) e]
  have f: "pipe_frames p" using t(1) by (simp add: session_inv_def pipe_inv_def)
  then have "edge_total p = word_of_nat (length (produced p))"
    unfolding pipe_frames_def edge_total_def by (metis le_add_diff_inverse of_nat_add)
  moreover have "\<not> realtime p \<longrightarrow> processed p = produced p" using f over(1) by (simp add: pipe_frames_def)
  moreover have "length (offered p) < length evs \<longrightarrow> er_samples s = map decision_ns (offered p)"
    using over(3) t(2) by auto
  ultimately show ?thesis using over(1,2) t(3) by blast
qed

text \<open>A run on a clip of two frames, the object being in the first.\<close>

definition clip_frame :: "u64 \<Rightarrow> Frame" where
  "clip_frame i = \<lparr>width = 1, height = 1, used_bytes = 3, format = kBgr24, capture_time_unix_ns = 0, frame_index = i, data = []\<rparr>"

definition clip_next :: "unit video_source frame_source" where
  "clip_next s f = (if vid_next_index s < 2 then (True, s\<lparr>vid_next_index := vid_next_index s + 1\<rparr>, clip_frame (vid_next_index s)) else (False, s, f))"

definition clip_detect :: "Frame \<Rightarrow> DetectionResult" where
  "clip_detect f = no_detection\<lparr>positive := frame_index f = 0\<rparr>"

definition clip_events :: "ConfirmedEvent list" where
  "clip_events = replicate 4 (make_event 0 (clip_frame 9) no_detection demo_confirmer)"

definition clip_options :: edge_options where
  "clip_options = (default_edge_options ''m'')\<lparr>eo_video := ''v'', eo_k := 1, eo_n := 1, eo_realtime := False\<rparr>"

definition clip_start :: "unit video_source pipeline" where
  "clip_start = EdgePipeline False \<lparr>capture = (), loop = False, vid_next_index = 0\<rparr> (clip_frame 9) (replicate 4 (clip_frame 9))
     (new_ring clip_events) demo_confirmer"

definition clip_capture :: "unit video_source edge_run \<Rightarrow> unit video_source edge_run" where
  "clip_capture s = s\<lparr>er_pipe := capture_iter clip_next (er_pipe s)\<rparr>"

definition clip_infer :: "unit video_source edge_run \<Rightarrow> unit video_source edge_run" where
  "clip_infer s = s\<lparr>er_pipe := infer_iter clip_detect 5 (er_pipe s)\<rparr>"

definition clip_drain :: "unit video_source edge_run \<Rightarrow> unit video_source edge_run" where
  "clip_drain s = (case drain_round id (er_pipe s) (er_episodes s) (er_samples s) of (p, e, l) \<Rightarrow> \<lparr>er_pipe = p, er_episodes = e, er_samples = l\<rparr>)"

definition clip_captured :: "unit video_source edge_run" where
  "clip_captured = clip_capture (clip_capture (clip_capture \<lparr>er_pipe = clip_start, er_episodes = 0, er_samples = []\<rparr>))"

definition clip_end :: "unit video_source edge_run" where
  "clip_end = clip_drain (clip_infer (clip_infer (clip_infer clip_captured)))"

abbreviation clip_reach :: "unit video_source edge_run \<Rightarrow> bool" where
  "clip_reach \<equiv> edge_reach clip_next clip_detect id clip_start"

lemma clip_steps:
  "clip_reach s \<Longrightarrow> \<not> capture_done (er_pipe s) \<Longrightarrow> clip_reach (clip_capture s)"
  "clip_reach s \<Longrightarrow> \<not> pipe_finished (er_pipe s) \<Longrightarrow> clip_reach (clip_infer s)"
  "clip_reach s \<Longrightarrow> drain_continues (er_pipe s) \<Longrightarrow> clip_reach (clip_drain s)"
  unfolding clip_capture_def clip_infer_def clip_drain_def
  by (auto intro: edge_capture edge_infer edge_drain split: prod.split)

lemma clip_reach_end: "clip_reach clip_end"
proof -
  have "clip_reach clip_captured" unfolding clip_captured_def by (intro clip_steps edge_start; code_simp)
  then show ?thesis unfolding clip_end_def by (intro clip_steps; (assumption | code_simp))
qed

lemma clip_pipeline:
  "make_pipeline (\<lambda>_. Some ()) (\<lambda>_ _. Some (1, 1, [1, 3, 416, 416])) (clip_frame 9) (replicate 4 (clip_frame 9)) (new_ring clip_events)
     (edge_config clip_options) = Some (clip_start, \<lparr>config = detector_config (edge_config clip_options), cells = grid 416\<rparr>)"
  by (simp add: make_pipeline_def VideoFileFrameSource_def OnnxCpuDetector_def KOfNConfirmer_def clip_options_def default_edge_options_def
      edge_config_def default_pipeline_config_def detector_config_def clip_start_def demo_confirmer_def)

lemma clip_facts:
  "cap_ok (length (replicate 4 (clip_frame 9)))" "cap_ok (length clip_events)" "\<not> drain_continues (er_pipe clip_end)"
  "length (offered (er_pipe clip_end)) = 1" "processed (er_pipe clip_end) = [clip_frame 0, clip_frame 1]"
proof -
  show "cap_ok (length (replicate 4 (clip_frame 9)))" "cap_ok (length clip_events)" using cap_ok_4 by (simp_all add: eval_nat_numeral clip_events_def)
  show "\<not> drain_continues (er_pipe clip_end)" "length (offered (er_pipe clip_end)) = 1" "processed (er_pipe clip_end) = [clip_frame 0, clip_frame 1]"
    by code_simp+
qed

end
