(* ===== verification/AgentDisk.thy ===== *)
theory AgentDisk
  imports Agent
begin

text \<open>
  The agent's process on its own disk (agent/src/main.cc over core/src/wal.cc): startup, the commit of
  an event, the handling of an acknowledgement and compaction, each with the system calls of the
  log.  The process may die in any call.  The section at the end shows that a restart finds what the
  abstract agent of theory \<open>Agent\<close> had, up to the operation that was interrupted.
\<close>

section \<open>The process and its operations\<close>

record node =
  node_wal :: wal
  node_outbox :: outbox
  node_next :: u64
  bytes_since_compact :: u64

definition start_io :: "path \<Rightarrow> path \<Rightarrow> node io" where
  "start_io wp cp =
     io_bind (Wal wp cp) (\<lambda>w.
     io_bind (ReplayUnacked w) (\<lambda>rs.
     io_ret \<lparr>node_wal = w, node_outbox = foldl (\<lambda>ob (sq, bytes). Outbox_Push sq bytes ob) [] rs,
       node_next = foldl (\<lambda>m (sq, bytes). max m sq) (last_acked_seq w) rs + 1, bytes_since_compact = 0\<rparr>))"

text \<open>
  The head of \<open>main\<close>: the state directory, the names of the two files in it, and startup.  \<open>created\<close> says
  whether \<open>create_directories\<close> succeeded; \<open>Inl\<close> is the exit code.
\<close>

definition path_append :: "path \<Rightarrow> path \<Rightarrow> path" where
  "path_append dir name = (if dir = [] \<or> last dir = CHR ''/'' then dir @ name else dir @ ''/'' @ name)"

definition agent_boot :: "bool \<Rightarrow> Options \<Rightarrow> (int + node) io" where
  "agent_boot created opt =
     (if \<not> created then io_ret (Inl 1)
      else io_bind (start_io (path_append (opt_state_dir opt) ''events.wal'') (path_append (opt_state_dir opt) ''events.ckpt'')) (\<lambda>nd.
           io_ret (Inr nd)))"

definition emit_io :: "(DetectionEvent \<Rightarrow> byte list) \<Rightarrow> DetectionEvent \<Rightarrow> node \<Rightarrow> node io" where
  "emit_io ser d nd =
     (let d' = d\<lparr>seq := node_next nd\<rparr>;
          bytes = ser d'
      in io_bind (Append (node_wal nd) (node_next nd) bytes) (\<lambda>_.
         io_ret (nd\<lparr>node_outbox := Outbox_Push (node_next nd) bytes (node_outbox nd), node_next := node_next nd + 1\<rparr>)))"

definition on_ack_io :: "u64 \<Rightarrow> node \<Rightarrow> node io" where
  "on_ack_io up_to nd =
     (let nd' = nd\<lparr>node_outbox := AckUpTo up_to (node_outbox nd)\<rparr>
      in io_bind (Acknowledge (node_wal nd') up_to) (\<lambda>w. io_ret (nd'\<lparr>node_wal := w\<rparr>)))"

definition compact_io :: "node \<Rightarrow> node io" where
  "compact_io nd =
     io_bind (FileSizeBytes (node_wal nd)) (\<lambda>sz.
       if compaction_due sz (bytes_since_compact nd)
       then io_bind (Compact (node_wal nd)) (\<lambda>_.
            io_bind (FileSizeBytes (node_wal nd)) (\<lambda>sz'.
            io_ret (nd\<lparr>bytes_since_compact := word_of_nat sz'\<rparr>)))
       else io_ret nd)"

datatype node_act = ActEmit DetectionEvent | ActAck u64 | ActCompact

fun act_io :: "(DetectionEvent \<Rightarrow> byte list) \<Rightarrow> node_act \<Rightarrow> node \<Rightarrow> node io" where
  "act_io ser (ActEmit d) nd = emit_io ser d nd"
| "act_io ser (ActAck u) nd = on_ack_io u nd"
| "act_io ser ActCompact nd = compact_io nd"

text \<open>The same operations of the abstract agent.\<close>

fun agent_act :: "(DetectionEvent \<Rightarrow> byte list) \<Rightarrow> node_act \<Rightarrow> agent \<Rightarrow> agent" where
  "agent_act ser (ActEmit d) a = emit ser d a"
| "agent_act ser (ActAck u) a = on_gateway_message (MAck u) a"
| "agent_act ser ActCompact a = a\<lparr>alog := spec_op OpCompact (alog a)\<rparr>"

text \<open>
  An operation is admissible when the payload is one the log can replay and the sequence
  numbers do not run out, and when the gateway acknowledges only numbers that were given out.
\<close>

definition next_of :: "log_spec \<Rightarrow> u64" where
  "next_of l = foldl (\<lambda>m (sq, bytes). max m sq) (fst l) (snd l) + 1"

fun act_fits :: "(DetectionEvent \<Rightarrow> byte list) \<Rightarrow> node_act \<Rightarrow> log_spec \<Rightarrow> bool" where
  "act_fits ser (ActEmit d) l \<longleftrightarrow> length (ser (d\<lparr>seq := next_of l\<rparr>)) \<le> max_payload \<and> next_of l + 1 \<noteq> 0"
| "act_fits ser (ActAck u) l \<longleftrightarrow> u < next_of l"
| "act_fits ser ActCompact l \<longleftrightarrow> True"

fun act_op :: "(DetectionEvent \<Rightarrow> byte list) \<Rightarrow> node_act \<Rightarrow> u64 \<Rightarrow> wal_op" where
  "act_op ser (ActEmit d) n = OpAppend n (ser (d\<lparr>seq := n\<rparr>))"
| "act_op ser (ActAck u) n = OpAck u"
| "act_op ser ActCompact n = OpCompact"

definition act_spec :: "(DetectionEvent \<Rightarrow> byte list) \<Rightarrow> node_act \<Rightarrow> log_spec \<Rightarrow> log_spec" where
  "act_spec ser act l = spec_op (act_op ser act (next_of l)) l"

fun act_bytes :: "node_act \<Rightarrow> nat" where
  "act_bytes (ActEmit d) = 16 + max_payload"
| "act_bytes (ActAck u) = 0"
| "act_bytes ActCompact = 0"

section \<open>A run refines the abstract agent\<close>

definition node_exec :: "(DetectionEvent \<Rightarrow> byte list) \<Rightarrow> node_act \<Rightarrow> node \<Rightarrow> fsys \<times> script \<Rightarrow> node option \<times> fsys \<times> script" where
  "node_exec ser act nd d = (case act_io ser act nd d of (Ret nd', d') \<Rightarrow> (Some nd', d') | (_, d') \<Rightarrow> (None, d'))"

text \<open>The log is clean, and outbox and next number are those of the log.\<close>

definition node_good :: "nat \<Rightarrow> node \<Rightarrow> fsys \<times> script \<Rightarrow> bool" where
  "node_good n nd d \<longleftrightarrow> wal_good n (node_wal nd) d \<and>
     (let l = disk_log (node_wal nd) (fst d) in mirrors (node_outbox nd) (fst l) (snd l) (node_next nd))"

definition node_durable :: "node \<Rightarrow> fsys \<times> script \<Rightarrow> log_spec" where
  "node_durable nd d = disk_log (node_wal nd) (fst d)"

lemma next_of_agent: "next_seq (agent_start opt l) = next_of l"
  by (cases l) (simp add: agent_start_def next_of_def)

lemma mirrors_next: "mirrors ob (fst l) (snd l) n \<Longrightarrow> next_of l = n"
  using agent_start_replays(2)[of "snd l" "fst l" n demo_options] next_of_agent[of demo_options l]
  by (simp add: mirrors_def)

lemma mirrors_act:
  assumes "mirrors ob (fst l) (snd l) n" "act_fits ser act l"
  shows "case act of
      ActEmit d \<Rightarrow> mirrors (Outbox_Push n (ser (d\<lparr>seq := n\<rparr>)) ob) (fst (act_spec ser act l)) (snd (act_spec ser act l)) (n + 1)
    | ActAck u \<Rightarrow> mirrors (AckUpTo u ob) (fst (act_spec ser act l)) (snd (act_spec ser act l)) n
    | ActCompact \<Rightarrow> mirrors ob (fst (act_spec ser act l)) (snd (act_spec ser act l)) n"
proof (cases act)
  case (ActEmit d)
  then show ?thesis using assms wlog.mirrors_append[OF assms(1)] mirrors_next[OF assms(1)] by (simp add: act_spec_def)
next
  case (ActAck u)
  then show ?thesis using assms wlog.mirrors_ack[OF assms(1)] mirrors_next[OF assms(1)] by (simp add: act_spec_def)
next
  case ActCompact
  then show ?thesis using assms(1) by (cases l) (simp add: act_spec_def)
qed

text \<open>The abstract agent keeps its log, outbox and next number in step with the value on disk.\<close>

lemma agent_act_spec:
  assumes "agent_inv a" "act_fits ser act (alog a)"
  shows "agent_inv (agent_act ser act a) \<and> alog (agent_act ser act a) = act_spec ser act (alog a)"
proof -
  have n: "next_of (alog a) = next_seq a" using assms(1) by (intro mirrors_next) (simp add: agent_inv_mirrors)
  have logs: "alog (emit ser d a) = spec_op (OpAppend (next_seq a) (ser (d\<lparr>seq := next_seq a\<rparr>))) (alog a)"
    "alog (on_ack u a) = spec_op (OpAck u) (alog a)" for d u
    by (simp_all add: emit_def on_ack_def Let_def)
  show ?thesis
    using assms n by (cases act) (auto simp: act_spec_def emit_inv on_ack_inv logs)
qed

lemma agent_acts_spec:
  assumes "agent_inv a" "seq_fits (act_spec ser) (act_fits ser) acts (alog a)"
  shows "agent_inv (fold (agent_act ser) acts a) \<and> alog (fold (agent_act ser) acts a) = fold (act_spec ser) acts (alog a)"
  using assms by (induction acts arbitrary: a) (auto simp: agent_act_spec)

section \<open>One operation\<close>

lemma FileSizeBytes_post:
  "io_post (FileSizeBytes w) (fs, sc) (\<lambda>r fs'. fs' = fs \<and> (\<exists>sz. r = Ret sz \<or> r = Throw \<or> r = Killed))"
  unfolding FileSizeBytes_def
  by (rule io_post_bind, rule io_post_weaken[OF ReadWholeFile_post]) (auto simp: io_post_ret)

text \<open>What the log promises of an operation, lifted to the process.\<close>

definition act_outcome :: "(DetectionEvent \<Rightarrow> byte list) \<Rightarrow> node_act \<Rightarrow> node \<Rightarrow> fsys \<Rightarrow> node result \<Rightarrow> fsys \<Rightarrow> bool" where
  "act_outcome ser act nd fs r fs' \<longleftrightarrow>
     (case r of
        Ret nd' \<Rightarrow> op_outcome (act_op ser act (node_next nd)) (node_wal nd) fs (Ret (node_wal nd')) fs' \<and>
          (case act of
             ActEmit d \<Rightarrow> node_outbox nd' = Outbox_Push (node_next nd) (ser (d\<lparr>seq := node_next nd\<rparr>)) (node_outbox nd) \<and>
               node_next nd' = node_next nd + 1
           | ActAck u \<Rightarrow> node_outbox nd' = AckUpTo u (node_outbox nd) \<and> node_next nd' = node_next nd
           | ActCompact \<Rightarrow> node_outbox nd' = node_outbox nd \<and> node_next nd' = node_next nd)
      | Undefined \<Rightarrow> False
      | _ \<Rightarrow> op_outcome (act_op ser act (node_next nd)) (node_wal nd) fs Throw fs')"

lemma op_outcome_Killed: "op_outcome op w fs Killed fs' = op_outcome op w fs Throw fs'"
  by (simp add: op_outcome_def)

lemma op_outcome_Undefined: "\<not> op_outcome op w fs Undefined fs'"
  by (simp add: op_outcome_def)

lemma compact_untouched: "wal_clean w fs \<Longrightarrow> op_outcome OpCompact w fs (Ret w) fs"
  by (cases "disk_log w fs") (simp add: op_outcome_def)

lemma io_bind_post_ret:
  assumes "io_post (io_bind m (\<lambda>_. io_ret w)) st Q"
    and "\<And>x fs' sc'. Q (Ret w) fs' \<Longrightarrow> io_post (f x) (fs', sc') Q'"
    and "\<And>fs'. Q Throw fs' \<Longrightarrow> Q' Throw fs'" "\<And>fs'. Q Killed fs' \<Longrightarrow> Q' Killed fs'" "\<And>fs'. Q Undefined fs' \<Longrightarrow> Q' Undefined fs'"
  shows "io_post (io_bind m f) st Q'"
proof (cases st)
  case (Pair fs sc)
  obtain r fs' sc' where m: "m (fs, sc) = (r, fs', sc')" by (cases "m (fs, sc)") auto
  show ?thesis
    using assms unfolding Pair io_post_def io_bind_def io_ret_def by (cases r) (auto simp: m)
qed

lemma emit_io_outcome:
  assumes "wal_clean (node_wal nd) fs" "length (ser (d\<lparr>seq := node_next nd\<rparr>)) \<le> max_payload"
    "length (file_bytes fs (wal_path (node_wal nd))) < 2 ^ 63"
  shows "io_post (emit_io ser d nd) (fs, sc) (act_outcome ser (ActEmit d) nd fs)"
  unfolding emit_io_def Let_def
  by (rule io_bind_post_ret[OF run_op_outcome[OF assms(1) _ assms(3), of "OpAppend (node_next nd) (ser (d\<lparr>seq := node_next nd\<rparr>))", simplified]])
    (use assms(2) in \<open>auto simp: act_outcome_def io_post_ret op_outcome_Killed op_outcome_Undefined\<close>)

lemma on_ack_io_outcome:
  assumes "wal_clean (node_wal nd) fs" "length (file_bytes fs (wal_path (node_wal nd))) < 2 ^ 63"
  shows "io_post (on_ack_io u nd) (fs, sc) (act_outcome ser (ActAck u) nd fs)"
proof -
  have "io_post (Acknowledge (node_wal nd) u) (fs, sc) (op_outcome (OpAck u) (node_wal nd) fs)"
    using run_op_outcome[OF assms(1) _ assms(2), of "OpAck u"] by simp
  then have ack: "io_post (Acknowledge (node_wal (nd\<lparr>node_outbox := ob\<rparr>)) u) (fs, sc) (op_outcome (OpAck u) (node_wal nd) fs)" for ob
    by simp
  show ?thesis
    unfolding on_ack_io_def Let_def
    by (rule io_post_bind, rule io_post_weaken[OF ack])
      (auto simp: act_outcome_def io_post_ret op_outcome_Killed op_outcome_Undefined split: result.split)
qed

lemma compact_io_outcome:
  assumes "wal_clean (node_wal nd) fs" "length (file_bytes fs (wal_path (node_wal nd))) < 2 ^ 63"
  shows "io_post (compact_io nd) (fs, sc) (act_outcome ser ActCompact nd fs)"
proof -
  let ?w = "node_wal nd" and ?Q = "act_outcome ser ActCompact nd fs"
  have kept: "op_outcome OpCompact ?w fs (Ret ?w) fs" "op_outcome OpCompact ?w fs Throw fs"
    using compact_untouched[OF assms(1)] op_outcome_dead[of ?w fs fs] by simp_all
  have after: "io_post (io_bind (FileSizeBytes ?w) (\<lambda>sz. io_ret (nd\<lparr>bytes_since_compact := word_of_nat sz\<rparr>))) (fs', sc') ?Q"
    if "op_outcome OpCompact ?w fs (Ret ?w) fs'" for fs' sc'
  proof -
    have "op_outcome OpCompact ?w fs Throw fs'" using that by (simp add: op_outcome_def)
    then show ?thesis
      by (intro io_post_bind, intro io_post_weaken[OF FileSizeBytes_post])
        (use that in \<open>auto simp: act_outcome_def io_post_ret\<close>)
  qed
  have comp: "io_post (io_bind (Compact ?w) (\<lambda>_. io_bind (FileSizeBytes ?w) (\<lambda>sz. io_ret (nd\<lparr>bytes_since_compact := word_of_nat sz\<rparr>)))) (fs, sc') ?Q" for sc'
    by (rule io_bind_post_ret[OF run_op_outcome[OF assms(1) _ assms(2), of OpCompact, simplified]])
      (auto intro: after simp: act_outcome_def op_outcome_Killed op_outcome_Undefined)
  show ?thesis
    unfolding compact_io_def
    by (intro io_post_bind, intro io_post_weaken[OF FileSizeBytes_post])
      (use kept comp in \<open>auto simp: act_outcome_def io_post_ret\<close>)
qed

lemma act_io_outcome:
  assumes "node_good n nd (fs, sc)" "act_fits ser act (disk_log (node_wal nd) fs)"
  shows "io_post (act_io ser act nd) (fs, sc) (act_outcome ser act nd fs)"
proof -
  have g: "wal_clean (node_wal nd) fs" "length (file_bytes fs (wal_path (node_wal nd))) < 2 ^ 63"
    "next_of (disk_log (node_wal nd) fs) = node_next nd"
    using assms(1) by (auto simp: node_good_def wal_good_def Let_def dest: mirrors_next)
  show ?thesis
    using assms(2) g by (cases act) (auto intro: emit_io_outcome on_ack_io_outcome compact_io_outcome)
qed

text \<open>The process is crash-atomic in the same sense as the log.\<close>

lemma node_good_step:
  assumes "node_good (act_bytes act + n) nd (fs, sc)" "act_fits ser act (disk_log (node_wal nd) fs)" "act_outcome ser act nd fs (Ret nd') fs'"
  shows "node_good n nd' (fs', sc')" "disk_log (node_wal nd') fs' = act_spec ser act (disk_log (node_wal nd) fs)"
    "disk_log (node_wal nd') f = disk_log (node_wal nd) f"
proof -
  let ?l = "disk_log (node_wal nd) fs" and ?op = "act_op ser act (node_next nd)"
  have m: "mirrors (node_outbox nd) (fst ?l) (snd ?l) (node_next nd)" and w: "wal_good (act_bytes act + n) (node_wal nd) (fs, sc)"
    using assms(1) by (simp_all add: node_good_def Let_def)
  have nx: "next_of ?l = node_next nd" using m by (rule mirrors_next)
  have o: "op_outcome ?op (node_wal nd) fs (Ret (node_wal nd')) fs'" using assms(3) by (simp add: act_outcome_def)
  show l: "disk_log (node_wal nd') fs' = act_spec ser act ?l" using o nx by (simp add: op_outcome_def act_spec_def)
  show "disk_log (node_wal nd') f = disk_log (node_wal nd) f" using o by (intro disk_log_paths) (simp_all add: op_outcome_def)
  have "op_bytes ?op \<le> act_bytes act" using assms(2) nx by (cases act) simp_all
  then have "wal_good n (node_wal nd') (fs', sc')" using o w by (simp add: op_outcome_def wal_good_def)
  moreover have "mirrors (node_outbox nd') (fst (act_spec ser act ?l)) (snd (act_spec ser act ?l)) (node_next nd')"
    using mirrors_act[OF m assms(2)] assms(3) by (cases act) (simp_all add: act_outcome_def)
  ultimately show "node_good n nd' (fs', sc')" by (simp add: node_good_def l)
qed

lemma node_exec_cases:
  assumes "node_exec ser act nd (fs, sc) = (r, d')" "node_good n nd (fs, sc)" "act_fits ser act (disk_log (node_wal nd) fs)"
  obtains nd' where "r = Some nd'" "act_outcome ser act nd fs (Ret nd') (fst d')"
    | "r = None" "op_outcome (act_op ser act (node_next nd)) (node_wal nd) fs Throw (fst d')"
proof -
  obtain q fs' sc' where a: "act_io ser act nd (fs, sc) = (q, fs', sc')" by (cases "act_io ser act nd (fs, sc)") auto
  have o: "act_outcome ser act nd fs q fs'" using io_postD[OF act_io_outcome[OF assms(2,3)] a] .
  show thesis
    using that assms(1) o by (cases q) (auto simp: node_exec_def a act_outcome_def)
qed

interpretation nodelog: crash_atomic "node_exec ser" node_good node_durable "act_spec ser" "act_fits ser" act_bytes
proof
  fix act n nd d nd' d'
  assume g: "node_good (act_bytes act + n) nd d" and f: "act_fits ser act (node_durable nd d)" and e: "node_exec ser act nd d = (Some nd', d')"
  obtain fs sc fs' sc' where d: "d = (fs, sc)" "d' = (fs', sc')" by (cases d; cases d')
  have "act_outcome ser act nd fs (Ret nd') fs'"
    by (rule node_exec_cases[of ser act nd fs sc "Some nd'" d' "act_bytes act + n"]) (use g f e d in \<open>auto simp: node_durable_def\<close>)
  then show "node_good n nd' d' \<and> node_durable nd' d' = act_spec ser act (node_durable nd d) \<and> (\<forall>d. node_durable nd' d = node_durable nd d)"
    using node_good_step[of act n nd fs sc ser nd' fs'] g f d by (simp add: node_durable_def)
next
  fix act n nd d d'
  assume g: "node_good (act_bytes act + n) nd d" and f: "act_fits ser act (node_durable nd d)" and e: "node_exec ser act nd d = (None, d')"
  obtain fs sc where d: "d = (fs, sc)" by (cases d)
  have "op_outcome (act_op ser act (node_next nd)) (node_wal nd) fs Throw (fst d')"
    by (rule node_exec_cases[of ser act nd fs sc None d' "act_bytes act + n"]) (use g f e d in \<open>auto simp: node_durable_def\<close>)
  moreover have "next_of (disk_log (node_wal nd) fs) = node_next nd" using g d by (auto simp: node_good_def Let_def dest: mirrors_next)
  ultimately show "node_durable nd d' = node_durable nd d \<or> node_durable nd d' = act_spec ser act (node_durable nd d)"
    by (simp add: op_outcome_def node_durable_def act_spec_def d)
qed

section \<open>Restart\<close>

lemma start_io_recover:
  "start_io wp cp st = (Ret nd, st') \<longleftrightarrow> (\<exists>w rs. wal_recover wp cp st = (Ret (w, rs), st') \<and>
     nd = \<lparr>node_wal = w, node_outbox = rs, node_next = next_of (last_acked_seq w, rs), bytes_since_compact = 0\<rparr>)"
proof -
  have "start_io wp cp = io_bind (wal_recover wp cp) (\<lambda>(w, rs). io_ret \<lparr>node_wal = w, node_outbox = rs,
      node_next = next_of (last_acked_seq w, rs), bytes_since_compact = 0\<rparr>)"
    by (rule ext) (simp add: start_io_def wal_recover_def io_bind_def io_ret_def foldl_push next_of_def split: prod.split result.split)
  then show ?thesis by (cases st') (auto simp: io_bind_Ret io_ret_def)
qed

text \<open>What startup finds on a disk, whatever state the log's last record is in.\<close>

lemma start_io_finds:
  assumes "start_io wp cp (fs, sc) = (Ret nd, fs', sc')" "wp \<noteq> cp" "length (file_bytes fs wp) < 2 ^ 63"
  shows "wal_path (node_wal nd) = wp" "checkpoint_path (node_wal nd) = cp"
    "(last_acked_seq (node_wal nd), node_outbox nd) = disk_log (node_wal nd) fs" "node_next nd = next_of (disk_log (node_wal nd) fs)"
    "bytes_since_compact nd = 0" "fs' = (if fs wp = None then fs(wp \<mapsto> []) else fs)"
proof -
  obtain w rs where r: "wal_recover wp cp (fs, sc) = (Ret (w, rs), fs', sc')"
    and nd: "nd = \<lparr>node_wal = w, node_outbox = rs, node_next = next_of (last_acked_seq w, rs), bytes_since_compact = 0\<rparr>"
    using assms(1) by (auto simp: start_io_recover)
  have "wal_path w = wp \<and> checkpoint_path w = cp \<and> (last_acked_seq w, rs) = disk_log w fs \<and> fs' = (if fs wp = None then fs(wp \<mapsto> []) else fs)"
    using io_postD[OF wal_recover_post[OF assms(2,3)] r] by simp
  then show "wal_path (node_wal nd) = wp" "checkpoint_path (node_wal nd) = cp"
    "(last_acked_seq (node_wal nd), node_outbox nd) = disk_log (node_wal nd) fs" "node_next nd = next_of (disk_log (node_wal nd) fs)"
    "bytes_since_compact nd = 0" "fs' = (if fs wp = None then fs(wp \<mapsto> []) else fs)"
    by (simp_all add: nd)
qed

text \<open>The two file names never collide with each other or with the temporary files of the log.\<close>

lemma path_append_inj: "path_append dir x = path_append dir y \<longleftrightarrow> x = y"
  by (simp add: path_append_def)

lemma path_append_suffix: "path_append dir x @ y = path_append dir (x @ y)"
  by (simp add: path_append_def)

lemma boot_paths_ok:
  assumes "wal_path w = path_append dir ''events.wal''" "checkpoint_path w = path_append dir ''events.ckpt''"
  shows "wal_paths_ok w"
  by (simp add: wal_paths_ok_def assms path_append_inj path_append_suffix)

text \<open>A boot on a clean log with consecutive numbers, in particular on an empty directory, is a sound process.\<close>

lemma boot_good:
  assumes "agent_boot True opt (fs, sc) = (Ret (Inr nd), fs', sc')"
    and wp: "wp = path_append (opt_state_dir opt) ''events.wal''" and cp: "cp = path_append (opt_state_dir opt) ''events.ckpt''"
    and clean: "file_bytes fs wp = encode_log (log_records (file_bytes fs wp))" and size: "length (file_bytes fs wp) + n < 2 ^ 63"
    and nums: "map fst (snd (disk_log (node_wal nd) fs)) = seq_range (fst (disk_log (node_wal nd) fs)) b" "fst (disk_log (node_wal nd) fs) < b"
  shows "node_good n nd (fs', sc')" "disk_log (node_wal nd) fs' = disk_log (node_wal nd) fs"
proof -
  have st: "start_io wp cp (fs, sc) = (Ret nd, fs', sc')"
    using assms(1) by (cases "start_io wp cp (fs, sc)") (auto simp: agent_boot_def wp cp io_bind_Ret io_ret_def)
  have ne: "wp \<noteq> cp" by (simp add: wp cp path_append_inj)
  have "length (file_bytes fs wp) < 2 ^ 63" using size by simp
  note f = start_io_finds[OF st ne this]
  have same: "file_bytes fs' wp = file_bytes fs wp" "fs' cp = fs cp" "fs' wp = Some (file_bytes fs wp)"
    using ne by (auto simp: f(6) file_bytes_def)
  show l: "disk_log (node_wal nd) fs' = disk_log (node_wal nd) fs" by (simp add: disk_log_def f(1,2) same)
  have "wal_paths_ok (node_wal nd)" by (rule boot_paths_ok) (simp_all add: f(1,2) wp cp)
  moreover have "last_acked_seq (node_wal nd) = ckpt_value (fs cp)" using f(3) by (simp add: disk_log_def Let_def f(2))
  ultimately have "wal_good n (node_wal nd) (fs', sc')"
    using clean size by (simp add: wal_good_def wal_clean_def f(1,2) same)
  moreover have "mirrors (node_outbox nd) (fst (disk_log (node_wal nd) fs)) (snd (disk_log (node_wal nd) fs)) b"
    using nums f(3) by (simp add: mirrors_def) (metis snd_conv)
  ultimately show "node_good n nd (fs', sc')" using mirrors_next by (simp add: node_good_def l f(4) Let_def)
qed

text \<open>
  C4: the agent's process on disk refines the abstract agent over a crash.  From a process whose log is
  clean and mirrored by its outbox, run any sequence of commits, acknowledgements and compactions, with
  any system-call outcomes, until all returned or the process dies inside one, and start again: the new
  process has the outbox, the next sequence number and the acknowledged number of the abstract agent
  after exactly the operations that returned, or after these and the interrupted one.
\<close>

theorem agent_crash_restart:
  assumes "node_good (sum_list (map act_bytes acts)) nd (fs, sc)"
    and "seq_fits (act_spec ser) (act_fits ser) acts (disk_log (node_wal nd) fs)"
    and "run_seq (node_exec ser) acts nd (fs, sc) = (n, alive, fs', sc')"
    and "length (file_bytes fs' (wal_path (node_wal nd))) < 2 ^ 63"
    and "start_io (wal_path (node_wal nd)) (checkpoint_path (node_wal nd)) (fs', script') = (Ret nd', fs'', script'')"
  shows "\<exists>m. n \<le> m \<and> m \<le> Suc n \<and> m \<le> length acts \<and> (alive \<noteq> None \<longrightarrow> m = length acts) \<and>
    (let a = fold (agent_act ser) (take m acts) (agent_start opt (disk_log (node_wal nd) fs))
     in node_outbox nd' = outbox a \<and> node_next nd' = next_seq a \<and> last_acked_seq (node_wal nd') = fst (alog a))"
proof -
  let ?l = "disk_log (node_wal nd) fs" and ?a = "agent_start opt (disk_log (node_wal nd) fs)"
  have ne: "wal_path (node_wal nd) \<noteq> checkpoint_path (node_wal nd)"
    using assms(1) by (simp add: node_good_def wal_good_def wal_clean_def wal_paths_ok_def)
  note found = start_io_finds[OF assms(5) ne assms(4)]
  have disk: "disk_log (node_wal nd') fs' = disk_log (node_wal nd) fs'" by (rule disk_log_paths) (simp_all add: found)
  have views: "node_durable nd (fs', sc') = disk_log (node_wal nd') fs'" "node_durable nd (fs, sc) = ?l"
    by (simp_all add: node_durable_def disk)
  have "\<exists>m. n \<le> m \<and> m \<le> Suc n \<and> m \<le> length acts \<and> (alive \<noteq> None \<longrightarrow> m = length acts) \<and>
      disk_log (node_wal nd') fs' = fold (act_spec ser) (take m acts) ?l"
    using nodelog.run_seq_atomic[OF assms(1) _ assms(3), unfolded views, OF assms(2)]
    by (elim disjE conjE exE) (auto intro: exI[of _ n] exI[of _ "Suc n"])
  then obtain m where m: "n \<le> m" "m \<le> Suc n" "m \<le> length acts" "alive \<noteq> None \<longrightarrow> m = length acts"
    "disk_log (node_wal nd') fs' = fold (act_spec ser) (take m acts) ?l" by blast
  have mir: "mirrors (node_outbox nd) (fst ?l) (snd ?l) (node_next nd)" using assms(1) by (simp add: node_good_def Let_def)
  have inv: "agent_inv ?a" "alog ?a = ?l"
    using mir agent_start_inv[of "snd ?l" "fst ?l" "node_next nd" opt] by (auto simp: mirrors_def agent_start_def split: prod.split)
  have "seq_fits (act_spec ser) (act_fits ser) (take m acts) ?l" using assms(2) by (rule seq_fits_take)
  then have a: "agent_inv (fold (agent_act ser) (take m acts) ?a)"
    "alog (fold (agent_act ser) (take m acts) ?a) = disk_log (node_wal nd') fs'"
    using agent_acts_spec[OF inv(1), of ser "take m acts"] by (simp_all add: inv(2) m(5))
  from a(1) have "mirrors (outbox (fold (agent_act ser) (take m acts) ?a)) (fst (disk_log (node_wal nd') fs'))
      (snd (disk_log (node_wal nd') fs')) (next_seq (fold (agent_act ser) (take m acts) ?a))"
    by (simp add: agent_inv_mirrors a(2))
  then have "node_outbox nd' = outbox (fold (agent_act ser) (take m acts) ?a) \<and>
      node_next nd' = next_seq (fold (agent_act ser) (take m acts) ?a) \<and>
      last_acked_seq (node_wal nd') = fst (alog (fold (agent_act ser) (take m acts) ?a))"
    using found(3,4) mirrors_next by (metis a(2) fst_conv mirrors_def snd_conv)
  then show ?thesis using m by (auto simp: Let_def)
qed

text \<open>A concrete run: the second of two commits is killed after five bytes of its record.\<close>

definition demo_node :: node where
  "demo_node = \<lparr>node_wal = demo_wal, node_outbox = [], node_next = 1, bytes_since_compact = 0\<rparr>"

definition demo_ser :: "DetectionEvent \<Rightarrow> byte list" where
  "demo_ser d = [if seq d = 1 then 7 else 8]"

definition demo_acts :: "node_act list" where
  "demo_acts = [ActEmit (fake_event 0 (Fin 0)), ActEmit (fake_event 1 (Fin 0))]"

lemma demo_log: "disk_log demo_wal demo_fs = (0, [])"
  by (simp add: disk_log_def demo_fs_def ckpt_value_def file_bytes_def Let_def records_from.simps decode_at_def)

lemma demo_node_good: "node_good (sum_list (map act_bytes demo_acts)) demo_node (demo_fs, demo_script)"
proof -
  have "file_bytes demo_fs ''w'' = []" by (simp add: file_bytes_def demo_fs_def)
  then show ?thesis
    using demo_clean by (simp add: node_good_def wal_good_def demo_node_def demo_acts_def max_payload_def demo_log mirrors_def seq_range_def)
qed

lemma demo_acts_fit: "seq_fits (act_spec demo_ser) (act_fits demo_ser) demo_acts (0, [])"
  by (simp add: demo_acts_def demo_ser_def max_payload_def next_of_def act_spec_def unacked_Cons)

lemma demo_node_run: "run_seq (node_exec demo_ser) demo_acts demo_node (demo_fs, demo_script) = (1, None, demo_fs1, [])"
  by (simp add: demo_acts_def demo_node_def demo_ser_def node_exec_def emit_io_def demo_wal_def demo_fs_def demo_script_def demo_fs1_def wal_run_eval)

theorem agent_crash_restart_witness:
  "\<exists>nd' fs'' sc'' m. start_io ''w'' ''c'' (demo_fs1, replicate 40 (SysOk 1)) = (Ret nd', fs'', sc'') \<and> m \<in> {1, 2} \<and>
    node_outbox nd' = outbox (fold (agent_act demo_ser) (take m demo_acts) (agent_start demo_options (0, [])))"
proof -
  obtain w' rs fs'' sc'' where "wal_recover ''w'' ''c'' (demo_fs1, replicate 40 (SysOk 1)) = (Ret (w', rs), fs'', sc'')"
    using demo_recovers by blast
  then obtain nd' where r: "start_io ''w'' ''c'' (demo_fs1, replicate 40 (SysOk 1)) = (Ret nd', fs'', sc'')"
    by (auto simp: start_io_recover)
  have w: "node_wal demo_node = demo_wal" by (simp add: demo_node_def)
  have "\<exists>m. 1 \<le> m \<and> m \<le> Suc 1 \<and> m \<le> length demo_acts \<and> (None \<noteq> (None :: node option) \<longrightarrow> m = length demo_acts) \<and>
    (let a = fold (agent_act demo_ser) (take m demo_acts) (agent_start demo_options (disk_log (node_wal demo_node) demo_fs))
     in node_outbox nd' = outbox a \<and> node_next nd' = next_seq a \<and> last_acked_seq (node_wal nd') = fst (alog a))"
    by (rule agent_crash_restart[OF demo_node_good _ demo_node_run]) (use demo_acts_fit r in \<open>simp_all add: w demo_log demo_size\<close>)
  then obtain m where m: "1 \<le> m" "m \<le> Suc 1"
    "node_outbox nd' = outbox (fold (agent_act demo_ser) (take m demo_acts) (agent_start demo_options (0, [])))"
    by (auto simp: Let_def w demo_log)
  moreover from m(1,2) have "m \<in> {1, 2}" by auto
  ultimately show ?thesis using r by blast
qed

end
