(* ===== verification/AgentMain.thy ===== *)
theory AgentMain
  imports Agent
begin

text \<open>
  The control flow of the agent's \<open>main\<close> (agent/src/main.cc): the interruptible sleep, the wait for
  the channel, and the connection loop beside the producer and reader threads, up to the exit
  code.  Clock, stop flag and channel are what each round of a loop observes.
\<close>

section \<open>Waiting\<close>

text \<open>
  \<open>SleepInterruptibly\<close> on what its rounds read, the stop flag and the clock: the naps it takes;
  \<open>None\<close> means that it has not returned yet.  Times are nanoseconds.
\<close>

fun sleep_loop :: "int \<Rightarrow> (bool \<times> int) list \<Rightarrow> int list option" where
  "sleep_loop deadline [] = None"
| "sleep_loop deadline ((stop, now) # obs) =
     (if stop then Some []
      else if deadline \<le> now then Some []
      else map_option ((#) (min (deadline - now) 50000000)) (sleep_loop deadline obs))"

definition SleepInterruptibly :: "int \<Rightarrow> int \<Rightarrow> (bool \<times> int) list \<Rightarrow> int list option" where
  "SleepInterruptibly now d obs = sleep_loop (now + d) obs"

text \<open>\<open>WaitForConnection\<close>: a round also learns whether \<open>WaitForConnected\<close> saw the channel ready.\<close>

fun wait_loop :: "int \<Rightarrow> (bool \<times> int \<times> bool) list \<Rightarrow> bool option" where
  "wait_loop deadline [] = None"
| "wait_loop deadline ((stop, now, ready) # obs) =
     (if \<not> stop \<and> now < deadline
      then (if ready then Some True else wait_loop deadline obs)
      else Some False)"

definition WaitForConnection :: "int \<Rightarrow> int \<Rightarrow> (bool \<times> int \<times> bool) list \<Rightarrow> bool option" where
  "WaitForConnection now timeout obs = wait_loop (now + timeout) obs"

definition kConnectTimeout :: int where
  "kConnectTimeout = 2000000000"

text \<open>
  A clock that does not run backwards over a nap: a nap lasts at least as long as asked, and so does a
  wait for the channel that was in vain.
\<close>

fun advances :: "int \<Rightarrow> int \<Rightarrow> int list \<Rightarrow> bool" where
  "advances deadline step (t # t' # ts) \<longleftrightarrow> t + min (deadline - t) step \<le> t' \<and> advances deadline step (t' # ts)"
| "advances deadline step _ \<longleftrightarrow> True"

lemma advances_rounds:
  assumes "advances deadline step (t # ts)" "0 < step" "deadline \<le> t + step * int (length ts)"
  shows "\<exists>t'\<in>set (t # ts). deadline \<le> t'"
  using assms
proof (induction ts arbitrary: t)
  case (Cons t' ts)
  show ?case
  proof (cases "deadline \<le> t'")
    case False
    then have "t + step \<le> t'" using Cons.prems(1) by (simp add: min_def split: if_splits)
    then have "deadline \<le> t' + step * int (length ts)" using Cons.prems(3) by (simp add: algebra_simps)
    then show ?thesis using Cons by auto
  qed auto
qed simp

lemma sleep_loop_returns: "o1 \<in> set obs \<Longrightarrow> deadline \<le> snd o1 \<Longrightarrow> \<exists>naps. sleep_loop deadline obs = Some naps"
  by (induction deadline obs rule: sleep_loop.induct) auto

lemma wait_loop_returns: "o1 \<in> set obs \<Longrightarrow> deadline \<le> fst (snd o1) \<Longrightarrow> \<exists>b. wait_loop deadline obs = Some b"
  by (induction deadline obs rule: wait_loop.induct) auto

text \<open>Every nap is at most 50 ms, and the sleep ends only at its deadline or when asked to stop.\<close>

lemma sleep_loop_naps:
  assumes "sleep_loop deadline obs = Some naps"
  shows "(\<forall>n\<in>set naps. 0 < n \<and> n \<le> 50000000) \<and> length naps < length obs \<and>
    (case obs ! length naps of (stop, now) \<Rightarrow> stop \<or> deadline \<le> now) \<and> (\<forall>i<length naps. \<not> fst (obs ! i))"
  using assms
proof (induction deadline obs arbitrary: naps rule: sleep_loop.induct)
  case (2 deadline stop now obs)
  show ?case
  proof (cases "stop \<or> deadline \<le> now")
    case True
    then have "naps = []" using 2(2) by (auto split: if_splits)
    then show ?thesis using True by simp
  next
    case False
    then obtain ns where ns: "naps = min (deadline - now) 50000000 # ns" "sleep_loop deadline obs = Some ns" using 2(2) by auto
    have ih: "(\<forall>n\<in>set ns. 0 < n \<and> n \<le> 50000000) \<and> length ns < length obs \<and>
        (case obs ! length ns of (stop, now) \<Rightarrow> stop \<or> deadline \<le> now) \<and> (\<forall>i<length ns. \<not> fst (obs ! i))"
      using 2(1)[OF _ _ ns(2)] False by simp
    then show ?thesis using False ns by (auto simp: nth_Cons split: nat.split)
  qed
qed simp

text \<open>Both waits return: the sleep within one round for every 50 ms, the wait for the channel within nine rounds.\<close>

lemma SleepInterruptibly_returns:
  assumes "advances (now + d) 50000000 (map snd obs)" "obs \<noteq> []" "now \<le> snd (hd obs)" "d \<le> 50000000 * (int (length obs) - 1)"
  shows "\<exists>naps. SleepInterruptibly now d obs = Some naps"
proof -
  obtain o1 obs' where obs: "obs = o1 # obs'" using assms(2) by (cases obs) auto
  have "\<exists>t\<in>set (snd o1 # map snd obs'). now + d \<le> t"
    by (rule advances_rounds) (use assms obs in \<open>auto simp: algebra_simps\<close>)
  then have "\<exists>o2\<in>set obs. now + d \<le> snd o2" by (simp add: obs)
  then obtain o2 where "o2 \<in> set obs" "now + d \<le> snd o2" by blast
  then show ?thesis unfolding SleepInterruptibly_def by (rule sleep_loop_returns)
qed

lemma WaitForConnection_returns:
  assumes "advances (now + kConnectTimeout) 250000000 (map (fst \<circ> snd) obs)" "obs \<noteq> []" "now \<le> fst (snd (hd obs))" "9 \<le> length obs"
  shows "\<exists>b. WaitForConnection now kConnectTimeout obs = Some b"
proof -
  obtain o1 obs' where obs: "obs = o1 # obs'" using assms(2) by (cases obs) auto
  have adv: "advances (now + kConnectTimeout) 250000000 (fst (snd o1) # map (fst \<circ> snd) obs')"
    using assms(1) by (simp add: obs)
  have "8 \<le> int (length obs')" "now \<le> fst (snd o1)" using assms(3,4) by (simp_all add: obs)
  then have "now + kConnectTimeout \<le> fst (snd o1) + 250000000 * int (length (map (fst \<circ> snd) obs'))"
    by (simp add: kConnectTimeout_def)
  then have "\<exists>t\<in>set (fst (snd o1) # map (fst \<circ> snd) obs'). now + kConnectTimeout \<le> t"
    by (intro advances_rounds[OF adv]) simp_all
  then have "\<exists>o2\<in>set obs. now + kConnectTimeout \<le> fst (snd o2)" by (simp add: obs)
  then obtain o2 where "o2 \<in> set obs" "now + kConnectTimeout \<le> fst (snd o2)" by blast
  then show ?thesis unfolding WaitForConnection_def by (rule wait_loop_returns)
qed

section \<open>The connection loop\<close>

datatype phase =
  Deciding
| Connected bool u64 int
| Leaving
| Exited int

record main_state =
  m_agent :: agent
  m_phase :: phase
  attempt :: u32
  m_bytes_since_compact :: u64
  got_ack :: bool
  g_stop :: bool
  time_up :: bool
  armed :: bool
  producer_done :: bool
  signalled :: bool
  late :: bool

definition main_start :: "Options \<Rightarrow> log_spec \<Rightarrow> main_state" where
  "main_start opt l =
     \<lparr>m_agent = agent_start opt l, m_phase = Deciding, attempt = 0, m_bytes_since_compact = 0, got_ack = False,
      g_stop = False, time_up = False, armed = False, producer_done = False,
      signalled = False, late = False\<rparr>"

definition main_continues :: "main_state \<Rightarrow> bool" where
  "main_continues s = keep_running (g_stop s) (time_up s) (producer_done s) (m_agent s)"

text \<open>
  The steps of the three threads.  The producer looks at stop flag and time (\<open>armed\<close> is the state
  after that look) and then commits an event, finds none to commit, or ends; the video producer also ends with
  its video.  The
  main thread decides, waits in vain, opens a stream, runs a round with its compaction, ends a stream,
  leaves, and returns after it joined the producer.  The reader handles a message of the gateway.  Time
  runs out, and a signal arrives; \<open>signalled\<close> and \<open>late\<close> remember a signal and an event committed after
  the loop was left.
\<close>

inductive main_step :: "(DetectionEvent \<Rightarrow> byte list) \<Rightarrow> (byte list \<Rightarrow> DetectionEvent) \<Rightarrow> Options \<Rightarrow> main_state \<Rightarrow> main_state \<Rightarrow> bool"
  for ser prs opt where
  prod_look: "\<not> producer_done s \<Longrightarrow> \<not> armed s \<Longrightarrow> \<not> g_stop s \<Longrightarrow> \<not> time_up s \<Longrightarrow> main_step ser prs opt s (s\<lparr>armed := True\<rparr>)"
| prod_emit: "armed s \<Longrightarrow> next_seq (m_agent s) + 1 \<noteq> 0 \<Longrightarrow>
    main_step ser prs opt s (s\<lparr>m_agent := emit ser d (m_agent s), armed := False, late := late s \<or> m_phase s = Leaving\<rparr>)"
| prod_skip: "armed s \<Longrightarrow> main_step ser prs opt s (s\<lparr>armed := False\<rparr>)"
| prod_config: "\<not> producer_done s \<Longrightarrow> f = apply_config_video \<or> f = apply_config_fake \<Longrightarrow>
    main_step ser prs opt s (s\<lparr>m_agent := f (m_agent s)\<rparr>)"
| prod_end: "\<not> armed s \<Longrightarrow> g_stop s \<or> time_up s \<or> opt_video opt \<noteq> [] \<Longrightarrow> main_step ser prs opt s (s\<lparr>producer_done := True\<rparr>)"
| main_unreachable: "m_phase s = Deciding \<Longrightarrow> main_continues s \<Longrightarrow> WaitForConnection now kConnectTimeout obs = Some False \<Longrightarrow>
    \<not> list_ex fst obs \<Longrightarrow>
    unreachable_delay (attempt s) u = (n, Some delay) \<Longrightarrow> SleepInterruptibly now' delay obs' = Some naps \<Longrightarrow>
    main_step ser prs opt s (s\<lparr>attempt := n\<rparr>)"
| main_connect: "m_phase s = Deciding \<Longrightarrow> main_continues s \<Longrightarrow> WaitForConnection now kConnectTimeout obs = Some True \<Longrightarrow>
    open_stream prs opt version budget (m_agent s) = (ms, sent, budget', ok) \<Longrightarrow>
    main_step ser prs opt s (s\<lparr>m_phase := Connected ok sent next_heartbeat, got_ack := False\<rparr>)"
| main_round: "m_phase s = Connected True sent next_heartbeat \<Longrightarrow> main_continues s \<Longrightarrow>
    send_round prs budget now next_heartbeat wall sent (m_agent s) = (ms, sent', next_heartbeat', ok) \<Longrightarrow>
    main_step ser prs opt s
      (if ok \<and> compaction_due file_size (m_bytes_since_compact s)
       then s\<lparr>m_phase := Connected ok sent' next_heartbeat', m_agent := (m_agent s)\<lparr>alog := spec_op OpCompact (alog (m_agent s))\<rparr>,
              m_bytes_since_compact := word_of_nat file_size'\<rparr>
       else s\<lparr>m_phase := Connected ok sent' next_heartbeat'\<rparr>)"
| main_over: "m_phase s = Connected ok sent next_heartbeat \<Longrightarrow> \<not> (ok \<and> main_continues s) \<Longrightarrow> \<not> g_stop s \<Longrightarrow>
    reconnect_delay (got_ack s) (attempt s) u = (n, Some delay) \<Longrightarrow> SleepInterruptibly now delay obs = Some naps \<Longrightarrow>
    main_step ser prs opt s (s\<lparr>m_phase := Deciding, attempt := n\<rparr>)"
| main_stopped: "m_phase s = Connected ok sent next_heartbeat \<Longrightarrow> g_stop s \<Longrightarrow> main_step ser prs opt s (s\<lparr>m_phase := Leaving\<rparr>)"
| main_leave: "m_phase s = Deciding \<Longrightarrow> \<not> main_continues s \<Longrightarrow> main_step ser prs opt s (s\<lparr>m_phase := Leaving, g_stop := True\<rparr>)"
| main_return: "m_phase s = Leaving \<Longrightarrow> producer_done s \<Longrightarrow> main_step ser prs opt s (s\<lparr>m_phase := Exited (agent_exit_code opt (m_agent s))\<rparr>)"
| reader_ack: "m_phase s = Connected ok sent next_heartbeat \<Longrightarrow> u < next_seq (m_agent s) \<Longrightarrow>
    main_step ser prs opt s (s\<lparr>m_agent := on_gateway_message (MAck u) (m_agent s), got_ack := True\<rparr>)"
| reader_config: "m_phase s = Connected ok sent next_heartbeat \<Longrightarrow>
    main_step ser prs opt s (s\<lparr>m_agent := on_gateway_message (MConfig cfg) (m_agent s)\<rparr>)"
| time_passes: "opt_duration_s opt > 0 \<Longrightarrow> main_step ser prs opt s (s\<lparr>time_up := True\<rparr>)"
| signal: "main_step ser prs opt s (s\<lparr>g_stop := True, signalled := True\<rparr>)"

section \<open>The exit code\<close>

text \<open>The outbox mirrors the log all the time, and is empty when the loop was left undisturbed.\<close>

definition main_inv :: "Options \<Rightarrow> main_state \<Rightarrow> bool" where
  "main_inv opt s \<longleftrightarrow> agent_inv (m_agent s) \<and> (producer_done s \<longrightarrow> \<not> armed s) \<and>
     (case m_phase s of
        Leaving \<Rightarrow> signalled s \<or> late s \<or> outbox (m_agent s) = []
      | Exited code \<Rightarrow> producer_done s \<and> code = agent_exit_code opt (m_agent s) \<and> (signalled s \<or> late s \<or> outbox (m_agent s) = [])
      | _ \<Rightarrow> g_stop s \<longrightarrow> signalled s)"

lemma main_step_inv: "main_step ser prs opt s s' \<Longrightarrow> main_inv opt s \<Longrightarrow> main_inv opt s'"
proof (induction rule: main_step.induct)
  case (prod_emit s d)
  then have "m_phase s \<noteq> Exited code" for code by (auto simp: main_inv_def)
  then show ?case using prod_emit emit_inv by (cases "m_phase s") (auto simp: main_inv_def)
next
  case (prod_config s f)
  then have "m_phase s \<noteq> Exited code" for code by (auto simp: main_inv_def)
  then show ?case using prod_config by (cases "m_phase s") (auto simp: main_inv_def)
next
  case (main_round s sent hb budget now wall ms sent' hb' ok size1 size2)
  then show ?case by (auto simp: main_inv_def)
next
  case (main_leave s)
  then show ?case by (auto simp: main_inv_def main_continues_def keep_running_def Outbox_Size_def)
next
  case (reader_ack s ok sent hb u)
  then show ?case using on_ack_inv by (simp add: main_inv_def)
qed (auto simp: main_inv_def split: phase.splits)

definition main_reach :: "(DetectionEvent \<Rightarrow> byte list) \<Rightarrow> (byte list \<Rightarrow> DetectionEvent) \<Rightarrow> Options \<Rightarrow> log_spec \<Rightarrow> main_state \<Rightarrow> bool" where
  "main_reach ser prs opt l s = (main_step ser prs opt)\<^sup>*\<^sup>* (main_start opt l) s"

lemma main_reach_inv:
  assumes "main_reach ser prs opt l s" "map fst (snd l) = seq_range (fst l) n" "fst l < n"
  shows "main_inv opt s"
proof -
  have "agent_inv (agent_start opt (fst l, snd l))" by (rule agent_start_inv[OF assms(2,3)])
  then have "main_inv opt (main_start opt l)" by (simp add: main_inv_def main_start_def)
  with assms(1) show ?thesis
    unfolding main_reach_def by (induction rule: rtranclp_induct) (auto intro: main_step_inv)
qed

lemma caught_up:
  assumes "agent_inv a"
  shows "outbox a = [] \<longleftrightarrow> fst (alog a) + 1 = next_seq a"
proof
  assume "outbox a = []"
  then show "fst (alog a) + 1 = next_seq a"
    using assms seq_range_Nil[of "fst (alog a)" "next_seq a"] by (simp add: agent_inv_def)
next
  assume n: "fst (alog a) + 1 = next_seq a"
  have "seq_range (fst (alog a)) (fst (alog a) + 1) = []"
    by (rule seq_range_empty) (use assms n in \<open>simp_all add: agent_inv_def\<close>)
  then show "outbox a = []" using assms n by (auto simp: agent_inv_def)
qed

text \<open>
  C17: what the exit code of a run with a time limit says.  However the producer, the reader and the
  connection loop interleave, the agent returns 0 exactly if every sequence number it ever gave out is
  acknowledged and its log holds nothing to replay, and otherwise 1; and it returns 1 only if a signal
  arrived, or the producer committed an event after the connection loop had been left.
\<close>

theorem agent_main_exit:
  assumes "main_reach ser prs opt l s" "m_phase s = Exited code" "opt_duration_s opt > 0"
    "map fst (snd l) = seq_range (fst l) n" "fst l < n"
  shows "(code = 0 \<longleftrightarrow> fst (alog (m_agent s)) + 1 = next_seq (m_agent s)) \<and> (code = 0 \<longleftrightarrow> snd (alog (m_agent s)) = []) \<and>
    (code \<noteq> 0 \<longrightarrow> code = 1 \<and> (signalled s \<or> late s))"
proof -
  have inv: "main_inv opt s" by (rule main_reach_inv[OF assms(1,4,5)])
  then have a: "agent_inv (m_agent s)" and c: "code = agent_exit_code opt (m_agent s)"
    and l: "signalled s \<or> late s \<or> outbox (m_agent s) = []"
    using assms(2) by (auto simp: main_inv_def)
  have "code = (if outbox (m_agent s) = [] then 0 else 1)"
    using c assms(3) by (simp add: agent_exit_code_def Outbox_Size_def)
  moreover have "outbox (m_agent s) = snd (alog (m_agent s))" using a by (simp add: agent_inv_def)
  ultimately show ?thesis using caught_up[OF a] l by auto
qed

text \<open>
  A run without any signal that returns 1: the producer looks at the clock just before the limit, the
  connection loop finds the limit reached and the outbox empty and ends, and then the producer commits its event.
\<close>

definition timed_options :: Options where
  "timed_options = demo_options\<lparr>opt_duration_s := 1\<rparr>"

lemma late_run:
  "\<exists>s. main_reach ser prs timed_options (0, []) s \<and> m_phase s = Exited 1 \<and> \<not> signalled s \<and>
     snd (alog (m_agent s)) = [(1, ser (fake_event 0 (Fin 0)\<lparr>seq := 1\<rparr>))]"
proof -
  let ?S = "main_step ser prs timed_options"
  let ?s0 = "main_start timed_options (0, [])"
  let ?s1 = "?s0\<lparr>armed := True\<rparr>"
  let ?s2 = "?s1\<lparr>time_up := True\<rparr>"
  let ?s3 = "?s2\<lparr>m_phase := Leaving, g_stop := True\<rparr>"
  let ?s4 = "?s3\<lparr>m_agent := emit ser (fake_event 0 (Fin 0)) (m_agent ?s3), armed := False, late := late ?s3 \<or> m_phase ?s3 = Leaving\<rparr>"
  let ?s5 = "?s4\<lparr>producer_done := True\<rparr>"
  let ?s6 = "?s5\<lparr>m_phase := Exited (agent_exit_code timed_options (m_agent ?s5))\<rparr>"
  have a: "agent_inv (m_agent ?s0)" "next_seq (m_agent ?s0) = 1" "outbox (m_agent ?s0) = []" "fst (alog (m_agent ?s0)) = 0"
    using agent_start_inv[of "[]" 0 1 timed_options] by (simp_all add: main_start_def agent_start_def seq_range_def)
  have "?S ?s0 ?s1" by (rule prod_look) (simp_all add: main_start_def)
  moreover have "?S ?s1 ?s2" by (rule time_passes) (simp add: timed_options_def)
  moreover have "?S ?s2 ?s3" by (rule main_leave) (use a in \<open>simp_all add: main_start_def main_continues_def keep_running_def Outbox_Size_def\<close>)
  moreover have "?S ?s3 ?s4" by (rule prod_emit) (use a in simp_all)
  moreover have "?S ?s4 ?s5" by (rule prod_end) simp_all
  moreover have "?S ?s5 ?s6" by (rule main_return) simp_all
  ultimately have "main_reach ser prs timed_options (0, []) ?s6"
    unfolding main_reach_def by (meson converse_rtranclp_into_rtranclp rtranclp.rtrancl_refl)
  moreover have "agent_exit_code timed_options (m_agent ?s5) = 1" "snd (alog (m_agent ?s6)) = [(1, ser (fake_event 0 (Fin 0)\<lparr>seq := 1\<rparr>))]"
    using a emit_effect[OF a(1), of ser "fake_event 0 (Fin 0)"]
    by (simp_all add: agent_exit_code_def timed_options_def Outbox_Size_def)
  moreover have "\<not> signalled ?s6" by (simp add: main_start_def)
  ultimately show ?thesis by (intro exI[of _ ?s6]) simp
qed

theorem agent_main_exit_witness:
  "\<exists>s. main_reach (\<lambda>d. []) (\<lambda>b. fake_event 0 (Fin 0)) timed_options (0, []) s \<and> m_phase s = Exited 1 \<and> late s \<and>
     snd (alog (m_agent s)) \<noteq> []"
proof -
  obtain s where s: "main_reach (\<lambda>d. []) (\<lambda>b. fake_event 0 (Fin 0)) timed_options (0, []) s" "m_phase s = Exited 1" "\<not> signalled s"
    using late_run by blast
  have "opt_duration_s timed_options > 0" "map fst (snd (0 :: u64, [] :: wal_records)) = seq_range (fst (0 :: u64, [] :: wal_records)) 1"
    by (simp_all add: timed_options_def seq_range_def)
  from agent_main_exit[OF s(1,2) this] s show ?thesis by auto
qed

end
