(* ===== verification/Drain.thy ===== *)
theory Drain
  imports EndToEnd
begin

text \<open>
  Progress of agent and gateway together: a stream on which nothing is left to send, to serve or to
  read has delivered everything, and from every reachable state there is a way to such a stream.
\<close>

section \<open>Acknowledgements in flight\<close>

text \<open>How far the gateway's side of a stream is, with the greeting still in flight or already read.\<close>

definition position :: "'w system \<Rightarrow> u64" where
  "position S =
     (if device_id (conn (server S)) = []
      then (case up S of MHello h # _ \<Rightarrow> hello_last_acked_seq h | _ \<Rightarrow> 0)
      else last_seq (conn (server S)))"

definition active :: "'w system \<Rightarrow> bool" where
  "active S \<longleftrightarrow> streaming S \<and> (up S \<noteq> [] \<or> writable S)"

text \<open>The gateway is where the agent's checkpoint is, or where the last acknowledgement in flight will take it.\<close>

definition covered :: "'w system \<Rightarrow> bool" where
  "covered S \<longleftrightarrow> (active S \<longrightarrow> position S = max (fst (alog (edge S))) (last (0 # down S)))"

lemma link_position: "link_inv S p \<Longrightarrow> position S = p"
  by (auto simp: link_inv_def greeting_def position_def split: if_splits)

lemma active_link: "system_inv ser S \<Longrightarrow> active S \<Longrightarrow> link_inv S (position S)"
  unfolding system_inv_def active_def using link_position by blast

lemma covered_same:
  assumes "covered S" "streaming S' = streaming S" "writable S' = writable S" "up S' = up S" "down S' = down S"
    "conn (server S') = conn (server S)" "fst (alog (edge S')) = fst (alog (edge S))"
  shows "covered S'"
proof -
  have "position S' = position S" "active S' = active S" by (simp_all add: position_def active_def assms(2-6))
  then show ?thesis using assms(1) by (simp add: covered_def assms(5,7))
qed

lemma covered_send:
  assumes "system_inv ser S" "covered S" "streaming S" "writable S"
  shows "covered (S\<lparr>writable := ok, last_sent_seq := sent, up := up S @ ms\<rparr>)"
proof -
  have a: "active S" using assms by (simp add: active_def)
  have "greeting (position S) (conn (server S)) (up S)" using active_link[OF assms(1) a] by (simp add: link_inv_def)
  then have "position (S\<lparr>writable := ok, last_sent_seq := sent, up := up S @ ms\<rparr>) = position S"
    by (auto simp: position_def greeting_def split: if_splits)
  then show ?thesis using assms(2) a by (simp add: covered_def)
qed

lemma covered_serve:
  assumes "never_rejects I" "system_inv ser S" "covered S" "streaming S" "up S = m # ms" "handle E I m (server S) = Continue s"
  shows "covered (S\<lparr>server := s, up := ms, down := down S @ acks_in (new_events (server S) s),
      delivered := delivered S @ taken m (new_events (server S) s)\<rparr>)" (is "covered ?S")
proof -
  have e: "edge_inv ser S" using assms(2) by (simp add: system_inv_def)
  have a: "active S" using assms(4,5) by (simp add: active_def)
  note l = active_link[OF assms(2) a]
  have le: "fst (alog (edge S)) \<le> position S" using l by (simp add: link_inv_def)
  have c: "position S = max (fst (alog (edge S))) (last (0 # down S))" using assms(3) a by (simp add: covered_def)
  show ?thesis
  proof (cases m)
    case (MHello h)
    with assms(6) have h: "on_hello E h (server S) = Continue s" by simp
    have "position ?S = position S" using link_position[OF link_hello[OF l, of h ms E s]] assms(5) h MHello by simp
    then show ?thesis using c hello_continues(3)[OF h] by (simp add: covered_def)
  next
    case (MDetection d)
    note nd = next_detection[OF e l assms(5)[unfolded MDetection]]
    have new: "device_id (conn s) = device_id (conn (server S))" "last_seq (conn s) = seq d" "acks_in (new_events (server S) s) = [seq d]"
      using detection_accepted[OF assms(1) nd(1), of d E] nd(2,3) assms(6) MDetection by simp_all
    have "fst (alog (edge S)) \<le> seq d" using le nd(3) by simp
    then show ?thesis using nd(1) by (simp add: covered_def position_def new max_def)
  next
    case (MHeartbeat hb)
    with assms(6) have q: "quiet (conn (server S)) (conn s)" using heartbeat_quiet[of "server S" E I hb] by simp
    then have "acks_in (new_events (server S) s) = []" by (auto simp: quiet_def new_events_def)
    moreover have "position ?S = position S" using link_position[OF link_quiet[OF l assms(5) _ q]] MHeartbeat by simp
    ultimately show ?thesis using c by (simp add: covered_def)
  qed (use assms(6) in simp)
qed

lemma covered_ack:
  assumes "system_inv ser S" "covered S" "down S = n # ns"
  shows "covered (S\<lparr>edge := on_ack n (edge S), down := ns\<rparr>)"
proof (cases "active S")
  case False
  then have "\<not> active (S\<lparr>edge := on_ack n (edge S), down := ns\<rparr>)" by (simp add: active_def)
  then show ?thesis by (simp add: covered_def)
next
  case True
  have ag: "agent_inv (edge S)" using assms(1) by (simp add: system_inv_def edge_inv_def)
  have "n \<le> position S" using active_link[OF assms(1) True] assms(3) by (simp add: link_inv_def)
  moreover have "position S = max (fst (alog (edge S))) (last (n # ns))"
    using assms(2,3) True by (simp add: covered_def)
  ultimately have "position S = max (max (fst (alog (edge S))) n) (last (0 # ns))"
    by (cases "ns = []") (auto simp: max_def)
  moreover have "position (S\<lparr>edge := on_ack n (edge S), down := ns\<rparr>) = position S" by (simp add: position_def)
  ultimately show ?thesis by (simp add: covered_def on_ack_effect[OF ag])
qed

lemma covered_open:
  assumes "open_stream prs opt version budget (edge S) = (ms, sent, budget', ok)"
  shows "covered (S\<lparr>server := (server S)\<lparr>conn := new_connection\<rparr>, streaming := True, writable := ok,
      last_sent_seq := sent, up := ms, down := []\<rparr>)"
  using assms by (auto simp: open_stream_def covered_def active_def position_def new_connection_def make_hello_def split: nat.splits prod.splits)

lemma system_step_covered:
  assumes "system_step E I ser prs opt S S'" "never_rejects I" "system_inv ser S" "covered S"
  shows "covered S'"
  using assms(1)
proof cases
  case (sys_emit d)
  have "agent_inv (edge S)" using assms(3) by (simp add: system_inv_def edge_inv_def)
  then show ?thesis using sys_emit by (intro covered_same[OF assms(4)]) (simp_all add: emit_effect)
next
  case (sys_config cfg)
  then show ?thesis by (intro covered_same[OF assms(4)]) simp_all
next
  case (sys_apply f)
  then show ?thesis by (intro covered_same[OF assms(4)]) auto
next
  case (sys_ack n ns)
  then show ?thesis using covered_ack[OF assms(3,4)] by simp
next
  case (sys_others L w)
  then show ?thesis by (intro covered_same[OF assms(4)]) simp_all
next
  case (sys_refuse m ms code s)
  then show ?thesis by (simp add: covered_def active_def)
next
  case sys_break
  then show ?thesis by (simp add: covered_def active_def hang_up_def)
next
  case sys_crash
  then show ?thesis by (simp add: covered_def active_def hang_up_def)
qed (use assms in \<open>auto intro: covered_open covered_send covered_serve\<close>)

lemma system_reach_covered:
  assumes "system_reach E I ser prs opt S" "never_rejects I" "\<And>d. d \<in> set (emitted S) \<Longrightarrow> prs (ser d) = d"
  shows "covered S"
  using assms(1,3)
proof induction
  case (sys_init L w)
  show ?case by (simp add: covered_def active_def system_start_def)
next
  case (sys_more S S')
  then have "\<And>d. d \<in> set (emitted S) \<Longrightarrow> prs (ser d) = d" using emitted_grows by blast
  then show ?case
    using sys_more system_reach_inv[OF sys_more.hyps(1) assms(2)] system_step_covered[OF sys_more.hyps(2) assms(2)] by blast
qed

section \<open>A quiet stream has delivered everything\<close>

lemma idle_drained:
  assumes "system_inv ser S" "covered S" "streaming S" "writable S" "up S = []" "down S = []"
    "\<forall>it\<in>set (outbox (edge S)). fst it \<le> last_sent_seq S"
  shows "outbox (edge S) = [] \<and> alog (edge S) = (fst (alog (edge S)), []) \<and> set (emitted S) \<subseteq> set (delivered S)"
proof -
  let ?c = "fst (alog (edge S))"
  have e: "edge_inv ser S" using assms(1) by (simp add: system_inv_def)
  have a: "active S" using assms(3,4) by (simp add: active_def)
  have p: "position S = ?c" using assms(2,6) a by (simp add: covered_def)
  have none: "filter (\<lambda>d. ?c < seq d \<and> seq d \<le> last_sent_seq S) (emitted S) = []"
    using active_link[OF assms(1) a] assms(5) by (simp add: link_inv_def p)
  have ob: "outbox (edge S) = map (\<lambda>d. (seq d, ser d)) (filter (\<lambda>d. ?c < seq d) (emitted S))"
    using e by (simp add: edge_inv_def)
  then have out: "\<forall>d\<in>set (emitted S). \<not> ?c < seq d" using none assms(7) by (auto simp: filter_empty_conv)
  then have "outbox (edge S) = []" by (simp add: ob)
  moreover have "outbox (edge S) = snd (alog (edge S))" using e by (simp add: edge_inv_def agent_inv_def)
  moreover have "set (emitted S) \<subseteq> set (delivered S)"
    using out e by (auto simp: edge_inv_def delivered_to_def not_less)
  ultimately show ?thesis by (simp add: prod_eq_iff)
qed

text \<open>
  C10: no event gets stuck.  On an open stream of any run, when everything in the outbox was written, the
  gateway has read every message and the agent every acknowledgement, then the outbox and the log are empty and
  every committed event was accepted; provided the gateway rejects no event.
\<close>

theorem idle_stream_is_drained:
  assumes "system_reach E I ser prs opt S" "never_rejects I" "\<And>d. d \<in> set (emitted S) \<Longrightarrow> prs (ser d) = d"
    and "streaming S" "writable S" "up S = []" "down S = []" "\<forall>it\<in>set (outbox (edge S)). fst it \<le> last_sent_seq S"
  shows "outbox (edge S) = [] \<and> snd (alog (edge S)) = [] \<and> set (emitted S) \<subseteq> set (delivered S)"
  using idle_drained[OF system_reach_inv[OF assms(1-3)] system_reach_covered[OF assms(1-3)] assms(4-8)]
  by (metis snd_conv)

section \<open>The way there\<close>

text \<open>
  A gateway that serves this agent: it rejects no event, its certificate check passes, its writes
  succeed, and its clock is a time since 1970 in 64 bits.
\<close>

definition willing :: "'w platform \<Rightarrow> 'w GatewayIntegrations \<Rightarrow> Options \<Rightarrow> bool" where
  "willing E I opt \<longleftrightarrow> never_rejects I \<and> opt_device_id opt \<noteq> [] \<and>
     (case cn_values E of [] \<Rightarrow> True | cn # _ \<Rightarrow> cn = expected_cn (make_hello opt [] (agent_start opt (0, [])))) \<and>
     (\<forall>m w. fst (stream_Write E m w)) \<and> (\<forall>w. 0 \<le> fst (NowUnixNs E w) \<and> fst (NowUnixNs E w) < 2 ^ 63)"

definition stamped :: "DetectionEvent \<Rightarrow> bool" where
  "stamped d \<longleftrightarrow> 0 \<le> emit_time_unix_ns d \<and> emit_time_unix_ns d < 2 ^ 63"

lemma willing_never_rejects: "willing E I opt \<Longrightarrow> never_rejects I"
  by (simp add: willing_def)

lemma hello_served:
  assumes "willing E I opt"
  shows "\<exists>s'. on_hello E (make_hello opt version a) s = Continue s'"
proof -
  have "expected_cn (make_hello opt version a) = expected_cn (make_hello opt [] (agent_start opt (0, [])))"
    by (simp add: expected_cn_def make_hello_def)
  then show ?thesis using assms by (auto simp: on_hello_def willing_def make_hello_def[of opt version a] split: list.splits)
qed

lemma detection_served:
  assumes "willing E I opt" "stamped d" "device_id (conn s) \<noteq> []" "last_seq (conn s) < seq d"
  shows "\<exists>s'. on_detection E I d s = Continue s'"
proof -
  note nr = willing_never_rejects[OF assms(1)]
  have lim: "CheckRateLimit E I key s = Some (True, s)" for key
    using nr by (simp add: CheckRateLimit_def never_rejects_def)
  obtain s2 where p: "publish E I d s = (True, s2)" using publish_new[OF nr, of E d s] by (cases "publish E I d s") auto
  obtain now w where now: "NowUnixNs E (world s2) = (now, w)" by fastforce
  have "0 \<le> now" "now < 2 ^ 63" using assms(1) now by (auto simp: willing_def) (metis fst_conv)+
  then have "\<not> (now - emit_time_unix_ns d < - (2 ^ 63) \<or> 2 ^ 63 \<le> now - emit_time_unix_ns d)"
    using assms(2) by (simp add: stamped_def)
  then obtain s3 where acc: "accept E I d s2 = Some s3" by (simp add: accept_def Let_def now)
  obtain ok w' where wr: "stream_Write E (MAck (last_seq (conn s3))) (world s3) = (ok, w')" by fastforce
  have ok using assms(1) wr by (auto simp: willing_def) (metis fst_conv)
  then show ?thesis
    using assms(3) assms(4)[unfolded not_le[symmetric]] lim p acc wr by (simp add: on_detection_def write_ack_def)
qed

text \<open>The states on the way: a sound open stream with nothing but the greeting and events in flight.\<close>

definition flowing :: "(DetectionEvent \<Rightarrow> byte list) \<Rightarrow> Options \<Rightarrow> 'w system \<Rightarrow> bool" where
  "flowing ser opt S \<longleftrightarrow> system_inv ser S \<and> covered S \<and> streaming S \<and> writable S \<and>
     (\<forall>it\<in>set (outbox (edge S)). fst it \<le> last_sent_seq S) \<and>
     (\<forall>m\<in>set (up S). (\<exists>version a. m = MHello (make_hello opt version a)) \<or> (\<exists>d. m = MDetection d))"

lemma serve_one:
  assumes "willing E I opt" "flowing ser opt S" "\<forall>d\<in>set (emitted S). stamped d" "up S = m # ms"
  shows "\<exists>S'. system_step E I ser prs opt S S' \<and> flowing ser opt S' \<and> up S' = ms \<and> emitted S' = emitted S"
proof -
  note nr = willing_never_rejects[OF assms(1)]
  have inv: "system_inv ser S" "covered S" "streaming S" "writable S" and m: "(\<exists>version a. m = MHello (make_hello opt version a)) \<or> (\<exists>d. m = MDetection d)"
    using assms(2,4) by (auto simp: flowing_def)
  have l: "link_inv S (position S)" using active_link[OF inv(1)] inv(3,4) by (simp add: active_def)
  have e: "edge_inv ser S" using inv(1) by (simp add: system_inv_def)
  have "\<exists>s. handle E I m (server S) = Continue s"
    using m
  proof (elim disjE exE)
    fix version a assume "m = MHello (make_hello opt version a)"
    then show ?thesis using hello_served[OF assms(1)] by simp
  next
    fix d assume d: "m = MDetection d"
    note nd = next_detection[OF e l assms(4)[unfolded d]]
    have "last_seq (conn (server S)) < seq d" using nd(2,3) by simp
    then show ?thesis using detection_served[OF assms(1) _ nd(1)] assms(3) nd(5) by (simp add: d)
  qed
  then obtain s where s: "handle E I m (server S) = Continue s" ..
  let ?S = "S\<lparr>server := s, up := ms, down := down S @ acks_in (new_events (server S) s),
      delivered := delivered S @ taken m (new_events (server S) s)\<rparr>"
  have "system_step E I ser prs opt S ?S" by (rule sys_serve[OF inv(3) assms(4) s])
  moreover have "flowing ser opt ?S"
    using assms(2,4) inv_serve[OF nr inv(1,3) assms(4) s] covered_serve[OF nr inv(1-3) assms(4) s] by (simp add: flowing_def)
  ultimately show ?thesis by fastforce
qed

lemma serve_all:
  assumes "willing E I opt" "flowing ser opt S" "\<forall>d\<in>set (emitted S). stamped d"
  shows "\<exists>S'. (system_step E I ser prs opt)\<^sup>*\<^sup>* S S' \<and> flowing ser opt S' \<and> up S' = [] \<and> emitted S' = emitted S"
  using assms(2,3)
proof (induction "up S" arbitrary: S)
  case Nil
  then show ?case by (intro exI[of _ S]) simp
next
  case (Cons m ms)
  obtain S1 where 1: "system_step E I ser prs opt S S1" "flowing ser opt S1" "up S1 = ms" "emitted S1 = emitted S"
    using serve_one[OF assms(1) Cons.prems Cons.hyps(2)[symmetric]] by blast
  then show ?case using Cons.hyps(1)[of S1] Cons.prems(2) by (metis converse_rtranclp_into_rtranclp)
qed

lemma unacked_subset: "set (unacked u rs) \<subseteq> set rs"
  by (auto simp: unacked_def)

lemma ack_all:
  assumes "flowing ser opt S" "up S = []"
  shows "\<exists>S'. (system_step E I ser prs opt)\<^sup>*\<^sup>* S S' \<and> flowing ser opt S' \<and> up S' = [] \<and> down S' = [] \<and> emitted S' = emitted S"
  using assms
proof (induction "down S" arbitrary: S)
  case Nil
  then show ?case by (intro exI[of _ S]) simp
next
  case (Cons n ns)
  let ?S = "S\<lparr>edge := on_ack n (edge S), down := ns\<rparr>"
  have dn: "down S = n # ns" using Cons.hyps(2) by simp
  have inv: "system_inv ser S" "covered S" "streaming S" using Cons.prems(1) by (simp_all add: flowing_def)
  have st: "system_step E I ser prs opt S ?S" using sys_ack[OF inv(3) dn] by simp
  have "agent_inv (edge S)" using inv(1) by (simp add: system_inv_def edge_inv_def)
  then have "set (outbox (edge ?S)) \<subseteq> set (outbox (edge S))" by (simp add: on_ack_effect unacked_subset)
  then have f: "flowing ser opt ?S"
    using Cons.prems inv_ack[OF inv(1) dn] covered_ack[OF inv(1,2) dn] by (auto simp: flowing_def)
  have "\<exists>S'. (system_step E I ser prs opt)\<^sup>*\<^sup>* ?S S' \<and> flowing ser opt S' \<and> up S' = [] \<and> down S' = [] \<and> emitted S' = emitted ?S"
    by (rule Cons.hyps(1)) (use f Cons.prems(2) in simp_all)
  then show ?case using st by (auto intro: converse_rtranclp_into_rtranclp)
qed

text \<open>With enough writes that succeed, opening a stream sends the whole outbox.\<close>

lemma resend_all:
  "length items \<le> budget \<Longrightarrow> \<exists>sent'. resend prs budget items sent =
     (map (\<lambda>it. MDetection (prs (snd it))) items, sent', budget - length items, True) \<and>
     sent \<le> sent' \<and> (\<forall>it\<in>set items. fst it \<le> sent')"
proof (induction prs budget items sent rule: resend.induct)
  case (3 prs budget it items sent)
  then obtain sent' where s: "resend prs budget items (max sent (fst it)) =
      (map (\<lambda>it. MDetection (prs (snd it))) items, sent', budget - length items, True)"
    "max sent (fst it) \<le> sent'" "\<forall>it\<in>set items. fst it \<le> sent'" by auto
  then show ?case by (auto split: prod.split)
qed auto

lemma open_flowing:
  assumes "system_inv ser S" "\<And>d. d \<in> set (emitted S) \<Longrightarrow> prs (ser d) = d" "\<not> streaming S"
  shows "\<exists>S'. system_step E I ser prs opt S S' \<and> flowing ser opt S' \<and> emitted S' = emitted S"
proof -
  let ?ob = "outbox (edge S)"
  obtain sent where r: "resend prs (length ?ob) ?ob 0 = (map (\<lambda>it. MDetection (prs (snd it))) ?ob, sent, 0, True)"
    "\<forall>it\<in>set ?ob. fst it \<le> sent"
    using resend_all[of ?ob "length ?ob" prs 0] by auto
  let ?ms = "MHello (make_hello opt [] (edge S)) # map (\<lambda>it. MDetection (prs (snd it))) ?ob"
  have o: "open_stream prs opt [] (Suc (length ?ob)) (edge S) = (?ms, sent, 0, True)"
    by (simp add: open_stream_def Snapshot_def r(1))
  let ?S = "S\<lparr>server := (server S)\<lparr>conn := new_connection\<rparr>, streaming := True, writable := True,
      last_sent_seq := sent, up := ?ms, down := []\<rparr>"
  have "system_step E I ser prs opt S ?S" by (rule sys_open[OF assms(3) o])
  moreover have "flowing ser opt ?S"
    using inv_open[OF assms(1,2) o] covered_open[OF o] r(2) by (auto simp: flowing_def)
  ultimately show ?thesis by fastforce
qed

lemma drain:
  assumes "willing E I opt" "system_inv ser S" "\<And>d. d \<in> set (emitted S) \<Longrightarrow> prs (ser d) = d" "\<forall>d\<in>set (emitted S). stamped d"
  shows "\<exists>S'. (system_step E I ser prs opt)\<^sup>*\<^sup>* S S' \<and> emitted S' = emitted S \<and> outbox (edge S') = [] \<and> set (emitted S) \<subseteq> set (delivered S')"
proof -
  have h: "system_step E I ser prs opt S (hang_up S)" "emitted (hang_up S) = emitted S" "\<not> streaming (hang_up S)"
    by (rule sys_break) (simp_all add: hang_up_def)
  obtain S1 where 1: "system_step E I ser prs opt (hang_up S) S1" "flowing ser opt S1" "emitted S1 = emitted S"
    using open_flowing[OF inv_hang_up[OF assms(2)], of prs] assms(3) h(2,3) by metis
  obtain S2 where 2: "(system_step E I ser prs opt)\<^sup>*\<^sup>* S1 S2" "flowing ser opt S2" "up S2 = []" "emitted S2 = emitted S"
    using serve_all[OF assms(1) 1(2)] assms(4) 1(3) by metis
  obtain S3 where 3: "(system_step E I ser prs opt)\<^sup>*\<^sup>* S2 S3" "flowing ser opt S3" "up S3 = []" "down S3 = []" "emitted S3 = emitted S"
    using ack_all[OF 2(2,3)] 2(4) by metis
  have "(system_step E I ser prs opt)\<^sup>*\<^sup>* S S3"
    using h(1) 1(1) 2(1) 3(1) by (meson converse_rtranclp_into_rtranclp rtranclp_trans)
  moreover have "outbox (edge S3) = []" "set (emitted S) \<subseteq> set (delivered S3)"
    using idle_drained[of ser S3] 3(2-5) by (simp_all add: flowing_def)
  ultimately show ?thesis using 3(5) by blast
qed

text \<open>
  C11: the agent can always finish.  From every state of every run, whatever streams broke and whatever is in
  flight, there are steps to a state with the same committed events in which all of them are accepted and the
  outbox is empty, so that the loops of the agent's main function end; with a gateway that serves this
  agent and rejects no event.
\<close>

theorem outbox_drains:
  assumes "system_reach E I ser prs opt S" "willing E I opt" "\<And>d. d \<in> set (emitted S) \<Longrightarrow> prs (ser d) = d"
    "\<forall>d\<in>set (emitted S). stamped d"
  shows "\<exists>S'. (system_step E I ser prs opt)\<^sup>*\<^sup>* S S' \<and> emitted S' = emitted S \<and> outbox (edge S') = [] \<and>
    set (emitted S) \<subseteq> set (delivered S') \<and> \<not> keep_running stop True producer_done (edge S')"
proof -
  obtain S' where "(system_step E I ser prs opt)\<^sup>*\<^sup>* S S'" "emitted S' = emitted S" "outbox (edge S') = []" "set (emitted S) \<subseteq> set (delivered S')"
    using drain[OF assms(2) system_reach_inv[OF assms(1) willing_never_rejects[OF assms(2)] assms(3)] assms(3,4)] by blast
  then show ?thesis by (intro exI[of _ S']) (simp add: keep_running_def Outbox_Size_def)
qed

section \<open>Runs\<close>

text \<open>Two committed events, the stream just opened: nothing has reached the gateway yet.\<close>

abbreviation easy_broker :: "unit GatewayIntegrations" where
  "easy_broker \<equiv> broker_only (\<lambda>_ _ w. (True, w))"

lemma easy_never_rejects: "never_rejects easy_broker"
  by (simp add: never_rejects_def broker_only_def)

lemma tiny_roundtrip: "d \<in> {demo_event 1, demo_event 2} \<Longrightarrow> tiny_prs (tiny_ser d) = d"
  by (auto simp: tiny_prs_def tiny_ser_def demo_event_def)

theorem outbox_drains_witness:
  "\<exists>S S' :: unit system. system_reach calm_platform easy_broker tiny_ser tiny_prs demo_options S \<and> delivered S = [] \<and>
     (system_step calm_platform easy_broker tiny_ser tiny_prs demo_options)\<^sup>*\<^sup>* S S' \<and> outbox (edge S') = [] \<and>
     {demo_event 1, demo_event 2} \<subseteq> set (delivered S')"
proof -
  let ?S = "scene two_events new_connection () [MHello scene_hello, MDetection (demo_event 1), MDetection (demo_event 2)] [] [] :: unit system"
  have em: "emitted ?S = [demo_event 1, demo_event 2]" "delivered ?S = []" by (simp_all add: scene_def)
  have "willing calm_platform easy_broker demo_options"
    using easy_never_rejects by (simp add: willing_def calm_platform_def demo_options_def default_options_def)
  from outbox_drains[OF scene_opened this, of "()" False True] have "\<exists>S'. (system_step calm_platform easy_broker tiny_ser tiny_prs demo_options)\<^sup>*\<^sup>* ?S S' \<and> emitted S' = emitted ?S \<and>
      outbox (edge S') = [] \<and> set (emitted ?S) \<subseteq> set (delivered S') \<and> \<not> keep_running False True True (edge S')"
    unfolding em using tiny_roundtrip by (simp add: stamped_def) (simp add: demo_event_def)
  then show ?thesis using scene_opened em by (metis list.set(1) list.simps(15))
qed

lemma quiet_scene:
  "system_reach calm_platform easy_broker tiny_ser tiny_prs demo_options
    (scene (on_ack 2 (on_ack 1 two_events)) (after_publish True 2 (after_publish True 1 scene_conn)) () [] [] [demo_event 1, demo_event 2])"
proof -
  let ?R = "system_reach calm_platform easy_broker tiny_ser tiny_prs demo_options"
  have "?R (scene two_events (after_publish True 1 scene_conn) () [MDetection (demo_event 2)] (if True then [] @ [1] else []) (if True then [] @ [demo_event 1] else []))"
    by (rule scene_detection[OF scene_greeted]) (simp_all add: scene_conn_sel word_le_nat_alt)
  from scene_detection[OF this, of True "()"]
  have "?R (scene two_events (after_publish True 2 (after_publish True 1 scene_conn)) () [] [1, 2] [demo_event 1, demo_event 2])"
    by (simp add: after_publish_sel scene_conn_sel word_le_nat_alt)
  then show ?thesis by (auto dest!: scene_ack)
qed

theorem idle_stream_is_drained_witness:
  "\<exists>S :: unit system. system_reach calm_platform easy_broker tiny_ser tiny_prs demo_options S \<and> streaming S \<and> writable S \<and>
     up S = [] \<and> down S = [] \<and> outbox (edge S) = [] \<and> snd (alog (edge S)) = [] \<and> set (emitted S) \<subseteq> set (delivered S)"
proof -
  let ?S = "scene (on_ack 2 (on_ack 1 two_events)) (after_publish True 2 (after_publish True 1 scene_conn)) () [] [] [demo_event 1, demo_event 2]"
  have s: "streaming ?S" "writable ?S" "up ?S = []" "down ?S = []" "emitted ?S = [demo_event 1, demo_event 2]" by (simp_all add: scene_def)
  have sent: "\<forall>it\<in>set (outbox (edge ?S)). fst it \<le> last_sent_seq ?S"
    by (simp add: scene_def on_ack_def two_events_sel word_le_nat_alt)
  have "outbox (edge ?S) = [] \<and> snd (alog (edge ?S)) = [] \<and> set (emitted ?S) \<subseteq> set (delivered ?S)"
    by (rule idle_stream_is_drained[OF quiet_scene easy_never_rejects _ s(1-4) sent]) (use tiny_roundtrip s(5) in simp)
  then show ?thesis using quiet_scene s by blast
qed

end
