(* ===== verification/SampleVideo.thy ===== *)
theory SampleVideo
  imports EdgeTool
begin

text \<open>
  The sample video writer, tools/make_sample_video.cc: its options, the frames it writes, and the number of
  confirmed episodes it announces, which is compared with what tools/ridgeline_edge.cc counts on the video.
\<close>

section \<open>Options\<close>

record sample_options =
  so_image :: string
  so_out :: string
  so_fps :: fp
  so_segments :: int
  so_per_segment :: int

definition default_sample_options :: "string \<Rightarrow> sample_options" where
  "default_sample_options img = \<lparr>so_image = img, so_out = ''third_party/testdata/sample.avi'', so_fps = Fin 15, so_segments = 4,
     so_per_segment = 30\<rparr>"

definition sample_flags :: "(string \<times> (string \<Rightarrow> sample_options \<Rightarrow> sample_options)) list" where
  "sample_flags =
    [(''--image='', \<lambda>v r. r\<lparr>so_image := v\<rparr>),
     (''--out='', \<lambda>v r. r\<lparr>so_out := v\<rparr>),
     (''--fps='', \<lambda>v r. r\<lparr>so_fps := atof v\<rparr>),
     (''--segments='', \<lambda>v r. r\<lparr>so_segments := atoi v\<rparr>),
     (''--frames-per-segment='', \<lambda>v r. r\<lparr>so_per_segment := atoi v\<rparr>)]"

fun sample_args :: "string list \<Rightarrow> sample_options \<Rightarrow> sample_options option" where
  "sample_args [] r = Some r"
| "sample_args (a # as) r = (case apply_flag sample_flags a r of Some r' \<Rightarrow> sample_args as r' | None \<Rightarrow> None)"

section \<open>The video\<close>

text \<open>
  The matrices of the image library are a type parameter; reading an image, the gray matrix of the same size and
  opening the writer are parameters, a writer that cannot be opened being \<open>False\<close>.
\<close>

definition sample_frames :: "'m \<Rightarrow> 'm \<Rightarrow> int \<Rightarrow> int \<Rightarrow> 'm list" where
  "sample_frames target gray segments per_segment =
     concat (map (\<lambda>_. replicate (nat per_segment) target @ replicate (nat per_segment) gray) [0..<nat segments])"

record 'm sample_result =
  sr_code :: int
  sr_written :: "'m list"
  sr_expected :: "int option"

definition make_sample_video :: "string \<Rightarrow> (string \<Rightarrow> 'm option) \<Rightarrow> ('m \<Rightarrow> 'm) \<Rightarrow> (string \<Rightarrow> fp \<Rightarrow> 'm \<Rightarrow> bool) \<Rightarrow> string list \<Rightarrow> 'm sample_result" where
  "make_sample_video default_image imread gray_like open_writer args =
     (case sample_args args (default_sample_options default_image) of
        None \<Rightarrow> \<lparr>sr_code = 2, sr_written = [], sr_expected = None\<rparr>
      | Some o' \<Rightarrow>
          (case imread (so_image o') of
             None \<Rightarrow> \<lparr>sr_code = 1, sr_written = [], sr_expected = None\<rparr>
           | Some target \<Rightarrow>
               if \<not> open_writer (so_out o') (so_fps o') target then \<lparr>sr_code = 1, sr_written = [], sr_expected = None\<rparr>
               else \<lparr>sr_code = 0, sr_written = sample_frames target (gray_like target) (so_segments o') (so_per_segment o'),
                     sr_expected = Some (so_segments o')\<rparr>))"

section \<open>Episodes\<close>

text \<open>The positive results in the window of the last \<open>n\<close> frames, and whether they confirm.\<close>

definition in_window :: "nat \<Rightarrow> bool list \<Rightarrow> nat" where
  "in_window n xs = count_true (last_n n xs)"

text \<open>The confirmation after every further frame of a run.\<close>

definition episodes :: "nat \<Rightarrow> nat \<Rightarrow> bool list \<Rightarrow> bool list" where
  "episodes k n xs = map (\<lambda>i. k \<le> in_window n (take (Suc i) xs)) [0..<length xs]"

lemma confirmations_episodes: "confirmations detect k n fs = episodes k n (map (positive \<circ> detect) fs)"
  by (simp add: confirmations_def episodes_def in_window_def take_map)

lemma episodes_snoc: "episodes k n (xs @ [x]) = episodes k n xs @ [k \<le> in_window n (xs @ [x])]"
  by (auto simp: episodes_def intro!: map_cong)

lemma last_episodes: "xs \<noteq> [] \<Longrightarrow> last (episodes k n xs) = (k \<le> in_window n xs)"
  by (cases xs rule: rev_cases) (simp_all add: episodes_snoc)

lemma episodes_Nil [simp]: "episodes k n [] = []" "(episodes k n xs = []) = (xs = [])"
  by (simp_all add: episodes_def)

definition confirmed :: "nat \<Rightarrow> nat \<Rightarrow> bool list \<Rightarrow> bool" where
  "confirmed k n xs \<longleftrightarrow> k \<le> in_window n xs"

lemma in_window_up: "in_window n xs \<le> in_window n (xs @ [True])"
proof -
  have "count_true ys \<le> Suc (count_true (tl ys))" for ys by (cases ys) auto
  then show ?thesis by (cases "last_n n xs") (auto simp: in_window_def last_n_snoc)
qed

lemma in_window_down: "in_window n (xs @ [False]) \<le> in_window n xs"
  unfolding in_window_def by (rule count_true_negative)

lemma rises_snoc:
  assumes "0 < k"
  shows "length (rising (episodes k n (xs @ [x]))) =
    length (rising (episodes k n xs)) + (if confirmed k n (xs @ [x]) \<and> \<not> confirmed k n xs then 1 else 0)"
proof (cases "xs = []")
  case True
  then show ?thesis using assms by (simp add: episodes_snoc[of k n "[]", simplified] rising_def confirmed_def in_window_def last_n_def)
next
  case False
  then show ?thesis by (simp add: episodes_snoc rising_snoc last_episodes confirmed_def)
qed

text \<open>A run of frames with the target adds an episode when it is long enough; a run without it adds none.\<close>

lemma rises_up:
  assumes "0 < k" "\<not> confirmed k n xs"
  shows "length (rising (episodes k n (xs @ replicate m True))) =
    length (rising (episodes k n xs)) + (if confirmed k n (xs @ replicate m True) then 1 else 0)"
proof (induction m)
  case (Suc m)
  have eq: "xs @ replicate (Suc m) True = (xs @ replicate m True) @ [True]" by (simp add: replicate_append_same)
  have up: "confirmed k n (xs @ replicate m True) \<Longrightarrow> confirmed k n ((xs @ replicate m True) @ [True])"
    using in_window_up[of n "xs @ replicate m True"] by (simp add: confirmed_def)
  show ?case unfolding eq rises_snoc[OF assms(1)] Suc.IH using up by auto
qed (simp add: assms(2))

lemma rises_down:
  assumes "0 < k"
  shows "length (rising (episodes k n (xs @ replicate m False))) = length (rising (episodes k n xs))"
proof (induction m)
  case (Suc m)
  have eq: "xs @ replicate (Suc m) False = (xs @ replicate m False) @ [False]" by (simp add: replicate_append_same)
  have "confirmed k n ((xs @ replicate m False) @ [False]) \<Longrightarrow> confirmed k n (xs @ replicate m False)"
    using in_window_down[of n "xs @ replicate m False"] by (simp add: confirmed_def)
  then show ?case unfolding eq rises_snoc[OF assms(1)] Suc.IH by auto
qed simp

lemma confirmed_after:
  assumes "k \<le> n" "k \<le> m" shows "confirmed k n (xs @ replicate m True)"
proof -
  have "last_n n (xs @ replicate m True) = last_n (n - m) xs @ replicate (min n m) True"
    by (simp add: last_n_def min_def)
  then show ?thesis using assms by (simp add: confirmed_def in_window_def count_true_def)
qed

lemma not_confirmed_after:
  assumes "n < k + m" "0 < k" shows "\<not> confirmed k n (xs @ replicate m False)"
proof -
  have "last_n n (xs @ replicate m False) = last_n (n - m) xs @ replicate (min n m) False"
    by (simp add: last_n_def min_def)
  then have "in_window n (xs @ replicate m False) \<le> n - m"
    using count_true_le[of "last_n (n - m) xs"] by (simp add: in_window_def count_true_def)
  then show ?thesis using assms by (simp add: confirmed_def)
qed

lemma sample_rises:
  assumes "0 < k" "k \<le> n" "k \<le> m" "n < k + m"
  defines "seg \<equiv> replicate m True @ replicate m False"
  shows "length (rising (episodes k n (concat (replicate s seg)))) = s \<and> \<not> confirmed k n (concat (replicate s seg))"
proof (induction s)
  case 0
  show ?case using assms(1) by (simp add: rising_def confirmed_def in_window_def last_n_def)
next
  case (Suc s)
  let ?xs = "concat (replicate s seg)"
  have eq: "concat (replicate (Suc s) seg) = (?xs @ replicate m True) @ replicate m False"
    by (simp add: replicate_append_same[symmetric] seg_def)
  show ?case
    unfolding eq rises_down[OF assms(1)] using Suc.IH rises_up[OF assms(1), of n ?xs m] confirmed_after[OF assms(2,3), of ?xs]
      not_confirmed_after[OF assms(4,1), of "?xs @ replicate m True"] by simp
qed

lemma sample_pattern:
  assumes "target \<noteq> gray"
  shows "map (\<lambda>m. m = target) (sample_frames target gray segments per) =
    concat (replicate (nat segments) (replicate (nat per) True @ replicate (nat per) False))"
  using assms by (simp add: sample_frames_def map_concat comp_def map_replicate_const)

text \<open>The episodes of the video, for the settings the tool runs with.\<close>

lemma sample_episodes:
  assumes "target \<noteq> gray" "0 < k" "k \<le> n" "k \<le> nat per" "n < k + nat per"
    and "map (positive \<circ> detect) fs = map (\<lambda>m. m = target) (sample_frames target gray segments per)"
  shows "length (rising (confirmations detect k n fs)) = nat segments"
  unfolding confirmations_episodes assms(6) sample_pattern[OF assms(1)] using sample_rises[OF assms(2-5)] by blast

text \<open>With short segments the announced number is wrong: four segments of two frames give three episodes with the default settings.\<close>

lemma short_segments_merge:
  "length (rising (episodes 3 5 (sample_frames True False 4 2))) = 3"
  by code_simp

lemma edge_reach_realtime:
  "edge_reach next_frame detect moved p0 s \<Longrightarrow> realtime (er_pipe s) = realtime p0"
proof (induction rule: edge_reach.induct)
  case (edge_capture s)
  then show ?case by (simp add: capture_iter_def Let_def split: prod.splits)
next
  case (edge_infer s now)
  then show ?case by (simp add: infer_iter_def process_frame_fields split: prod.splits option.splits)
next
  case (edge_drain s p e l)
  then show ?case by (auto simp: drain_round_def split: prod.splits option.splits)
qed simp

section \<open>Property\<close>

text \<open>
  C22: the announced number of episodes is the one the command-line tool counts.  When the tool runs offline on
  the video to its end, with a detector that is positive on exactly the frames with the target and with
  segments not shorter than K and longer than N - K, it counts one episode per segment.
\<close>

theorem sample_video_episodes:
  assumes "make_sample_video img imread gray_like open_writer args = \<lparr>sr_code = 0, sr_written = ws, sr_expected = Some expected\<rparr>"
    and "sample_args args (default_sample_options img) = Some so" "imread (so_image so) = Some target" "gray_like target \<noteq> target"
    and "make_pipeline open_video new_session scr frames (new_ring evs) (edge_config opt) = Some (p0, det)" "\<not> eo_realtime opt"
    and "cap_ok (length frames)" "cap_ok (length evs)" "0 \<le> expected" "expected < int (length evs)"
    and "uint (eo_k opt) \<le> so_per_segment so" "uint (eo_n opt) < uint (eo_k opt) + so_per_segment so"
    and "edge_reach next_frame detect moved p0 s" "\<not> drain_continues (er_pipe s)"
    and "map (positive \<circ> detect) (produced (er_pipe s)) = map (\<lambda>m. m = target) ws"
  shows "uint (er_episodes s) = expected"
proof -
  let ?p = "er_pipe s"
  have ws: "ws = sample_frames target (gray_like target) (so_segments so) (so_per_segment so)" "expected = so_segments so"
    using assms(1) by (auto simp: make_sample_video_def assms(2,3) split: if_splits)
  obtain src cf where p0: "p0 = EdgePipeline (eo_realtime opt) src scr frames (new_ring evs) cf" and cf: "KOfNConfirmer (eo_k opt) (eo_n opt) = Some cf"
    using make_pipeline_Some[OF assms(5)] by (auto simp: edge_config_def)
  have k: "0 < unat (eo_k opt)" "unat (eo_k opt) \<le> unat (eo_n opt)"
    using cf by (auto simp: KOfNConfirmer_def unat_gt_0 not_less word_le_nat_alt[symmetric] split: if_splits)
  have "int (unat (eo_k opt)) \<le> so_per_segment so" "int (unat (eo_n opt)) < int (unat (eo_k opt)) + so_per_segment so"
    using assms(11,12) by simp_all
  then have per: "unat (eo_k opt) \<le> nat (so_per_segment so)" "unat (eo_n opt) < unat (eo_k opt) + nat (so_per_segment so)"
    by linarith+
  have d: "\<not> realtime ?p \<longrightarrow> processed ?p = produced ?p"
    "length (offered ?p) = length (rising (confirmations detect (unat (eo_k opt)) (unat (eo_n opt)) (processed ?p)))"
    "er_episodes s = word_of_nat (length (er_samples s))" "length (offered ?p) < length evs \<longrightarrow> er_samples s = map decision_ns (offered ?p)"
    using edge_tool_summary[OF assms(5,7,8,13,14)] by blast+
  have "\<not> realtime ?p" using edge_reach_realtime[OF assms(13)] assms(6) by (simp add: p0 EdgePipeline_def)
  then have "processed ?p = produced ?p" using d(1) by blast
  then have l: "length (offered ?p) = nat expected"
    using d(2) sample_episodes[OF assms(4)[symmetric] k per assms(15)[unfolded ws(1)]] ws(2) by simp
  moreover have "nat expected < length evs" using assms(9,10) by linarith
  ultimately have "length (er_samples s) = nat expected" using d(4) by (metis length_map)
  moreover have "expected < 2 ^ 64" using assms(10) cap_okD(3)[OF assms(8)] by simp
  ultimately show ?thesis using assms(9) d(3) by (simp add: uint_word_of_int)
qed

theorem sample_video_episodes_witness:
  "uint (er_episodes clip_end) = 1"
proof -
  let ?so = "(default_sample_options ''i'')\<lparr>so_segments := 1, so_per_segment := 1\<rparr>"
  let ?args = "[''--segments=1'', ''--frames-per-segment=1'']"
  have args: "sample_args ?args (default_sample_options ''i'') = Some ?so" by code_simp
  have w: "make_sample_video ''i'' (\<lambda>_. Some True) Not (\<lambda>_ _ _. True) ?args = \<lparr>sr_code = 0, sr_written = [True, False], sr_expected = Some 1\<rparr>"
    by code_simp
  have d: "map (positive \<circ> clip_detect) (produced (er_pipe clip_end)) = map (\<lambda>m. m = True) [True, False]" by code_simp
  have o: "\<not> eo_realtime clip_options" "uint (eo_k clip_options) \<le> so_per_segment ?so"
    "uint (eo_n clip_options) < uint (eo_k clip_options) + so_per_segment ?so" "1 < int (length clip_events)" "(Not True) \<noteq> True"
    by (simp_all add: clip_options_def clip_events_def)
  show ?thesis
    by (rule sample_video_episodes[OF w args refl o(5) clip_pipeline o(1) clip_facts(1,2) zero_le_one o(4) o(2,3) clip_reach_end clip_facts(3) d])
qed

end
