(* ===== verification/VideoProducer.thy ===== *)
theory VideoProducer
  imports EdgeTool
begin

text \<open>
  The video producer of the agent (agent/src/main.cc): its outer loop builds a pipeline from the current
  settings, its inner loop commits confirmed events to the log and the outbox until the video ends or a
  pushed configuration is applied.  The threads of the pipeline and the reader run beside it.
\<close>

section \<open>The producer\<close>

text \<open>
  Beside the code's state, \<open>vp_past\<close> holds the sessions before the current one, \<open>vp_taken\<close> the events popped in the
  current one and \<open>vp_committed\<close> all events committed.
\<close>

record 's video_producer =
  vp_agent :: agent
  vp_session :: "('s pipeline \<times> onnx_detector) option"
  vp_done :: bool
  vp_aborted :: bool
  vp_past :: "('s pipeline \<times> onnx_detector) list"
  vp_taken :: "ConfirmedEvent list"
  vp_committed :: "DetectionEvent list"

definition producer_start :: "agent \<Rightarrow> 's video_producer" where
  "producer_start a = \<lparr>vp_agent = a, vp_session = None, vp_done = False, vp_aborted = False, vp_past = [], vp_taken = [], vp_committed = []\<rparr>"

text \<open>A round of the outer loop up to the inner one; the pipeline that cannot be built takes the process down.\<close>

definition producer_build :: "(string \<Rightarrow> 'v option) \<Rightarrow> (string \<Rightarrow> int \<Rightarrow> (nat \<times> nat \<times> int list) option) \<Rightarrow> Frame \<Rightarrow> Frame list \<Rightarrow>
    ConfirmedEvent list \<Rightarrow> Options \<Rightarrow> bool \<Rightarrow> bool \<Rightarrow> 'v video_source video_producer \<Rightarrow> 'v video_source video_producer" where
  "producer_build open_video new_session scr frames evs opt stop time_up s =
     (if stop \<or> time_up then s\<lparr>vp_done := True\<rparr>
      else case make_pipeline open_video new_session scr frames (new_ring evs) (agent_pipeline_config opt (vp_agent s)) of
             None \<Rightarrow> s\<lparr>vp_aborted := True\<rparr>
           | Some sess \<Rightarrow> s\<lparr>vp_session := Some sess, vp_taken := []\<rparr>)"

text \<open>A round of the inner loop, or its end; a round that applied a configuration ends the session but not the producer.\<close>

definition producer_round :: "(DetectionEvent \<Rightarrow> byte list) \<Rightarrow> (ConfirmedEvent \<Rightarrow> ConfirmedEvent) \<Rightarrow> bool \<Rightarrow> bool \<Rightarrow> int \<Rightarrow>
    's pipeline \<times> onnx_detector \<Rightarrow> 's video_producer \<Rightarrow> 's video_producer" where
  "producer_round ser moved stop time_up now sess s =
     (case sess of (p, det) \<Rightarrow>
        if \<not> video_continues stop time_up p then s\<lparr>vp_session := None, vp_past := vp_past s @ [sess], vp_done := True\<rparr>
        else case video_round ser moved now p (vp_agent s) of (changed, p', a) \<Rightarrow>
          let got = (case fst (TryPop moved (out_events p)) of None \<Rightarrow> [] | Some ev \<Rightarrow> [ev]);
              s1 = s\<lparr>vp_agent := a, vp_taken := vp_taken s @ got,
                     vp_committed := vp_committed s @ map (\<lambda>ev. (video_event now ev)\<lparr>seq := next_seq (vp_agent s)\<rparr>) got\<rparr>
          in if changed then s1\<lparr>vp_session := None, vp_past := vp_past s @ [(p', det)]\<rparr> else s1\<lparr>vp_session := Some (p', det)\<rparr>)"

text \<open>
  The threads: the producer, the two threads of its pipeline, and the reader, which handles what the gateway
  sends.  The log holds fewer than \<open>2 ^ 64 - 1\<close> events.
\<close>

inductive producer_step :: "(string \<Rightarrow> 'v option) \<Rightarrow> (string \<Rightarrow> int \<Rightarrow> (nat \<times> nat \<times> int list) option) \<Rightarrow> Frame \<Rightarrow> Frame list \<Rightarrow>
    ConfirmedEvent list \<Rightarrow> Options \<Rightarrow> (DetectionEvent \<Rightarrow> byte list) \<Rightarrow> (ConfirmedEvent \<Rightarrow> ConfirmedEvent) \<Rightarrow>
    'v video_source frame_source \<Rightarrow> (onnx_detector \<Rightarrow> Frame \<Rightarrow> DetectionResult) \<Rightarrow>
    'v video_source video_producer \<Rightarrow> 'v video_source video_producer \<Rightarrow> bool"
  for open_video new_session scr frames evs opt ser moved next_frame detect where
  step_build: "vp_session s = None \<Longrightarrow> \<not> vp_done s \<Longrightarrow> \<not> vp_aborted s \<Longrightarrow>
    producer_step open_video new_session scr frames evs opt ser moved next_frame detect s
      (producer_build open_video new_session scr frames evs opt stop time_up s)"
| step_round: "vp_session s = Some sess \<Longrightarrow> next_seq (vp_agent s) + 1 \<noteq> 0 \<Longrightarrow>
    producer_step open_video new_session scr frames evs opt ser moved next_frame detect s (producer_round ser moved stop time_up now sess s)"
| step_frame: "vp_session s = Some (p, det) \<Longrightarrow> \<not> capture_done p \<Longrightarrow>
    producer_step open_video new_session scr frames evs opt ser moved next_frame detect s (s\<lparr>vp_session := Some (capture_iter next_frame p, det)\<rparr>)"
| step_detect: "vp_session s = Some (p, det) \<Longrightarrow> \<not> pipe_finished p \<Longrightarrow>
    producer_step open_video new_session scr frames evs opt ser moved next_frame detect s (s\<lparr>vp_session := Some (infer_iter (detect det) now p, det)\<rparr>)"
| step_ack: "u < next_seq (vp_agent s) \<Longrightarrow>
    producer_step open_video new_session scr frames evs opt ser moved next_frame detect s (s\<lparr>vp_agent := on_gateway_message (MAck u) (vp_agent s)\<rparr>)"
| step_config:
    "producer_step open_video new_session scr frames evs opt ser moved next_frame detect s (s\<lparr>vp_agent := on_gateway_message (MConfig cfg) (vp_agent s)\<rparr>)"

section \<open>Invariant\<close>

definition sessions :: "'s video_producer \<Rightarrow> ('s pipeline \<times> onnx_detector) list" where
  "sessions s = vp_past s @ (case vp_session s of None \<Rightarrow> [] | Some sess \<Rightarrow> [sess])"

text \<open>A committed event has the data of a positive frame that a session processed.\<close>

definition from_frame :: "(onnx_detector \<Rightarrow> Frame \<Rightarrow> DetectionResult) \<Rightarrow> 's pipeline \<times> onnx_detector \<Rightarrow> DetectionEvent \<Rightarrow> bool" where
  "from_frame detect sess d \<longleftrightarrow> (\<exists>f\<in>set (processed (fst sess)). positive (detect (snd sess) f) \<and>
     det_confidence d = confidence (detect (snd sess) f) \<and> det_capture_time_unix_ns d = capture_time_unix_ns f)"

text \<open>The outbox holds what was replayed and committed and not acknowledged, under consecutive numbers.\<close>

definition log_holds :: "(DetectionEvent \<Rightarrow> byte list) \<Rightarrow> wal_records \<Rightarrow> u64 \<Rightarrow> agent \<Rightarrow> DetectionEvent list \<Rightarrow> bool" where
  "log_holds ser rs n0 a ds \<longleftrightarrow> agent_inv a \<and> outbox a = unacked (fst (alog a)) (rs @ map (\<lambda>d. (seq d, ser d)) ds) \<and>
     map seq ds = map (\<lambda>i. n0 + word_of_nat i) [0..<length ds] \<and> next_seq a = n0 + word_of_nat (length ds)"

definition producer_inv :: "(onnx_detector \<Rightarrow> Frame \<Rightarrow> DetectionResult) \<Rightarrow> (DetectionEvent \<Rightarrow> byte list) \<Rightarrow> nat \<Rightarrow> wal_records \<Rightarrow> u64 \<Rightarrow>
    's video_producer \<Rightarrow> bool" where
  "producer_inv detect ser room rs n0 s \<longleftrightarrow> log_holds ser rs n0 (vp_agent s) (vp_committed s) \<and>
     (\<forall>d\<in>set (vp_committed s). \<exists>sess\<in>set (sessions s). from_frame detect sess d) \<and>
     (case vp_session s of None \<Rightarrow> True
      | Some (p, det) \<Rightarrow> (\<exists>k n. session_inv (detect det) k n room (vp_taken s) p) \<and>
          (\<exists>before ds. vp_committed s = before @ ds \<and> map det_capture_time_unix_ns ds = map ev_capture_time (vp_taken s)))"

definition numbered_event :: "int \<Rightarrow> u64 \<Rightarrow> ConfirmedEvent \<Rightarrow> DetectionEvent" where
  "numbered_event now n ev = (video_event now ev)\<lparr>seq := n\<rparr>"

lemma numbered_event_sel [simp]:
  "seq (numbered_event now n ev) = n" "det_confidence (numbered_event now n ev) = ev_confidence ev"
  "det_capture_time_unix_ns (numbered_event now n ev) = ev_capture_time ev"
  by (simp_all add: numbered_event_def video_event_def)

definition popped_events :: "ConfirmedEvent option \<Rightarrow> ConfirmedEvent list" where
  "popped_events r = (case r of None \<Rightarrow> [] | Some ev \<Rightarrow> [ev])"

lemma length_popped_events: "length (popped_events r) \<le> 1"
  by (simp add: popped_events_def split: option.split)

lemma video_round_effect:
  assumes "agent_inv a" "next_seq a + 1 \<noteq> 0" "video_round ser moved now p a = (changed, p', a')" "TryPop moved (out_events p) = (r, rb)"
  defines "ds \<equiv> map (numbered_event now (next_seq a)) (popped_events r)"
  shows "p' = p\<lparr>out_events := rb\<rparr>" "agent_inv a'" "fst (alog a') = fst (alog a)" "outbox a' = outbox a @ map (\<lambda>d. (seq d, ser d)) ds"
    "next_seq a' = next_seq a + word_of_nat (length ds)"
proof -
  let ?a = "a\<lparr>agent_queue_depth := SizeApprox (frame_ring p), agent_frames_dropped := frames_dropped p\<rparr>"
  have "agent_inv ?a = agent_inv a" by (simp add: agent_inv_def)
  then have a: "agent_inv ?a" "next_seq ?a + 1 \<noteq> 0" using assms(1,2) by simp_all
  have eq: "p' = p\<lparr>out_events := rb\<rparr>" "a' = apply_config_video (case r of None \<Rightarrow> ?a | Some ev \<Rightarrow> emit ser (video_event now ev) ?a)"
    using assms(3,4) by (simp_all add: video_round_def Let_def split: option.splits)
  show "p' = p\<lparr>out_events := rb\<rparr>" by (rule eq)
  show "agent_inv a'" "fst (alog a') = fst (alog a)" "outbox a' = outbox a @ map (\<lambda>d. (seq d, ser d)) ds"
    "next_seq a' = next_seq a + word_of_nat (length ds)"
    using emit_inv[OF a] emit_effect[OF a(1)] a(1)
    by (simp_all add: eq ds_def popped_events_def numbered_event_def video_event_def split: option.split)
qed

lemma sessions_from_frame:
  assumes "from_frame detect (p, det) d" "set (processed p) \<subseteq> set (processed p')"
  shows "from_frame detect (p', det) d"
  using assms by (auto simp: from_frame_def)

lemma sessions_Some: "vp_session s = Some sess \<Longrightarrow> sessions s = vp_past s @ [sess]"
  by (simp add: sessions_def)

lemma producer_round_eq:
  assumes "video_continues stop time_up p" "video_round ser moved now p (vp_agent s) = (changed, p', a)" "TryPop moved (out_events p) = (r, rb)"
  shows "producer_round ser moved stop time_up now (p, det) s =
    (let s1 = s\<lparr>vp_agent := a, vp_taken := vp_taken s @ popped_events r,
       vp_committed := vp_committed s @ map (numbered_event now (next_seq (vp_agent s))) (popped_events r)\<rparr>
     in if changed then s1\<lparr>vp_session := None, vp_past := vp_past s @ [(p', det)]\<rparr> else s1\<lparr>vp_session := Some (p', det)\<rparr>)"
  using assms by (simp add: producer_round_def popped_events_def numbered_event_def[abs_def] Let_def)

lemma log_holds_ack: "log_holds ser rs n0 a ds \<Longrightarrow> u < next_seq a \<Longrightarrow> log_holds ser rs n0 (on_ack u a) ds"
  using on_ack_inv[of a u] on_ack_effect[of a u] by (simp add: log_holds_def max.commute)

lemma log_holds_config [simp]: "log_holds ser rs n0 (on_config cfg a) ds = log_holds ser rs n0 a ds"
  by (simp add: log_holds_def)

lemma log_holds_round:
  assumes "log_holds ser rs n0 a ds" "next_seq a + 1 \<noteq> 0" "video_round ser moved now p a = (changed, p', a')" "TryPop moved (out_events p) = (r, rb)"
  shows "log_holds ser rs n0 a' (ds @ map (numbered_event now (next_seq a)) (popped_events r))"
proof -
  have i: "agent_inv a" using assms(1) by (simp add: log_holds_def)
  then have lt: "fst (alog a) < next_seq a" by (simp add: agent_inv_def)
  note e = video_round_effect[OF i assms(2-4)]
  show ?thesis
    using assms(1) e(2-5) lt by (cases r) (simp_all add: log_holds_def popped_events_def unacked_Cons algebra_simps)
qed

lemma popped_from_frame:
  assumes "session_inv (detect det) k n room taken p" "e \<in> set taken \<union> set (contents (out_events p))"
  shows "from_frame detect (p, det) (numbered_event now m e)"
proof -
  have "e \<in> set (offered p)" "events_backed (detect det) p" using assms by (auto simp: session_inv_def)
  then show ?thesis by (auto simp: events_backed_def event_of_def from_frame_def)
qed

lemma producer_inv_round:
  assumes "producer_inv detect ser room rs n0 s" "vp_session s = Some (p, det)" "next_seq (vp_agent s) + 1 \<noteq> 0" "video_continues stop time_up p"
  shows "producer_inv detect ser room rs n0 (producer_round ser moved stop time_up now (p, det) s)"
proof -
  obtain changed p' a' where vr: "video_round ser moved now p (vp_agent s) = (changed, p', a')" by (metis prod_cases3)
  obtain r rb where pop: "TryPop moved (out_events p) = (r, rb)" by fastforce
  let ?ds = "map (numbered_event now (next_seq (vp_agent s))) (popped_events r)"
  obtain k n before ds where lg: "log_holds ser rs n0 (vp_agent s) (vp_committed s)"
    and fr: "\<forall>d\<in>set (vp_committed s). \<exists>sess\<in>set (vp_past s @ [(p, det)]). from_frame detect sess d"
    and si: "session_inv (detect det) k n room (vp_taken s) p"
    and cm: "vp_committed s = before @ ds" "map det_capture_time_unix_ns ds = map ev_capture_time (vp_taken s)"
    using assms(1,2) by (auto simp: producer_inv_def sessions_Some)
  have ai: "agent_inv (vp_agent s)" using lg by (simp add: log_holds_def)
  have p': "p' = p\<lparr>out_events := rb\<rparr>" by (rule video_round_effect(1)[OF ai assms(3) vr pop])
  have lg': "log_holds ser rs n0 a' (vp_committed s @ ?ds)" by (rule log_holds_round[OF lg assms(3) vr pop])
  have si': "session_inv (detect det) k n room (vp_taken s @ popped_events r) p'"
    using session_pop[OF si pop] by (simp add: p' popped_events_def)
  have "from_frame detect (p', det) d" if "d \<in> set ?ds" for d
    using that popped_from_frame[where detect = detect and det = det, OF si'] by auto
  moreover have "from_frame detect (p, det) d \<Longrightarrow> from_frame detect (p', det) d" for d by (simp add: p' from_frame_def)
  ultimately have fr': "\<forall>d\<in>set (vp_committed s @ ?ds). \<exists>sess\<in>set (vp_past s @ [(p', det)]). from_frame detect sess d"
    using fr by fastforce
  have cm': "\<exists>b d. vp_committed s @ ?ds = b @ d \<and> map det_capture_time_unix_ns d = map ev_capture_time (vp_taken s @ popped_events r)"
    by (rule exI[of _ before], rule exI[of _ "ds @ ?ds"]) (simp add: cm)
  show ?thesis
    unfolding producer_round_eq[OF assms(4) vr pop] Let_def
    using lg' fr' si' cm' by (cases changed) (auto simp: producer_inv_def sessions_def)
qed

lemma producer_inv_agent:
  "producer_inv detect ser room rs n0 s \<Longrightarrow> log_holds ser rs n0 a (vp_committed s) \<Longrightarrow> producer_inv detect ser room rs n0 (s\<lparr>vp_agent := a\<rparr>)"
  by (cases "vp_session s") (simp_all add: producer_inv_def sessions_def split: prod.splits)

lemma producer_step_inv:
  assumes "producer_step open_video new_session scr frames evs opt ser moved next_frame detect s s'"
    and "producer_inv detect ser (length evs - 1) rs n0 s" "cap_ok (length frames)" "cap_ok (length evs)"
  shows "producer_inv detect ser (length evs - 1) rs n0 s'"
  using assms(1,2)
proof cases
  case (step_build stop time_up)
  have "\<exists>k n. session_inv (detect det) k n (length evs - 1) [] p"
    if "make_pipeline open_video new_session scr frames (new_ring evs) (agent_pipeline_config opt (vp_agent s)) = Some (p, det)" for p det
    using session_start[OF that assms(3,4)] by blast
  then show ?thesis
    using step_build assms(2) by (auto simp: producer_build_def producer_inv_def sessions_def split: option.split)
next
  case (step_round sess stop time_up now)
  obtain p det where sess: "sess = (p, det)" by (cases sess)
  show ?thesis
  proof (cases "video_continues stop time_up p")
    case True
    then show ?thesis using producer_inv_round[OF assms(2)] step_round sess by simp
  next
    case False
    then show ?thesis using step_round assms(2) by (simp add: sess producer_round_def producer_inv_def sessions_def)
  qed
next
  case (step_frame p det)
  then have "from_frame detect (p, det) d \<Longrightarrow> from_frame detect (capture_iter next_frame p, det) d" for d
    using capture_iter_keeps[of next_frame p] by (simp add: from_frame_def)
  then show ?thesis using step_frame assms(2) by (fastforce simp: producer_inv_def sessions_def intro: session_capture)
next
  case (step_detect p det now)
  have "from_frame detect (p, det) d \<Longrightarrow> from_frame detect (infer_iter (detect det) now p, det) d" for d
    by (rule sessions_from_frame[OF _ infer_iter_keeps(2)])
  then show ?thesis using step_detect assms(2) by (fastforce simp: producer_inv_def sessions_def intro: session_infer)
next
  case (step_ack u)
  have "log_holds ser rs n0 (vp_agent s) (vp_committed s)" using assms(2) by (simp add: producer_inv_def)
  then show ?thesis using producer_inv_agent[OF assms(2) log_holds_ack] step_ack by simp
next
  case (step_config cfg)
  have "log_holds ser rs n0 (vp_agent s) (vp_committed s)" using assms(2) by (simp add: producer_inv_def)
  then show ?thesis using producer_inv_agent[OF assms(2), of "on_config cfg (vp_agent s)"] step_config by simp
qed

lemma producer_start_inv:
  assumes "map fst rs = seq_range c n" "c < n"
  shows "producer_inv detect ser room rs n (producer_start (agent_start opt (c, rs)))"
proof -
  have "\<forall>it\<in>set rs. c < fst it" using assms(1) set_seq_range[of c n] by (metis (mono_tags, lifting) image_eqI list.set_map mem_Collect_eq)
  then have "unacked c rs = rs" by (simp add: unacked_fst)
  then show ?thesis
    using agent_start_inv[OF assms] agent_start_replays[OF assms] by (simp add: producer_inv_def log_holds_def producer_start_def sessions_def)
qed

text \<open>A pushed configuration with K above N takes the process down when the pipeline is rebuilt with it.\<close>

lemma bad_config_aborts:
  assumes "current_confirm_n (vp_agent s) < current_confirm_k (vp_agent s)"
  shows "vp_aborted (producer_build open_video new_session scr frames evs opt False False s)"
proof -
  have "KOfNConfirmer (current_confirm_k (vp_agent s)) (current_confirm_n (vp_agent s)) = None"
    using assms by (auto simp: KOfNConfirmer_def)
  then have "make_pipeline open_video new_session scr frames (new_ring evs) (agent_pipeline_config opt (vp_agent s)) = None"
    by (simp add: make_pipeline_def agent_pipeline_config_def split: option.split outcome.split prod.split)
  then show ?thesis by (simp add: producer_build_def)
qed

section \<open>Property\<close>

text \<open>
  C12: from the camera to the log.  However the producer, the threads of its pipelines and the reader interleave,
  and however often a configuration rebuilds the pipeline: the log and the outbox hold what was replayed and
  committed and not acknowledged; every committed event reports a frame that a pipeline processed, which its
  detector found positive with exactly that confidence; and when a session has ended by itself and its events
  fit the ring, the last events committed are those of all its confirmed episodes, in order.
\<close>

theorem camera_to_log:
  assumes "(producer_step open_video new_session scr frames evs opt ser moved next_frame detect)\<^sup>*\<^sup>* (producer_start (agent_start opt (c, rs))) s"
    and "map fst rs = seq_range c n" "c < n" "cap_ok (length frames)" "cap_ok (length evs)"
  shows "outbox (vp_agent s) = unacked (fst (alog (vp_agent s))) (rs @ map (\<lambda>d. (seq d, ser d)) (vp_committed s)) \<and>
    snd (alog (vp_agent s)) = outbox (vp_agent s) \<and> (\<forall>d\<in>set (vp_committed s). \<exists>sess\<in>set (sessions s). from_frame detect sess d) \<and>
    (\<forall>p det. vp_session s = Some (p, det) \<and> \<not> video_continues False False p \<and> length (offered p) < length evs \<longrightarrow>
      (\<exists>before ds. vp_committed s = before @ ds \<and> map det_capture_time_unix_ns ds = map ev_capture_time (offered p) \<and>
        processed p = captured p))"
proof -
  have "producer_inv detect ser (length evs - 1) rs n s"
    using assms(1) by (induction rule: rtranclp_induct) (rule producer_start_inv[OF assms(2,3)], rule producer_step_inv[OF _ _ assms(4,5)])
  then have i: "log_holds ser rs n (vp_agent s) (vp_committed s)" "\<forall>d\<in>set (vp_committed s). \<exists>sess\<in>set (sessions s). from_frame detect sess d"
    and cur: "case vp_session s of None \<Rightarrow> True
      | Some (p, det) \<Rightarrow> (\<exists>k m. session_inv (detect det) k m (length evs - 1) (vp_taken s) p) \<and>
          (\<exists>before ds. vp_committed s = before @ ds \<and> map det_capture_time_unix_ns ds = map ev_capture_time (vp_taken s))"
    unfolding producer_inv_def by blast+
  have "\<exists>before ds. vp_committed s = before @ ds \<and> map det_capture_time_unix_ns ds = map ev_capture_time (offered p) \<and> processed p = captured p"
    if "vp_session s = Some (p, det) \<and> \<not> video_continues False False p \<and> length (offered p) < length evs" for p det
  proof -
    have ss: "vp_session s = Some (p, det)" using that by blast
    obtain k m before ds where si: "session_inv (detect det) k m (length evs - 1) (vp_taken s) p"
      and cm: "vp_committed s = before @ ds" "map det_capture_time_unix_ns ds = map ev_capture_time (vp_taken s)"
      using cur unfolding ss option.case prod.case by blast
    have "pipe_finished p" "\<not> 0 < SizeApprox (out_events p)" using that by (auto simp: video_continues_def)
    note over = session_over[OF si this]
    have "length (offered p) < length evs" using that by blast
    then have "vp_taken s = offered p" by (intro over(3)) linarith
    then show ?thesis using cm over(1) by auto
  qed
  then show ?thesis using i by (auto simp: log_holds_def agent_inv_def)
qed

text \<open>A run on the clip of two frames: its one episode is committed under number 1, and the session has ended.\<close>

definition clip_agent_options :: Options where
  "clip_agent_options = (default_options ''m'')\<lparr>opt_video := ''v'', opt_k := 1, opt_n := 1\<rparr>"

definition clip_session :: "unit video_source pipeline \<times> onnx_detector" where
  "clip_session = (clip_start\<lparr>realtime := True\<rparr>, \<lparr>config = detector_config (agent_pipeline_config clip_agent_options (agent_start clip_agent_options (0, []))), cells = grid 416\<rparr>)"

abbreviation clip_producer_step :: "unit video_source video_producer \<Rightarrow> unit video_source video_producer \<Rightarrow> bool" where
  "clip_producer_step \<equiv> producer_step (\<lambda>_. Some ()) (\<lambda>_ _. Some (1, 1, [1, 3, 416, 416])) (clip_frame 9) (replicate 4 (clip_frame 9)) clip_events
     clip_agent_options (\<lambda>_. []) id clip_next (\<lambda>_. clip_detect)"

definition with_pipe :: "('s pipeline \<Rightarrow> 's pipeline) \<Rightarrow> 's video_producer \<Rightarrow> 's video_producer" where
  "with_pipe f s = s\<lparr>vp_session := map_option (\<lambda>(p, det). (f p, det)) (vp_session s)\<rparr>"

definition clip_built :: "unit video_source video_producer" where
  "clip_built = (producer_start (agent_start clip_agent_options (0, [])))\<lparr>vp_session := Some clip_session\<rparr>"

lemma clip_build:
  "producer_build (\<lambda>_. Some ()) (\<lambda>_ _. Some (1, 1, [1, 3, 416, 416])) (clip_frame 9) (replicate 4 (clip_frame 9)) clip_events
     clip_agent_options False False (producer_start (agent_start clip_agent_options (0, []))) = clip_built"
  by (simp add: producer_build_def producer_start_def make_pipeline_def VideoFileFrameSource_def OnnxCpuDetector_def KOfNConfirmer_def
      agent_pipeline_config_def clip_agent_options_def default_options_def agent_start_def default_pipeline_config_def detector_config_def
      clip_built_def clip_session_def clip_start_def demo_confirmer_def EdgePipeline_def)

text \<open>The steps on a session whose detector is not looked at.\<close>

lemma clip_producer_steps:
  "vp_session s = Some (p, det) \<Longrightarrow> \<not> capture_done p \<Longrightarrow> clip_producer_step s (with_pipe (capture_iter clip_next) s)"
  "vp_session s = Some (p, det) \<Longrightarrow> \<not> pipe_finished p \<Longrightarrow> clip_producer_step s (with_pipe (infer_iter clip_detect 5) s)"
  using step_frame[of s p det] step_detect[of s p det] by (simp_all add: with_pipe_def)

definition clip_ran :: "unit video_source pipeline" where
  "clip_ran = infer_iter clip_detect 5 (infer_iter clip_detect 5 (infer_iter clip_detect 5
     (capture_iter clip_next (capture_iter clip_next (capture_iter clip_next (clip_start\<lparr>realtime := True\<rparr>))))))"

lemma clip_ran_facts: "pipe_finished clip_ran" "fst (TryPop id (out_events clip_ran)) \<noteq> None"
  "\<not> video_continues False False (clip_ran\<lparr>out_events := snd (TryPop id (out_events clip_ran))\<rparr>)" "length (offered clip_ran) = 1"
  "video_continues False False clip_ran"
  by code_simp+

definition clip_committed :: "unit video_source video_producer" where
  "clip_committed = producer_round (\<lambda>_. []) id False False 7 (clip_ran, snd clip_session) (clip_built\<lparr>vp_session := Some (clip_ran, snd clip_session)\<rparr>)"

lemma clip_committed_eq:
  obtains ev rb where "TryPop id (out_events clip_ran) = (Some ev, rb)"
    "vp_session clip_committed = Some (clip_ran\<lparr>out_events := rb\<rparr>, snd clip_session)"
    "vp_committed clip_committed = [numbered_event 7 1 ev]"
proof -
  obtain ev rb where pop: "TryPop id (out_events clip_ran) = (Some ev, rb)" using clip_ran_facts(2) by (cases "TryPop id (out_events clip_ran)") auto
  have a: "pending_config_set (agent_start clip_agent_options (0, [])) = False" "next_seq (agent_start clip_agent_options (0, [])) = 1"
    by (simp_all add: agent_start_def)
  show ?thesis
    by (rule that[OF pop]) (simp_all add: clip_committed_def producer_round_def clip_ran_facts(5) video_round_def pop Let_def emit_def clip_built_def
      producer_start_def a numbered_event_def)
qed

lemma clip_committed_reach: "clip_producer_step\<^sup>*\<^sup>* (producer_start (agent_start clip_agent_options (0, []))) clip_committed"
proof -
  let ?start = "clip_start\<lparr>realtime := True\<rparr>"
  let ?at = "\<lambda>p. clip_built\<lparr>vp_session := Some (p, snd clip_session)\<rparr>"
  have cap: "clip_producer_step\<^sup>*\<^sup>* x (?at (capture_iter clip_next p))" if "clip_producer_step\<^sup>*\<^sup>* x (?at p)" "\<not> capture_done p" for x p
    by (rule rtranclp.rtrancl_into_rtrancl[OF that(1)]) (use clip_producer_steps(1)[of "?at p" p "snd clip_session"] that(2) in \<open>simp add: with_pipe_def\<close>)
  have inf: "clip_producer_step\<^sup>*\<^sup>* x (?at (infer_iter clip_detect 5 p))" if "clip_producer_step\<^sup>*\<^sup>* x (?at p)" "\<not> pipe_finished p" for x p
    by (rule rtranclp.rtrancl_into_rtrancl[OF that(1)]) (use clip_producer_steps(2)[of "?at p" p "snd clip_session"] that(2) in \<open>simp add: with_pipe_def\<close>)
  have "clip_producer_step (producer_start (agent_start clip_agent_options (0, []))) (?at ?start)"
    using step_build[of "producer_start (agent_start clip_agent_options (0, []))"] clip_build
    by (metis (no_types, lifting) clip_built_def clip_session_def producer_start_def snd_conv video_producer.select_convs(2-4) video_producer.update_convs(2) video_producer.surjective)
  moreover have "clip_producer_step\<^sup>*\<^sup>* (?at ?start) (?at clip_ran)"
    unfolding clip_ran_def by (intro inf cap rtranclp.rtrancl_refl; code_simp)
  moreover have "next_seq (vp_agent (?at clip_ran)) + 1 \<noteq> 0" by (simp add: clip_built_def producer_start_def agent_start_def)
  then have "clip_producer_step (?at clip_ran) clip_committed" unfolding clip_committed_def by (intro step_round) simp_all
  ultimately show ?thesis by (meson converse_rtranclp_into_rtranclp rtranclp.rtrancl_into_rtrancl)
qed

theorem camera_to_log_witness:
  "\<exists>p det before ds. vp_session clip_committed = Some (p, det) \<and> vp_committed clip_committed = before @ ds \<and> length ds = 1 \<and>
     map det_capture_time_unix_ns ds = map ev_capture_time (offered p) \<and> processed p = captured p"
proof -
  obtain ev rb where c: "TryPop id (out_events clip_ran) = (Some ev, rb)" "vp_session clip_committed = Some (clip_ran\<lparr>out_events := rb\<rparr>, snd clip_session)"
    by (rule clip_committed_eq)
  let ?p = "clip_ran\<lparr>out_events := rb\<rparr>"
  have e: "\<not> video_continues False False ?p" "length (offered ?p) = 1" "length (offered ?p) < length clip_events"
    using clip_ran_facts(3,4) c(1) by (simp_all add: clip_events_def)
  have "map fst [] = seq_range 0 1" "(0 :: u64) < 1" by (simp_all add: seq_range_def)
  note w = camera_to_log[OF clip_committed_reach this clip_facts(1,2)]
  obtain before ds where "vp_committed clip_committed = before @ ds" "map det_capture_time_unix_ns ds = map ev_capture_time (offered ?p)" "processed ?p = captured ?p"
    using w c(2) e(1,3) by blast
  moreover from this(2) have "length ds = 1" using e(2) by (metis length_map)
  ultimately show ?thesis using c(2) by blast
qed

end
