(* ===== verification/Bench.thy ===== *)
theory Bench
  imports Tools Onnx EdgePipeline
begin

text \<open>
  The benchmarks: producer and consumer on the ring buffer (bench/ring_buffer_bench.cc), inference on one
  image (tools/infer_bench.cc), and the class names it prints (coco_classes.h).
\<close>

section \<open>Class names\<close>

definition kCocoClasses :: "string list" where
  "kCocoClasses =
    [''person'', ''bicycle'', ''car'', ''motorcycle'', ''airplane'', ''bus'',
     ''train'', ''truck'', ''boat'', ''traffic light'', ''fire hydrant'', ''stop sign'',
     ''parking meter'', ''bench'', ''bird'', ''cat'', ''dog'', ''horse'',
     ''sheep'', ''cow'', ''elephant'', ''bear'', ''zebra'', ''giraffe'',
     ''backpack'', ''umbrella'', ''handbag'', ''tie'', ''suitcase'', ''frisbee'',
     ''skis'', ''snowboard'', ''sports ball'', ''kite'', ''baseball bat'', ''baseball glove'',
     ''skateboard'', ''surfboard'', ''tennis racket'', ''bottle'', ''wine glass'', ''cup'',
     ''fork'', ''knife'', ''spoon'', ''bowl'', ''banana'', ''apple'',
     ''sandwich'', ''orange'', ''broccoli'', ''carrot'', ''hot dog'', ''pizza'',
     ''donut'', ''cake'', ''chair'', ''couch'', ''potted plant'', ''bed'',
     ''dining table'', ''toilet'', ''tv'', ''laptop'', ''mouse'', ''remote'',
     ''keyboard'', ''cell phone'', ''microwave'', ''oven'', ''toaster'', ''sink'',
     ''refrigerator'', ''book'', ''clock'', ''vase'', ''scissors'', ''teddy bear'',
     ''hair drier'', ''toothbrush'']"

definition CocoClassName :: "int \<Rightarrow> string" where
  "CocoClassName i = (if 0 \<le> i \<and> i < int (length kCocoClasses) then kCocoClasses ! nat i else ''unknown'')"

text \<open>The named indices of the header; the names are distinct, and none of them is the label the agent sends.\<close>

lemma coco_names:
  "CocoClassName 0 = ''person'' \<and> CocoClassName 1 = ''bicycle'' \<and> CocoClassName 2 = ''car'' \<and> CocoClassName 7 = ''truck'' \<and>
   CocoClassName 16 = ''dog'' \<and> length kCocoClasses = 80 \<and> CocoClassName (- 1) = ''unknown'' \<and> CocoClassName 80 = ''unknown''"
  by code_simp

lemma coco_distinct: "distinct kCocoClasses" "''smoke'' \<notin> set kCocoClasses"
  by code_simp+

section \<open>The ring buffer benchmark\<close>

record bench_event =
  be_seq :: u64
  be_enqueue_ns :: int

definition kCapacity :: nat where "kCapacity = 4096"

lemma kCapacity_ok: "cap_ok kCapacity"
  unfolding cap_ok_def kCapacity_def by (rule exI[of _ 12]) simp

record bench_options =
  bo_duration_s :: fp
  bo_consumer_delay_us :: int

definition bench_flags :: "(string \<times> (string \<Rightarrow> bench_options \<Rightarrow> bench_options)) list" where
  "bench_flags =
    [(''--duration-s='', \<lambda>v r. r\<lparr>bo_duration_s := atof v\<rparr>),
     (''--consumer-delay-us='', \<lambda>v r. r\<lparr>bo_consumer_delay_us := atoi v\<rparr>)]"

fun bench_args :: "string list \<Rightarrow> bench_options \<Rightarrow> bench_options option" where
  "bench_args [] r = Some r"
| "bench_args (a # as) r = (case apply_flag bench_flags a r of Some r' \<Rightarrow> bench_args as r' | None \<Rightarrow> None)"

text \<open>\<open>None\<close> is the exit with code 2.\<close>

definition bench_ParseArgs :: "string list \<Rightarrow> bench_options option" where
  "bench_ParseArgs args = bench_args args \<lparr>bo_duration_s = Fin 5, bo_consumer_delay_us = 0\<rparr>"

definition PercentileUs :: "int list \<Rightarrow> fp \<Rightarrow> fp option" where
  "PercentileUs sorted_ns p =
     (if sorted_ns = [] then Some (Fin 0)
      else case to_size (fp_mul binary64 p (fp_of_int binary64 (int (length sorted_ns)))) of
          None \<Rightarrow> None
        | Some i \<Rightarrow> Some (fp_div binary64 (fp_of_int binary64 (sorted_ns ! min (length sorted_ns - 1) i)) (Fin 1000)))"

text \<open>
  The threads: the producer is at its loop condition or about to push, the consumer at its loop condition, about
  to pop, or past a pop that found nothing.  The list of taken events is for the proof.
\<close>

datatype producer_at = PLoop | PPush | PLeft
datatype consumer_at = CLoop | CPop | CEmpty | CLeft

record bench_state =
  bs_ring :: "bench_event ring"
  bs_stop :: bool
  bs_pushed :: u64
  bs_dropped :: u64
  bs_popped :: u64
  bs_latencies :: "int list"
  bs_producer :: producer_at
  bs_consumer :: consumer_at
  bs_attempts :: nat
  bs_accepted :: nat
  bs_taken :: "bench_event list"

definition bench_start :: "bench_event list \<Rightarrow> bench_state" where
  "bench_start init = \<lparr>bs_ring = new_ring init, bs_stop = False, bs_pushed = 0, bs_dropped = 0, bs_popped = 0, bs_latencies = [],
     bs_producer = PLoop, bs_consumer = CLoop, bs_attempts = 0, bs_accepted = 0, bs_taken = []\<rparr>"

definition producer_check :: "bench_state \<Rightarrow> bench_state" where
  "producer_check s = s\<lparr>bs_producer := if bs_stop s then PLeft else PPush\<rparr>"

definition producer_push :: "int \<Rightarrow> bench_state \<Rightarrow> bench_state" where
  "producer_push now s =
     (case TryPush \<lparr>be_seq = bs_pushed s, be_enqueue_ns = now\<rparr> (bs_ring s) of
        (True, rb) \<Rightarrow> s\<lparr>bs_ring := rb, bs_pushed := bs_pushed s + 1, bs_producer := PLoop, bs_attempts := bs_attempts s + 1, bs_accepted := bs_accepted s + 1\<rparr>
      | (False, rb) \<Rightarrow> s\<lparr>bs_ring := rb, bs_dropped := bs_dropped s + 1, bs_producer := PLoop, bs_attempts := bs_attempts s + 1\<rparr>)"

definition consumer_check :: "bench_state \<Rightarrow> bench_state" where
  "consumer_check s = s\<lparr>bs_consumer := if \<not> bs_stop s \<or> SizeApprox (bs_ring s) > 0 then CPop else CLeft\<rparr>"

definition consumer_pop :: "int \<Rightarrow> bench_state \<Rightarrow> bench_state" where
  "consumer_pop now s =
     (case TryPop id (bs_ring s) of
        (Some e, rb) \<Rightarrow> s\<lparr>bs_ring := rb, bs_latencies := bs_latencies s @ [now - be_enqueue_ns e], bs_popped := bs_popped s + 1,
           bs_consumer := CLoop, bs_taken := bs_taken s @ [e]\<rparr>
      | (None, rb) \<Rightarrow> s\<lparr>bs_ring := rb, bs_consumer := CEmpty\<rparr>)"

definition consumer_empty :: "bench_state \<Rightarrow> bench_state" where
  "consumer_empty s = s\<lparr>bs_consumer := if bs_stop s then CLeft else CLoop\<rparr>"

inductive bench_reach :: "bench_event list \<Rightarrow> bench_state \<Rightarrow> bool" for init where
  bench_init: "bench_reach init (bench_start init)"
| bench_producer_check: "bench_reach init s \<Longrightarrow> bs_producer s = PLoop \<Longrightarrow> bench_reach init (producer_check s)"
| bench_producer_push: "bench_reach init s \<Longrightarrow> bs_producer s = PPush \<Longrightarrow> bench_reach init (producer_push now s)"
| bench_consumer_check: "bench_reach init s \<Longrightarrow> bs_consumer s = CLoop \<Longrightarrow> bench_reach init (consumer_check s)"
| bench_consumer_pop: "bench_reach init s \<Longrightarrow> bs_consumer s = CPop \<Longrightarrow> bench_reach init (consumer_pop now s)"
| bench_consumer_empty: "bench_reach init s \<Longrightarrow> bs_consumer s = CEmpty \<Longrightarrow> bench_reach init (consumer_empty s)"
| bench_stop: "bench_reach init s \<Longrightarrow> bench_reach init (s\<lparr>bs_stop := True\<rparr>)"

definition bench_inv :: "nat \<Rightarrow> bench_state \<Rightarrow> bool" where
  "bench_inv room s \<longleftrightarrow> ring_inv (bs_ring s) \<and> capacity (bs_ring s) = room \<and>
     map be_seq (bs_taken s @ contents (bs_ring s)) = map word_of_nat [0..<bs_accepted s] \<and>
     bs_pushed s = word_of_nat (bs_accepted s) \<and> bs_dropped s = word_of_nat (bs_attempts s - bs_accepted s) \<and> bs_accepted s \<le> bs_attempts s \<and>
     bs_popped s = word_of_nat (length (bs_taken s)) \<and> length (bs_latencies s) = length (bs_taken s)"

lemma bench_inv_phase [simp]:
  "bench_inv room (s\<lparr>bs_producer := x\<rparr>) = bench_inv room s" "bench_inv room (s\<lparr>bs_consumer := y\<rparr>) = bench_inv room s"
  "bench_inv room (s\<lparr>bs_stop := b\<rparr>) = bench_inv room s"
  by (simp_all add: bench_inv_def)

lemma bench_inv_push:
  assumes "bench_inv room s" shows "bench_inv room (producer_push now s)"
proof -
  let ?e = "\<lparr>be_seq = bs_pushed s, be_enqueue_ns = now\<rparr>"
  obtain b rb where push: "TryPush ?e (bs_ring s) = (b, rb)" by fastforce
  have r: "ring_inv (bs_ring s)" using assms by (simp add: bench_inv_def)
  have "producer_push now s = (if b
      then s\<lparr>bs_ring := rb, bs_pushed := bs_pushed s + 1, bs_producer := PLoop, bs_attempts := bs_attempts s + 1, bs_accepted := bs_accepted s + 1\<rparr>
      else s\<lparr>bs_ring := rb, bs_dropped := bs_dropped s + 1, bs_producer := PLoop, bs_attempts := bs_attempts s + 1\<rparr>)"
    by (simp add: producer_push_def push)
  then show ?thesis
    using assms spsc.push_law[OF r push] by (cases b) (auto simp: bench_inv_def Suc_diff_le)
qed

lemma bench_inv_pop:
  assumes "bench_inv room s" shows "bench_inv room (consumer_pop now s)"
proof -
  obtain r rb where pop: "TryPop id (bs_ring s) = (r, rb)" by fastforce
  have i: "ring_inv (bs_ring s)" using assms by (simp add: bench_inv_def)
  show ?thesis
    using assms spsc.pop_law[OF i pop] by (auto simp: bench_inv_def consumer_pop_def pop split: list.splits option.splits)
qed

text \<open>
  The numbers the benchmark prints: the events popped are the first ones pushed, in order, with a latency each,
  and the pushed and dropped ones are all attempts; what was pushed and not popped is in the ring.
\<close>

lemma bench_accounts:
  assumes "cap_ok (length init)" "bench_reach init s"
  shows "bench_inv (length init - 1) s"
  using assms(2)
proof induction
  case bench_init
  then show ?case using new_ring_inv[OF assms(1)] by (simp add: bench_inv_def bench_start_def capacity_def Capacity_def new_ring_def)
qed (simp_all add: producer_check_def consumer_check_def consumer_empty_def bench_inv_push bench_inv_pop)

lemma bench_leftover:
  assumes "cap_ok (length init)" "bench_reach init s"
  shows "bs_accepted s = length (bs_taken s) + length (contents (bs_ring s)) \<and> length (contents (bs_ring s)) < length init"
proof -
  have "bench_inv (length init - 1) s" by (rule bench_accounts[OF assms])
  then have i: "ring_inv (bs_ring s)" "capacity (bs_ring s) = length init - 1"
    "length (map be_seq (bs_taken s @ contents (bs_ring s))) = length (map word_of_nat [0..<bs_accepted s] :: u64 list)"
    unfolding bench_inv_def by simp_all
  then show ?thesis using spsc.bound_law[OF i(1)] cap_okD(1)[OF assms(1)] by simp
qed

text \<open>
  The break of the consumer is taken after a pop that found nothing and a later load of the flag.  Events pushed
  in between stay in the ring, although the comment there says that nothing is left to drain.
\<close>

lemma bench_leaves_events:
  "\<exists>s. bench_reach (replicate 4 \<lparr>be_seq = 0, be_enqueue_ns = 0\<rparr>) s \<and> bs_producer s = PLeft \<and> bs_consumer s = CLeft \<and>
     length (contents (bs_ring s)) = 2 \<and> bs_popped s = 0"
proof -
  let ?r = "bench_reach (replicate 4 \<lparr>be_seq = 0, be_enqueue_ns = 0\<rparr>)"
  let ?s0 = "bench_start (replicate 4 \<lparr>be_seq = 0, be_enqueue_ns = 0\<rparr>)"
  let ?s1 = "consumer_pop 0 (consumer_check ?s0)"
  let ?s2 = "producer_push 1 (producer_check ?s1)"
  let ?s3 = "(producer_push 2 (producer_check ?s2))\<lparr>bs_stop := True\<rparr>"
  let ?s4 = "producer_check (consumer_empty ?s3)"
  have "?r ?s4"
    by (intro bench_producer_check bench_producer_push bench_consumer_check bench_consumer_pop bench_consumer_empty bench_stop bench_init; code_simp)
  moreover have "bs_producer ?s4 = PLeft \<and> bs_consumer ?s4 = CLeft \<and> length (contents (bs_ring ?s4)) = 2 \<and> bs_popped ?s4 = 0" by code_simp
  ultimately show ?thesis by blast
qed

section \<open>The inference benchmark\<close>

record infer_options =
  io_model :: string
  io_image :: string
  io_threads :: int
  io_iterations :: int
  io_warmup :: int

definition infer_flags :: "(string \<times> (string \<Rightarrow> infer_options \<Rightarrow> infer_options)) list" where
  "infer_flags =
    [(''--model='', \<lambda>v r. r\<lparr>io_model := v\<rparr>),
     (''--image='', \<lambda>v r. r\<lparr>io_image := v\<rparr>),
     (''--threads='', \<lambda>v r. r\<lparr>io_threads := atoi v\<rparr>),
     (''--iterations='', \<lambda>v r. r\<lparr>io_iterations := atoi v\<rparr>),
     (''--warmup='', \<lambda>v r. r\<lparr>io_warmup := atoi v\<rparr>)]"

fun infer_args :: "string list \<Rightarrow> infer_options \<Rightarrow> infer_options option" where
  "infer_args [] r = Some r"
| "infer_args (a # as) r = (case apply_flag infer_flags a r of Some r' \<Rightarrow> infer_args as r' | None \<Rightarrow> None)"

definition default_infer_options :: "string \<Rightarrow> string \<Rightarrow> infer_options" where
  "default_infer_options model img = \<lparr>io_model = model, io_image = img, io_threads = 1, io_iterations = 200, io_warmup = 10\<rparr>"

text \<open>
  A loop that runs the detector, with the number of detections of every run.
\<close>

fun detect_runs :: "nat \<Rightarrow> Detection list outcome \<Rightarrow> nat list outcome" where
  "detect_runs 0 r = Value []"
| "detect_runs (Suc n) r = and_then r (\<lambda>ds. and_then (detect_runs n r) (\<lambda>cs. Value (length ds # cs)))"

text \<open>Reserving the room for the samples throws for a negative number, which becomes a huge one.\<close>

record infer_report =
  ir_code :: int
  ir_runs :: nat
  ir_last_count :: nat
  ir_names :: "string list"

definition infer_exit :: "int \<Rightarrow> infer_report" where
  "infer_exit c = \<lparr>ir_code = c, ir_runs = 0, ir_last_count = 0, ir_names = []\<rparr>"

definition infer_bench :: "(string \<Rightarrow> (byte list \<times> u64 \<times> u32 \<times> u32) option) \<Rightarrow> (string \<Rightarrow> int \<Rightarrow> (nat \<times> nat \<times> int list) option) \<Rightarrow>
    (onnx_detector \<Rightarrow> Frame \<Rightarrow> Detection list outcome) \<Rightarrow> Frame \<Rightarrow> string \<Rightarrow> string \<Rightarrow> string list \<Rightarrow> infer_report outcome" where
  "infer_bench imread new_session detect_all frame model img args =
     (case infer_args args (default_infer_options model img) of
        None \<Rightarrow> Value (infer_exit 2)
      | Some opt \<Rightarrow>
          (case imread (io_image opt) of
             None \<Rightarrow> Value (infer_exit 1)
           | Some (bytes, len, img_cols, img_rows) \<Rightarrow>
               (case CopyFrom bytes len img_cols img_rows 0 0 kBgr24 frame of
                  None \<Rightarrow> UB
                | Some (False, _) \<Rightarrow> Value (infer_exit 1)
                | Some (True, f) \<Rightarrow>
                    (case new_session (io_model opt) (io_threads opt) of
                       None \<Rightarrow> Throws
                     | Some (inputs, outputs, in_shape) \<Rightarrow>
                         and_then (OnnxCpuDetector inputs outputs in_shape
                           \<lparr>input_size = 416, score_threshold = f32 (3/10), nms_iou_threshold = f32 (45/100), target_class_ids = []\<rparr>) (\<lambda>det.
                         and_then (detect_runs (nat (io_warmup opt)) (detect_all det f)) (\<lambda>_.
                         if io_iterations opt < 0 then Throws
                         else and_then (detect_runs (nat (io_iterations opt)) (detect_all det f)) (\<lambda>counts.
                         and_then (detect_all det f) (\<lambda>ds.
                           Value \<lparr>ir_code = 0, ir_runs = length counts, ir_last_count = (if counts = [] then 0 else last counts),
                             ir_names = map (\<lambda>d. CocoClassName (class_id d)) ds\<rparr>))))))))"

lemma and_then_Value: "and_then r g = Value x \<longleftrightarrow> (\<exists>y. r = Value y \<and> g y = Value x)"
  by (cases r) auto

lemma detect_runs_Value: "detect_runs n r = Value cs \<Longrightarrow> length cs = n \<and> (\<forall>c\<in>set cs. \<exists>ds. r = Value ds \<and> c = length ds)"
proof (induction n arbitrary: cs)
  case (Suc n)
  then show ?case by (cases r; cases "detect_runs n r") auto
qed simp

text \<open>A run that reports has timed the number of iterations asked for, and counts the detections it lists.\<close>

lemma infer_bench_reports:
  assumes "infer_bench imread new_session detect_all frame model img args = Value rep" "ir_code rep = 0"
    and "infer_args args (default_infer_options model img) = Some opt" "0 < io_iterations opt"
  shows "ir_runs rep = nat (io_iterations opt) \<and> ir_last_count rep = length (ir_names rep)"
proof -
  have code: "ir_code (infer_exit 1) \<noteq> 0" by (simp add: infer_exit_def)
  obtain counts ds where r: "detect_runs (nat (io_iterations opt)) (Value ds) = Value counts"
    "rep = \<lparr>ir_code = 0, ir_runs = length counts, ir_last_count = (if counts = [] then 0 else last counts),
       ir_names = map (\<lambda>d. CocoClassName (class_id d)) ds\<rparr>"
    using assms(1,2) code unfolding infer_bench_def assms(3)
    by (auto simp: and_then_Value split: option.splits bool.splits prod.splits if_splits)
  then have "length counts = nat (io_iterations opt)" "\<forall>c\<in>set counts. c = length ds" using detect_runs_Value[OF r(1)] by auto
  moreover from this have "counts \<noteq> []" using assms(4) by auto
  ultimately show ?thesis using r(2) last_in_set by auto
qed

text \<open>A negative number of iterations does not time anything: reserving room for the samples throws.\<close>

lemma infer_bench_negative:
  assumes "infer_args args (default_infer_options model img) = Some opt" "io_iterations opt < 0"
    and "infer_bench imread new_session detect_all frame model img args = Value rep"
  shows "ir_code rep = 1"
  using assms(3) unfolding infer_bench_def assms(1)
  by (auto simp: and_then_Value infer_exit_def assms(2) split: option.splits bool.splits prod.splits)

end
