(* ===== verification/Spec2Isabelle.thy ===== *)
theory Spec2Isabelle
  imports Wal RingBuffer TokenBucket EdgePipeline Weather Shadow Ota Kafka Onnx EndToEnd GatewayMain Demo EdgeTool AgentDisk AgentMain Drain
    EdgeDetector SampleVideo VideoProducer Bench
begin

text \<open>
  Ridgeline is an edge-to-cloud ingestion pipeline in C++.  On a device, a capture thread puts
  frames into a lock-free ring, an inference thread takes them out, runs a detector and a K-of-N
  confirmer and puts confirmed events into a second ring (inference/src/edge_pipeline.cc).  The agent
  (agent/src/main.cc) drains that ring, commits every event to a write-ahead log (core/src/wal.cc) and
  to an outbox, and streams it to the gateway over gRPC.  The gateway (gateway/src/main.cc) checks the
  peer's identity and a rate limit, publishes the event to Kafka, raises alerts from weather data,
  acknowledges cumulatively, and answers heartbeats with Redis and DynamoDB updates and configuration
  pushes.  Over-the-air manifests, a demo function and tools stand beside this path.

  This development translates these parts into executable functions, and step relations where threads
  or processes interleave, and proves what they promise.

  \<^bold>\<open>Theories, in the order of their imports.\<close>

  \<^item> \<open>Prelude\<close>: the collections of rewrite rules, little-endian byte encodings of machine words, list
    lemmas, types of words and bytes.
  \<^item> \<open>Crc32\<close> (core/include/ridgeline/crc32.h): \<open>Crc32\<close> with its compile-time table.  It equals the
    bit-serial division by the polynomial and detects every burst of up to 32 bits.
  \<^item> \<open>WalCodec\<close> (wal_record_codec.h): \<open>EncodeRecord\<close> and \<open>DecodeRecord\<close> on byte lists, with offsets in 64
    bits and reads outside the buffer as a separate result.  Round trip, memory safety and progress on
    every input, rejection of damaged records.
  \<^item> \<open>Wal\<close> (core/src/wal.cc): the class on an explicit file system; a script decides how every system call
    ends (in part, with an error, with the death of the process).  The locale \<open>crash_atomic\<close> states what
    a log promises to its client, and its interpretation discharges it for \<open>Append\<close>, \<open>Acknowledge\<close> and \<open>Compact\<close>.
    Recovery after a crash at any system call yields the completed operations, possibly with the
    interrupted one.  Two theorems show where the code falls short: an append behind a torn record is
    invisible, and compaction racing with an append loses it.
  \<^item> \<open>RingBuffer\<close> (ring_buffer.h): the four operations as functions, which refine a bounded queue (locale
    \<open>bounded_fifo\<close>), and the two threads as steps on atomics whose loads may return any value the release
    and acquire orders allow.  First-in first-out, bounded, free of races under all interleavings.
  \<^item> \<open>Ieee\<close>: binary32 and binary64 arithmetic on rationals, infinities and NaN, with rounding to nearest
    even; signed zeros are identified.
  \<^item> \<open>Backoff\<close>, \<open>TokenBucket\<close>, \<open>KofN\<close> (core): the delay stays below its ceiling; the bucket stays within its
    capacity and admits as many events of a burst as it has whole tokens; the confirmer fires exactly when K of
    the last N frames are positive.
  \<^item> \<open>Capture\<close> (core/include/ridgeline/frame.h, detector.h, fake_detector.h, synthetic_frame_source.h,
    capture/src/video_file_frame_source.cc): frames as fixed storage and the sources that fill them in bounds.
  \<^item> \<open>EdgePipeline\<close> (inference/src/edge_pipeline.cc): iterations of both threads as steps.  Every frame
    is captured, dropped or pending, and one event is offered per rising edge of the confirmation.
  \<^item> \<open>Onnx\<close> (inference/src/onnx_cpu_detector.cc): letterbox resize, decoding and greedy suppression.
    Accesses stay in bounds, and what is returned is well formed and complete up to suppression.
  \<^item> \<open>EdgeDetector\<close>: the constructor of \<open>EdgePipeline\<close> on its configuration, with the video source and the
    ONNX detector.  Every event is backed by a detection on the frame it names, above the threshold.  A session is a
    pipeline whose event ring a consumer drains; the tool and the agent's producer use its lemmas.
  \<^item> \<open>Cstd\<close>: the parts of the C and C++ libraries the sources use on text (\<open>getline\<close>, number parsing and
    printing, command-line flags).
  \<^item> \<open>Weather\<close> (weather/src), \<open>Shadow\<close> (dynamodb/src), \<open>Ota\<close> (ota/src, tools/ota_tool.cc), \<open>Kafka\<close> (kafka/src),
    \<open>Redis\<close> (redis/src): alert severities, request signing and the conditional update of device shadows,
    and the weather cache of the gateway, signed manifests with their keys, from generation to verification, the
    producer's configuration and its publish call with late delivery reports under all interleavings, and the hot
    state in a hash.
  \<^item> \<open>Protocol\<close> (proto/ridgeline/v1/ingest.proto): the messages as records.
  \<^item> \<open>Gateway\<close> and \<open>Ledger\<close> (gateway/src/main.cc): every message handler with its early returns, the
    loop over a stream, and all streams together as steps that share rate limiters and the world.
    \<open>trace\<close> records what a handler did.  Acknowledgements are sound, the counters account for every event,
    tenants do not affect each other's buckets, and a certificate binds an identity.
  \<^item> \<open>GatewayMain\<close> (gateway/src/main.cc, \<open>main\<close>): command line, construction of the integrations, credentials.
  \<^item> \<open>Agent\<close> (agent/src/main.cc): command line, outbox, startup, commit, both producers, reader, the passes of
    the send loop.  The agent uses its log through the locale \<open>event_log\<close>, interpreted on the abstract log of
    \<open>Wal\<close>.  The outbox is the unacknowledged part of the log at every moment, also after a restart.
  \<^item> \<open>AgentDisk\<close> (agent/src/main.cc over core/src/wal.cc): startup, commit, acknowledgement and compaction of the
    agent with the system calls of the log.  \<open>crash_atomic\<close> is interpreted once more, on the whole process, and a
    restart after a crash at any system call finds the abstract agent of \<open>Agent\<close>.
  \<^item> \<open>AgentMain\<close> (agent/src/main.cc, \<open>main\<close>): the interruptible sleep and the wait for the channel, which return
    within a number of rounds, and the connection loop beside producer and reader threads up to the exit code.
  \<^item> \<open>VideoProducer\<close> (agent/src/main.cc): the loops of the video producer, which rebuild the pipeline for a new
    configuration and commit confirmed events, beside the threads of the pipeline and the reader.  What the log holds
    comes from frames the detector found positive, and a session that ends by itself has all its episodes in the log.
  \<^item> \<open>EndToEnd\<close>: agent and gateway over streams that break anywhere.  No committed event is lost when the
    gateway rejects none; a run in which one refused event is lost for good; configurations converge.
  \<^item> \<open>Drain\<close>: progress of agent and gateway.  A quiet stream has an empty outbox, and from every state there are
    steps that empty it; a theorem on runs in which these steps are really taken would need a fair scheduler.
  \<^item> \<open>Demo\<close> (demo/lambda/src, the libcurl transports), \<open>Tools\<close> (tools/latency_stats.h, tools/fuzz, tools/fleet),
    \<open>EdgeTool\<close> (tools/ridgeline_edge.cc), \<open>SampleVideo\<close> (tools/make_sample_video.cc), \<open>Bench\<close> (bench,
    tools/infer_bench.cc, coco_classes.h).  The fleet simulator numbers its events without gaps over all streams;
    the command-line pipeline counts the confirmed episodes, and on the sample video as many as announced;
    the ring buffer benchmark counts what it pushed and popped, and may leave events in the ring.

  \<^bold>\<open>How state and effects correspond to the code.\<close>  A class or struct is a record with the fields of the
  source; unsigned integers are words that wrap, signed ones are integers with the overflow of the source as
  a branch; a thrown exception, an abort, an out-of-bounds access and other undefined behaviour are values
  of the result types (\<open>result\<close>, \<open>rpc\<close>, \<open>outcome\<close>, \<open>option\<close>).  Fields named as ghosts in the theories
  (\<open>trace\<close>, \<open>pushed\<close>, \<open>popped\<close>, \<open>verdicts\<close>, \<open>captured\<close>, \<open>offered\<close>, \<open>emitted\<close>, \<open>delivered\<close>) only record history.  Code that is
  not among the sources is an argument: the kernel's answers, gRPC writes, librdkafka's reports, hiredis,
  libcurl, OpenSSL, the JSON library, OpenCV, ONNX Runtime, protobuf, clocks and random numbers.  What a
  theorem needs of it is a named hypothesis, and the theorem's witness instantiates it.

  \<^bold>\<open>Bounds.\<close>  Every loop is structural or terminates by a measure, so no fuel is used; the log's theorems
  assume files below \<open>2 ^ 63\<close> bytes, the limit of a file offset.  The agent and the end-to-end theorems assume
  fewer than \<open>2 ^ 64 - 1\<close> events.  The detector's bounds (4096 by 4096 pixels, input up to 4095) exceed the
  1280 by 720 pixels a frame can hold and the input sizes of the models.

  \<^bold>\<open>Not modelled.\<close>  Durability below the system calls: a completed \<open>write\<close> is kept, \<open>fsync\<close> may fail but has no
  other effect, so loss of power is outside the model.  In \<open>EndToEnd\<close> the log is the abstract one, so a crash
  restarts from a clean log; \<open>AgentDisk\<close> justifies this for one crash with a torn record at the end, while records
  appended behind a torn one are lost, as a theorem of \<open>Wal\<close> shows.  A gateway still working on a stream the
  agent has given up is covered by serving that stream before it breaks.  Signal handlers, the creation and
  joining of threads, printed text and log lines are left out, since they change no modelled state; a step of a
  thread is one round of its loop, except in the ring buffer, where it is one memory access.  The system clock
  (time.h) is an argument.  The mock Kafka broker only calls the mock cluster of librdkafka and waits for a signal.
  Scripts, infrastructure, the demo page and the tests drive the modelled code and have no logic of their own that
  the C++ sources rely on.
\<close>

end
